(* ===== verification/Chos_Prelude.thy ===== *)
theory Chos_Prelude
  imports Main "HOL-Library.Word"
begin

text \<open>
  What every component of the development shares: the fault type and the sequencing of
  operations that may fault, the C view of byte buffers (a string ends at its first NUL),
  the scan for the end of a line that the kernel handlers and the user tools both write
  out as a loop, list lemmas about updating one slot of a table, and the generic data
  refinement interface by which a component's operations are compared with their
  specification.
\<close>

section \<open>Collections and types\<close>

named_theorems frame \<open>what an operation leaves unchanged\<close>
named_theorems cstr_simps \<open>C strings over byte lists\<close>

type_synonym addr = nat
type_synonym bytes = "char list"

text \<open>
  The ways in which the modelled C code can leave its defined behaviour. \<open>BUG\<close> is the
  kernel's \<^verbatim>\<open>BUG_ON\<close>, \<open>Bad_Address\<close> and \<open>Write_Protected\<close> are the oops of the kernel at an unmapped user address and at a page of code that is not writable; the others are accesses and computations that C leaves undefined.
\<close>

datatype fault = BUG | Out_Of_Bounds | Null_Deref | Use_After_Free | Bad_Free | Bad_Address | Write_Protected | Signed_Overflow | Undefined

text \<open>The value by which the functions of PAM report success.\<close>

abbreviation (input) PAM_SUCCESS :: int where "PAM_SUCCESS \<equiv> 0"

section \<open>Sequencing operations that may fault\<close>

definition ebind :: "'e + 'a \<Rightarrow> ('a \<Rightarrow> 'e + 'b) \<Rightarrow> 'e + 'b" where
  "ebind m f = (case m of Inl e \<Rightarrow> Inl e | Inr x \<Rightarrow> f x)"

lemma ebind_simps [simp]: "ebind (Inl e) f = Inl e" "ebind (Inr x) f = f x"
  by (simp_all add: ebind_def)

lemma ebind_Inr_iff: "ebind m f = Inr y \<longleftrightarrow> (\<exists>x. m = Inr x \<and> f x = Inr y)"
  by (cases m) simp_all

lemma ebind_Inl_iff: "ebind m f = Inl e \<longleftrightarrow> m = Inl e \<or> (\<exists>x. m = Inr x \<and> f x = Inl e)"
  by (cases m) simp_all

section \<open>One slot of a table\<close>

lemma length_filter_update:
  assumes "i < length xs"
  shows "length (filter P (xs[i := x])) + (if P (xs ! i) then 1 else 0)
       = length (filter P xs) + (if P x then 1 else 0)"
  using assms
proof (induction xs arbitrary: i)
  case Nil
  then show ?case by simp
next
  case (Cons y ys)
  then show ?case by (cases i) auto
qed

lemma filter_pos_iff: "0 < length (filter P xs) \<longleftrightarrow> (\<exists>i < length xs. P (xs ! i))"
  by (metis filter_empty_conv in_set_conv_nth length_greater_0_conv)

lemma two_slots_length_filter:
  assumes "i < length xs" "j < length xs" "i \<noteq> j" "P (xs ! i)" "P (xs ! j)"
  shows "2 \<le> length (filter P xs)"
proof -
  have "{i, j} \<subseteq> {k. k < length xs \<and> P (xs ! k)}"
    using assms by auto
  then have "card {i, j} \<le> card {k. k < length xs \<and> P (xs ! k)}"
    by (intro card_mono) auto
  then show ?thesis
    using assms(3) by (simp add: length_filter_conv_card)
qed

lemma sum_list_slot: "i < length xs \<Longrightarrow> sum_list (xs[i := x]) = sum_list xs - xs ! i + x" for xs :: "int list"
proof (induction xs arbitrary: i)
  case (Cons y ys)
  then show ?case by (cases i) auto
qed simp

section \<open>C strings\<close>

abbreviation NUL :: char where "NUL \<equiv> CHR 0x00"
abbreviation NL :: char where "NL \<equiv> CHR 0x0A"

text \<open>The string a C function sees in a buffer: the bytes before the first NUL.\<close>

definition cstr :: "bytes \<Rightarrow> string" where
  "cstr b = takeWhile (\<lambda>c. c \<noteq> NUL) b"

lemma cstr_Nil [simp]: "cstr [] = []"
  by (simp add: cstr_def)

lemma cstr_Cons [simp]: "cstr (c # b) = (if c = NUL then [] else c # cstr b)"
  by (simp add: cstr_def)

lemma cstr_append_NUL [cstr_simps]: "NUL \<notin> set s \<Longrightarrow> cstr (s @ NUL # b) = s"
  by (induction s) auto

lemma cstr_no_NUL [cstr_simps]: "NUL \<notin> set s \<Longrightarrow> cstr s = s"
  by (induction s) auto

lemma cstr_NUL_free [simp]: "NUL \<notin> set (cstr b)"
  by (auto simp: cstr_def dest: set_takeWhileD)

lemma cstr_append_terminated: "cstr (b @ [NUL]) = cstr b"
  by (induction b) auto

lemma set_cstr_subset: "set (cstr b) \<subseteq> set b"
  by (auto simp: cstr_def dest: set_takeWhileD)

lemma length_cstr_le: "length (cstr b) \<le> length b"
  by (simp add: cstr_def length_takeWhile_le)

section \<open>The scan for the end of a line\<close>

text \<open>
  User memory, from the address that the caller gives: \<open>None\<close> is an address that is not mapped.
\<close>

type_synonym user_mem = "nat \<Rightarrow> char option"

text \<open>
  \<^verbatim>\<open>i=0; while (i<count && buf[i]!='\n' && buf[i]!=0) i++;\<close>, which reads user memory directly.
\<close>

function scan_line :: "user_mem \<Rightarrow> nat \<Rightarrow> nat \<Rightarrow> fault + nat" where
  "scan_line buf count i =
     (if i < count then
        (case buf i of
           None \<Rightarrow> Inl Bad_Address
         | Some c \<Rightarrow> if c \<noteq> NL \<and> c \<noteq> NUL then scan_line buf count (Suc i) else Inr i)
      else Inr i)"
  by pat_completeness auto
termination
  by (relation "measure (\<lambda>(buf, count, i). count - i)") auto

declare scan_line.simps [simp del]

text \<open>
  Where the line ends, and whether the scan can come so far: every byte up to there is mapped.
\<close>

function line_end :: "user_mem \<Rightarrow> nat \<Rightarrow> nat \<Rightarrow> nat" where
  "line_end buf count i =
     (if i < count \<and> buf i \<noteq> Some NL \<and> buf i \<noteq> Some NUL then line_end buf count (Suc i) else i)"
  by pat_completeness auto
termination
  by (relation "measure (\<lambda>(buf, count, i). count - i)") auto

declare line_end.simps [simp del]

definition readable :: "user_mem \<Rightarrow> nat \<Rightarrow> bool" where
  "readable buf count \<longleftrightarrow> (\<forall>j < count. (\<forall>i < j. buf i \<noteq> Some NL \<and> buf i \<noteq> Some NUL) \<longrightarrow> buf j \<noteq> None)"

lemma scan_line_from:
  assumes "\<forall>k < i. buf k \<noteq> None \<and> buf k \<noteq> Some NL \<and> buf k \<noteq> Some NUL"
  shows "scan_line buf count i = (if readable buf count then Inr (line_end buf count i) else Inl Bad_Address)"
  using assms
proof (induction buf count i rule: scan_line.induct)
  case (1 buf count i)
  show ?case
  proof (cases "i < count")
    case False
    then have "readable buf count" using "1.prems" by (auto simp: readable_def)
    with False show ?thesis by (simp add: scan_line.simps [of buf count i] line_end.simps [of buf count i])
  next
    case True
    show ?thesis
    proof (cases "buf i")
      case None
      with True "1.prems" have "\<not> readable buf count" by (auto simp: readable_def)
      with True None show ?thesis by (simp add: scan_line.simps [of buf count i])
    next
      case (Some c)
      show ?thesis
      proof (cases "c \<noteq> NL \<and> c \<noteq> NUL")
        case go: True
        with "1.prems" Some have "\<forall>k < Suc i. buf k \<noteq> None \<and> buf k \<noteq> Some NL \<and> buf k \<noteq> Some NUL" by (auto simp: less_Suc_eq)
        with "1.IH" [OF True Some] go True Some show ?thesis
          by (simp add: scan_line.simps [of buf count i] line_end.simps [of buf count i])
      next
        case stop: False
        have "readable buf count"
          unfolding readable_def
        proof (intro allI impI)
          fix j
          assume j: "j < count" "\<forall>i < j. buf i \<noteq> Some NL \<and> buf i \<noteq> Some NUL"
          then have "j \<le> i" using stop Some by (meson not_le)
          then show "buf j \<noteq> None" using "1.prems" Some by (cases "j = i") auto
        qed
        with stop True Some show ?thesis by (auto simp: scan_line.simps [of buf count i] line_end.simps [of buf count i])
      qed
    qed
  qed
qed

lemma scan_line_iff:
  "scan_line buf count 0 = (if readable buf count then Inr (line_end buf count 0) else Inl Bad_Address)"
  by (rule scan_line_from) simp

lemma line_end_bounds: "i \<le> count \<Longrightarrow> i \<le> line_end buf count i \<and> line_end buf count i \<le> count"
proof (induction buf count i rule: line_end.induct)
  case (1 buf count i)
  then show ?case by (subst (1 2) line_end.simps) auto
qed

lemma line_end_before:
  "i \<le> j \<Longrightarrow> j < line_end buf count i \<Longrightarrow> j < count \<and> buf j \<noteq> Some NL \<and> buf j \<noteq> Some NUL"
proof (induction buf count i rule: line_end.induct)
  case (1 buf count i)
  show ?case
  proof (cases "i < count \<and> buf i \<noteq> Some NL \<and> buf i \<noteq> Some NUL")
    case True
    then have "line_end buf count i = line_end buf count (Suc i)" by (simp add: line_end.simps [of buf count i])
    with "1" True show ?thesis by (cases "i = j") auto
  next
    case False
    then have "line_end buf count i = i" by (subst line_end.simps) auto
    with "1.prems" show ?thesis by simp
  qed
qed

definition ubytes :: "user_mem \<Rightarrow> nat \<Rightarrow> bytes" where
  "ubytes buf n = map (\<lambda>i. the (buf i)) [0..<n]"

lemma length_ubytes [simp]: "length (ubytes buf n) = n"
  by (simp add: ubytes_def)

lemma ubytes_line_clean:
  assumes "readable buf count"
  shows "set (ubytes buf (line_end buf count 0)) \<inter> {NL, NUL} = {}"
proof -
  have "the (buf j) \<noteq> NL \<and> the (buf j) \<noteq> NUL" if "j < line_end buf count 0" for j
  proof -
    have "\<forall>i < j. buf i \<noteq> Some NL \<and> buf i \<noteq> Some NUL" using line_end_before [of 0 _ buf count] that by simp
    then have "buf j \<noteq> None" "buf j \<noteq> Some NL" "buf j \<noteq> Some NUL"
      using assms line_end_before [of 0 j buf count] that by (simp_all add: readable_def)
    then show ?thesis by auto
  qed
  then show ?thesis unfolding ubytes_def by fastforce
qed

text \<open>User memory that holds a given string followed by NULs, for concrete inputs.\<close>

definition umem :: "string \<Rightarrow> user_mem" where
  "umem s i = Some (if i < length s then s ! i else NUL)"

lemma umem_char: "j < length s \<Longrightarrow> umem s j = Some c \<longleftrightarrow> s ! j = c"
  by (simp add: umem_def)

lemma readable_umem [simp]: "readable (umem s) count"
  by (simp add: readable_def umem_def)

section \<open>Data refinement\<close>

text \<open>
  A family of operations \<open>cop x\<close> that may fault on a concrete state refines a family
  \<open>aop x\<close> on the abstract state: under the invariant and a precondition it does not
  fault, keeps the invariant, and commutes with the abstraction. The precondition of a
  later operation of a run may be established by the earlier ones, so it is required to
  be stable: performing one operation keeps the precondition of every other.
\<close>

locale data_refinement =
  fixes inv :: "'s \<Rightarrow> bool"
    and abs :: "'s \<Rightarrow> 'a"
    and pre :: "'x \<Rightarrow> 's \<Rightarrow> bool"
    and cop :: "'x \<Rightarrow> 's \<Rightarrow> fault + 's"
    and aop :: "'x \<Rightarrow> 'a \<Rightarrow> 'a"
  assumes refines: "inv s \<Longrightarrow> pre x s \<Longrightarrow> \<exists>s'. cop x s = Inr s' \<and> inv s' \<and> abs s' = aop x (abs s)"
    and pre_stable: "inv s \<Longrightarrow> pre x s \<Longrightarrow> pre y s \<Longrightarrow> cop x s = Inr s' \<Longrightarrow> pre y s'"
begin

primrec run :: "'x list \<Rightarrow> 's \<Rightarrow> fault + 's" where
  "run [] s = Inr s"
| "run (x # xs) s = ebind (cop x s) (run xs)"

lemma run_refines:
  assumes "inv s" and "\<forall>x \<in> set xs. pre x s"
  shows "\<exists>s'. run xs s = Inr s' \<and> inv s' \<and> abs s' = fold aop xs (abs s)"
  using assms
proof (induction xs arbitrary: s)
  case Nil
  then show ?case by simp
next
  case (Cons x xs)
  from Cons.prems have x: "pre x s" and xs: "\<forall>y \<in> set xs. pre y s"
    by simp_all
  obtain s1 where s1: "cop x s = Inr s1" "inv s1" "abs s1 = aop x (abs s)"
    using refines [OF Cons.prems(1) x] by blast
  have "\<forall>y \<in> set xs. pre y s1"
    using pre_stable [OF Cons.prems(1) x _ s1(1)] xs by blast
  from Cons.IH [OF s1(2) this] s1 show ?case
    by simp
qed

end

section \<open>Machines with an invariant\<close>

text \<open>
  A step relation with an inductive invariant. The reachable states are those connected
  to an initial state by the reflexive transitive closure of the step relation.
\<close>

locale invariant_machine =
  fixes init :: "'s \<Rightarrow> bool"
    and step :: "'s \<Rightarrow> 's \<Rightarrow> bool"
    and inv :: "'s \<Rightarrow> bool"
  assumes inv_init: "init s \<Longrightarrow> inv s"
    and inv_step: "inv s \<Longrightarrow> step s t \<Longrightarrow> inv t"
begin

lemma inv_run:
  assumes "step\<^sup>*\<^sup>* s t" and "inv s"
  shows "inv t"
  using assms by (induction rule: rtranclp_induct) (blast intro: inv_step)+

lemma inv_reachable:
  assumes "init s" and "step\<^sup>*\<^sup>* s t"
  shows "inv t"
  using assms inv_run inv_init by blast

end

section \<open>A whole string as user memory\<close>

lemma line_end_full:
  assumes "\<forall>j. i \<le> j \<longrightarrow> j < count \<longrightarrow> buf j \<noteq> Some NL \<and> buf j \<noteq> Some NUL" and "i \<le> count"
  shows "line_end buf count i = count"
  using assms
proof (induction buf count i rule: line_end.induct)
  case (1 buf count i)
  then show ?case by (subst line_end.simps) auto
qed

lemma line_end_stops:
  assumes "\<forall>j. i \<le> j \<longrightarrow> j < n \<longrightarrow> buf j \<noteq> Some NL \<and> buf j \<noteq> Some NUL" and "i \<le> n" "n < count" "buf n = Some NL \<or> buf n = Some NUL"
  shows "line_end buf count i = n"
  using assms
proof (induction buf count i rule: line_end.induct)
  case (1 buf count i)
  then show ?case by (subst line_end.simps) (cases "i = n"; auto)
qed

lemma umem_line:
  assumes "NL \<notin> set s" and "NUL \<notin> set s"
  shows "line_end (umem s) (length s) 0 = length s" and "ubytes (umem s) (length s) = s"
proof -
  have "umem s j \<noteq> Some NL \<and> umem s j \<noteq> Some NUL" if "j < length s" for j
    using assms nth_mem [OF that] that by (metis umem_char)
  then show "line_end (umem s) (length s) 0 = length s" by (intro line_end_full) simp_all
  show "ubytes (umem s) (length s) = s" by (intro nth_equalityI) (simp_all add: ubytes_def umem_def)
qed

lemma umem_text:
  assumes "NL \<notin> set s" and "NUL \<notin> set s"
  shows "line_end (umem (s @ [NL])) (length (s @ [NL])) 0 = length s" and "ubytes (umem (s @ [NL])) (length s) = s"
proof -
  have "umem (s @ [NL]) j \<noteq> Some NL \<and> umem (s @ [NL]) j \<noteq> Some NUL" if "j < length s" for j
  proof -
    have "(s @ [NL]) ! j = s ! j" "j < length (s @ [NL])" using that by (simp_all add: nth_append)
    moreover have "s ! j \<noteq> NL" "s ! j \<noteq> NUL" using assms nth_mem [OF that] by metis+
    ultimately show ?thesis by (simp add: umem_char)
  qed
  then show "line_end (umem (s @ [NL])) (length (s @ [NL])) 0 = length s"
    by (intro line_end_stops) (simp_all add: umem_def)
  show "ubytes (umem (s @ [NL])) (length s) = s"
    by (intro nth_equalityI) (simp_all add: ubytes_def umem_def nth_append)
qed

section \<open>Searching in lines\<close>

text \<open>What \<^verbatim>\<open>grep\<close> looks for when the pattern is a plain text.\<close>

fun contains :: "string \<Rightarrow> string \<Rightarrow> bool" where
  "contains p [] = (p = [])"
| "contains p (c # s) = (take (length p) (c # s) = p \<or> contains p s)"

end
