(* ===== verification/Link_Table.thy ===== *)
theory Link_Table
  imports Chos_Prelude
begin

text \<open>
  The link table of \<^verbatim>\<open>kernel/chos_lkm.c\<close>: the reference-counted \<^verbatim>\<open>struct chos_link\<close> objects, the
  array of \<^verbatim>\<open>struct chos_proc\<close> cache slots indexed by pid, and the five operations on them
  (\<^verbatim>\<open>create_link\<close>, \<^verbatim>\<open>destroy_link\<close>, \<^verbatim>\<open>reset_link\<close>, \<^verbatim>\<open>set_link\<close>, \<^verbatim>\<open>cleanup_links\<close>) and the walk up
  the process tree \<^verbatim>\<open>lookup_link\<close>. Memory is an explicit store: a pointer is an address, NULL is
  \<open>None\<close>, and an access to an address that holds no live object is a fault. The kernel's
  allocator is the parameter \<open>km\<close> of the operations that call it: given which addresses are live, it
  fails (\<open>None\<close>) or returns an address. The kernel's task list is the parameter \<open>ts\<close>
  (what a \<^verbatim>\<open>struct task_struct *\<close> points to) and \<open>find_task\<close> (\<^verbatim>\<open>find_task_by_pid_ns\<close>).
\<close>

section \<open>Data\<close>

text \<open>\<^verbatim>\<open>atomic_t count\<close> is a 32-bit integer; the increments and decrements wrap.\<close>

record chos_link =
  ltext :: addr
  lcount :: "32 word"

record chos_proc =
  plink :: "addr option"
  pstart :: "64 word"

text \<open>
  The part of \<^verbatim>\<open>struct task_struct\<close> the module reads: the global pid, the seconds of the start
  time, the parent pointer, and the pointers to its \<^verbatim>\<open>struct fs_struct\<close> and its \<^verbatim>\<open>struct cred\<close>,
  which tasks may share.
\<close>

type_synonym tid = nat

record task_struct =
  tpid :: nat
  tstart :: "64 word"
  tparent :: "tid option"
  tfs :: addr
  tcred :: addr

type_synonym tasks = "tid \<Rightarrow> task_struct option"

record link_state =
  links :: "addr \<Rightarrow> chos_link option"
  bufs :: "addr \<Rightarrow> bytes option"
  procs :: "chos_proc list"
  pid_max :: "64 word"

text \<open>\<^verbatim>\<open>kmalloc\<close> never returns memory that is still in use.\<close>

type_synonym kmalloc = "(addr \<Rightarrow> bool) \<Rightarrow> addr option"

definition fresh_alloc :: "kmalloc \<Rightarrow> bool" where
  "fresh_alloc km \<longleftrightarrow> (\<forall>live a. km live = Some a \<longrightarrow> \<not> live a)"

section \<open>Operations\<close>

definition create_link :: "kmalloc \<Rightarrow> addr \<Rightarrow> 'z link_state_scheme \<Rightarrow>
    addr option \<times> 'z link_state_scheme" where
  "create_link km txt s =
     (case km (\<lambda>a. links s a \<noteq> None) of
        None \<Rightarrow> (None, s)
      | Some l \<Rightarrow> (Some l, s\<lparr>links := (links s)(l \<mapsto> \<lparr>ltext = txt, lcount = 0\<rparr>)\<rparr>))"

definition atomic_add :: "32 word \<Rightarrow> addr \<Rightarrow> 'z link_state_scheme \<Rightarrow> fault + 'z link_state_scheme" where
  "atomic_add d l s =
     (case links s l of
        None \<Rightarrow> Inl Use_After_Free
      | Some k \<Rightarrow> Inr (s\<lparr>links := (links s)(l \<mapsto> k\<lparr>lcount := lcount k + d\<rparr>)\<rparr>))"

abbreviation atomic_inc :: "addr \<Rightarrow> 'z link_state_scheme \<Rightarrow> fault + 'z link_state_scheme" where
  "atomic_inc \<equiv> atomic_add 1"

abbreviation atomic_dec :: "addr \<Rightarrow> 'z link_state_scheme \<Rightarrow> fault + 'z link_state_scheme" where
  "atomic_dec \<equiv> atomic_add (- 1)"

definition destroy_link :: "addr option \<Rightarrow> 'z link_state_scheme \<Rightarrow> fault + 'z link_state_scheme" where
  "destroy_link lk s =
     (case lk of
        None \<Rightarrow> Inr s
      | Some l \<Rightarrow>
         (case links s l of
            None \<Rightarrow> Inl Use_After_Free
          | Some k \<Rightarrow>
             if lcount k = 0 then
               (if bufs s (ltext k) = None then Inl Bad_Free
                else Inr (s\<lparr>bufs := (bufs s)(ltext k := None), links := (links s)(l := None)\<rparr>))
             else Inr s))"

definition reset_link :: "nat \<Rightarrow> 'z link_state_scheme \<Rightarrow> fault + 'z link_state_scheme" where
  "reset_link i s =
     (if length (procs s) \<le> i then Inl Out_Of_Bounds
      else
        let lk = plink (procs s ! i);
            s1 = s\<lparr>procs := (procs s)[i := \<lparr>plink = None, pstart = 0\<rparr>]\<rparr>
        in (case lk of
              None \<Rightarrow> Inr s1
            | Some l \<Rightarrow>
                ebind (atomic_dec l s1) (\<lambda>s2.
                  case links s2 l of
                    None \<Rightarrow> Inl Use_After_Free
                  | Some k \<Rightarrow> if lcount k = 0 then destroy_link (Some l) s2 else Inr s2)))"

definition set_link :: "tasks \<Rightarrow> addr option \<Rightarrow> tid option \<Rightarrow> 'z link_state_scheme \<Rightarrow>
    fault + 'z link_state_scheme" where
  "set_link ts lk t s =
     (case t of
        None \<Rightarrow> Inl BUG
      | Some a \<Rightarrow>
         (case ts a of
            None \<Rightarrow> Inl Use_After_Free
          | Some k \<Rightarrow>
             if unat (pid_max s) < tpid k then Inl BUG
             else if length (procs s) \<le> tpid k then Inl Out_Of_Bounds
             else
               ebind (if plink (procs s ! tpid k) \<noteq> None then reset_link (tpid k) s else Inr s) (\<lambda>s1.
               ebind (case lk of None \<Rightarrow> Inr s1 | Some l \<Rightarrow> atomic_inc l s1) (\<lambda>s2.
               Inr (s2\<lparr>procs := (procs s2)[tpid k := \<lparr>plink = lk, pstart = tstart k\<rparr>]\<rparr>)))))"

text \<open>
  The body of the loop of \<^verbatim>\<open>cleanup_links\<close> for slot \<open>i\<close>, and the loop over
  \<^verbatim>\<open>i = 0, ..., pid_max - 1\<close>. The counter of the source is never read and is left out.
\<close>

definition cleanup_slot :: "tasks \<Rightarrow> (nat \<Rightarrow> tid option) \<Rightarrow> nat \<Rightarrow> 'z link_state_scheme \<Rightarrow>
    fault + 'z link_state_scheme" where
  "cleanup_slot ts find_task i s =
     (if length (procs s) \<le> i then Inl Out_Of_Bounds
      else if plink (procs s ! i) \<noteq> None \<and> find_task i = None then reset_link i s
      else if plink (procs s ! i) \<noteq> None then
        (case find_task i of
           None \<Rightarrow> Inl Null_Deref
         | Some a \<Rightarrow>
            (case ts a of
               None \<Rightarrow> Inl Use_After_Free
             | Some k \<Rightarrow>
                 if pstart (procs s ! i) \<noteq> tstart k then reset_link i s else Inr s))
      else Inr s)"

primrec cleanup_loop :: "tasks \<Rightarrow> (nat \<Rightarrow> tid option) \<Rightarrow> nat list \<Rightarrow> 'z link_state_scheme \<Rightarrow>
    fault + 'z link_state_scheme" where
  "cleanup_loop ts find_task [] s = Inr s"
| "cleanup_loop ts find_task (i # is) s = ebind (cleanup_slot ts find_task i s) (cleanup_loop ts find_task is)"

definition cleanup_links :: "tasks \<Rightarrow> (nat \<Rightarrow> tid option) \<Rightarrow> 'z link_state_scheme \<Rightarrow>
    fault + 'z link_state_scheme" where
  "cleanup_links ts find_task s = cleanup_loop ts find_task [0..<unat (pid_max s)] s"

text \<open>
  \<^verbatim>\<open>lookup_link\<close> recurses along parent pointers, so its return is not a matter of course: \<open>None\<close>
  is a walk that never ends.
\<close>

partial_function (option) lookup_link :: "tasks \<Rightarrow> tid option \<Rightarrow> 'z link_state_scheme \<Rightarrow>
    (fault + addr option \<times> 'z link_state_scheme) option" where
  "lookup_link ts t s =
     (case t of
        None \<Rightarrow> Some (Inr (None, s))
      | Some a \<Rightarrow>
         (case ts a of
            None \<Rightarrow> Some (Inl Use_After_Free)
          | Some k \<Rightarrow>
             if tpid k = 0 \<or> tpid k = 1 then Some (Inr (None, s))
             else if unat (pid_max s) < tpid k then Some (Inl BUG)
             else if length (procs s) \<le> tpid k then Some (Inl Out_Of_Bounds)
             else if plink (procs s ! tpid k) = None \<or> pstart (procs s ! tpid k) \<noteq> tstart k then
               Option.bind (lookup_link ts (tparent k) s) (\<lambda>r.
                 Some (ebind r (\<lambda>(lk, s1).
                   if lk \<noteq> None then ebind (set_link ts lk t s1) (\<lambda>s2. Inr (lk, s2))
                   else ebind (reset_link (tpid k) s1) (\<lambda>s2. Inr (lk, s2)))))
             else Some (Inr (plink (procs s ! tpid k), s))))"

section \<open>The invariant\<close>

text \<open>How many slots of the table hold the link at address \<open>l\<close>.\<close>

definition refs :: "'z link_state_scheme \<Rightarrow> addr \<Rightarrow> nat" where
  "refs s l = length (filter (\<lambda>p. plink p = Some l) (procs s))"

text \<open>
  The table is well formed when the array has \<^verbatim>\<open>pid_max\<close> entries, every link that a slot holds is
  live, every live link has a live text of its own, and the reference count of every live
  link is exactly the number of slots that hold it. The bound on \<^verbatim>\<open>pid_max\<close> is that of the
  kernel (\<^verbatim>\<open>PID_MAX_LIMIT\<close> is \<open>2 ^ 22\<close>); it keeps \<^verbatim>\<open>atomic_t\<close> from wrapping.
\<close>

definition link_inv :: "'z link_state_scheme \<Rightarrow> bool" where
  "link_inv s \<longleftrightarrow>
     length (procs s) = unat (pid_max s) \<and> unat (pid_max s) < 2 ^ 31 \<and>
     (\<forall>p \<in> set (procs s). \<forall>l. plink p = Some l \<longrightarrow> links s l \<noteq> None) \<and>
     (\<forall>l k. links s l = Some k \<longrightarrow> bufs s (ltext k) \<noteq> None \<and> unat (lcount k) = refs s l) \<and>
     (\<forall>l k l' k'. links s l = Some k \<longrightarrow> links s l' = Some k' \<longrightarrow> ltext k = ltext k' \<longrightarrow> l = l')"

text \<open>Live links that no slot holds.\<close>

definition orphans :: "'z link_state_scheme \<Rightarrow> addr set" where
  "orphans s = {l. links s l \<noteq> None \<and> refs s l = 0}"

section \<open>The abstract table\<close>

text \<open>
  What the table means: a map from pids to the text of the link and the start time of the
  process it was recorded for. Addresses and reference counts are gone.
\<close>

type_synonym view = "nat \<Rightarrow> (string \<times> 64 word) option"

definition link_string :: "'z link_state_scheme \<Rightarrow> addr \<Rightarrow> string" where
  "link_string s l =
     (case links s l of None \<Rightarrow> []
      | Some k \<Rightarrow> (case bufs s (ltext k) of None \<Rightarrow> [] | Some b \<Rightarrow> cstr b))"

definition view :: "'z link_state_scheme \<Rightarrow> view" where
  "view s i =
     (if i < length (procs s) then
        map_option (\<lambda>l. (link_string s l, pstart (procs s ! i))) (plink (procs s ! i))
      else None)"

section \<open>Reference counts\<close>

lemma refs_le: "refs s l \<le> length (procs s)"
  by (simp add: refs_def)

lemma refs_pos_iff: "0 < refs s l \<longleftrightarrow> (\<exists>i < length (procs s). plink (procs s ! i) = Some l)"
  by (simp only: refs_def filter_pos_iff)

lemma refs_update:
  assumes "i < length (procs s)"
  shows "refs (s\<lparr>procs := (procs s)[i := p]\<rparr>) l + (if plink (procs s ! i) = Some l then 1 else 0)
       = refs s l + (if plink p = Some l then 1 else 0)"
  using length_filter_update [OF assms, of "\<lambda>p. plink p = Some l" p] by (simp add: refs_def)

lemma refs_cong [simp]:
  "refs (s\<lparr>links := x\<rparr>) = refs s" "refs (s\<lparr>bufs := y\<rparr>) = refs s"
  by (simp_all add: refs_def fun_eq_iff)

lemma link_invD:
  assumes "link_inv s"
  shows "length (procs s) = unat (pid_max s)" "unat (pid_max s) < 2 ^ 31"
    and "i < length (procs s) \<Longrightarrow> plink (procs s ! i) = Some l \<Longrightarrow> links s l \<noteq> None"
    and "links s l = Some k \<Longrightarrow> bufs s (ltext k) \<noteq> None"
    and "links s l = Some k \<Longrightarrow> unat (lcount k) = refs s l"
    and "links s l = Some k \<Longrightarrow> links s l' = Some k' \<Longrightarrow> ltext k = ltext k' \<Longrightarrow> l = l'"
  using assms nth_mem [of i "procs s"] unfolding link_inv_def by auto

lemma link_count_zero_iff:
  "link_inv s \<Longrightarrow> links s l = Some k \<Longrightarrow> lcount k = 0 \<longleftrightarrow> refs s l = 0"
  by (metis link_invD(5) unat_eq_zero)

section \<open>What the operations may free\<close>

text \<open>
  Every operation on a table that holds its links already only drops links: those that
  survive keep their text, and exactly the texts of the dropped links are freed. The relation is a
  preorder, so it carries over to loops and to the recursive walk.
\<close>

definition texts :: "'z link_state_scheme \<Rightarrow> addr set" where
  "texts s = ltext ` ran (links s)"

lemma texts_iff: "b \<in> texts s \<longleftrightarrow> (\<exists>l k. links s l = Some k \<and> b = ltext k)"
  by (auto simp: texts_def ran_def)

lemma texts_member: "links s l = Some k \<Longrightarrow> ltext k \<in> texts s"
  by (auto simp: texts_iff)

text \<open>Buffers that no link uses may change without the table noticing.\<close>

lemma link_part_cong:
  assumes "links s' = links s" "procs s' = procs s" "pid_max s' = pid_max s"
    and "\<And>b. b \<in> texts s \<Longrightarrow> bufs s' b = bufs s b"
  shows "link_inv s' \<longleftrightarrow> link_inv s" "view s' = view s" "orphans s' = orphans s" "texts s' = texts s"
proof -
  have refs: "refs s' = refs s" using assms by (simp add: refs_def fun_eq_iff)
  have tx: "links s l = Some k \<Longrightarrow> bufs s' (ltext k) = bufs s (ltext k)" for l k
    using assms(4) texts_member by blast
  show "orphans s' = orphans s" "texts s' = texts s"
    using assms(1) refs by (simp_all add: orphans_def texts_def)
  show "link_inv s' \<longleftrightarrow> link_inv s"
    unfolding link_inv_def assms(1-3) refs using tx by auto
  have "link_string s' l = link_string s l" for l
    using assms(1) tx [of l] by (simp add: link_string_def split: option.split)
  then show "view s' = view s" using assms(2) by (simp add: view_def fun_eq_iff)
qed

lemma texts_split:
  assumes "links s l = Some k"
  shows "texts s = insert (ltext k) (ltext ` ran ((links s)(l := None)))"
proof -
  have "ran (links s) = insert k (ran ((links s)(l := None)))"
    using assms ran_map_upd [of "(links s)(l := None)" l k] by (simp add: fun_upd_idem)
  then show ?thesis by (simp add: texts_def)
qed

lemma texts_recount:
  assumes "links s l = Some k"
  shows "ltext ` ran ((links s)(l \<mapsto> k\<lparr>lcount := c\<rparr>)) = texts s"
  using texts_split [OF assms] ran_map_upd [of "(links s)(l := None)" l "k\<lparr>lcount := c\<rparr>"] by simp

lemma texts_remove:
  assumes "link_inv s" and "links s l = Some k"
  shows "ltext ` ran ((links s)(l := None)) = texts s - {ltext k}"
proof -
  have "ltext k \<notin> ltext ` ran ((links s)(l := None))"
    using assms(2) link_invD(6) [OF assms(1)] by (auto simp: ran_def split: if_splits)
  with texts_split [OF assms(2)] show ?thesis by simp
qed

definition shrinks :: "'z link_state_scheme \<Rightarrow> 'z link_state_scheme \<Rightarrow> bool" where
  "shrinks s s' \<longleftrightarrow>
     (\<forall>l k'. links s' l = Some k' \<longrightarrow> (\<exists>k. links s l = Some k \<and> ltext k' = ltext k)) \<and>
     (\<forall>b. bufs s' b = (if b \<in> texts s - texts s' then None else bufs s b)) \<and>
     length (procs s') = length (procs s) \<and> pid_max s' = pid_max s \<and>
     link_state.more s' = link_state.more s"

lemma shrinks_refl [simp]: "shrinks s s"
  by (simp add: shrinks_def)

lemma shrinks_texts: "shrinks s s' \<Longrightarrow> texts s' \<subseteq> texts s"
  by (fastforce simp: shrinks_def texts_iff)

lemma shrinks_trans:
  assumes "shrinks s s'" and "shrinks s' s''"
  shows "shrinks s s''"
proof -
  have sub: "texts s' \<subseteq> texts s" "texts s'' \<subseteq> texts s'"
    using assms by (simp_all add: shrinks_texts)
  have "\<forall>b. bufs s'' b = (if b \<in> texts s - texts s'' then None else bufs s b)"
    using assms sub unfolding shrinks_def by auto
  moreover have "\<forall>l k'. links s'' l = Some k' \<longrightarrow> (\<exists>k. links s l = Some k \<and> ltext k' = ltext k)"
    using assms unfolding shrinks_def by metis
  ultimately show ?thesis
    using assms by (simp add: shrinks_def)
qed

lemma shrinksD [frame]:
  assumes "shrinks s s'"
  shows "length (procs s') = length (procs s)" "pid_max s' = pid_max s"
    and "link_state.more s' = link_state.more s"
    and "links s' l \<noteq> None \<Longrightarrow> links s l \<noteq> None"
    and "b \<notin> texts s \<Longrightarrow> bufs s' b = bufs s b"
    and "b \<in> texts s - texts s' \<Longrightarrow> bufs s' b = None"
  using assms by (auto simp: shrinks_def) blast

text \<open>The texts of the live links, as strings.\<close>

definition link_strings :: "'z link_state_scheme \<Rightarrow> string set" where
  "link_strings s = {link_string s l |l. links s l \<noteq> None}"

lemma link_strings_cong:
  assumes "links s' = links s" and "\<And>b. b \<in> texts s \<Longrightarrow> bufs s' b = bufs s b"
  shows "link_strings s' = link_strings s"
proof -
  have "link_string s' l = link_string s l" for l
    using assms texts_member [of s l] by (auto simp: link_string_def split: option.split)
  with assms(1) show ?thesis by (simp add: link_strings_def)
qed

lemma create_link_strings:
  assumes "create_link km a s = (Some l, s')" and "bufs s a = Some b"
  shows "link_strings s' \<subseteq> insert (cstr b) (link_strings s)"
proof -
  have s': "s' = s\<lparr>links := (links s)(l \<mapsto> \<lparr>ltext = a, lcount = 0\<rparr>)\<rparr>"
    using assms(1) by (auto simp: create_link_def split: option.splits)
  have "link_string s' i = (if i = l then cstr b else link_string s i)" for i
    using assms(2) by (simp add: s' link_string_def split: option.split)
  moreover have "links s' i \<noteq> None \<longleftrightarrow> i = l \<or> links s i \<noteq> None" for i by (simp add: s')
  ultimately show ?thesis by (auto simp: link_strings_def)
qed

lemma view_link_strings:
  assumes "link_inv s" and "view s i = Some (x, st)"
  shows "x \<in> link_strings s"
proof -
  obtain l where l: "i < length (procs s)" "plink (procs s ! i) = Some l" "x = link_string s l"
    using assms(2) by (auto simp: view_def split: if_splits)
  with link_invD(3) [OF assms(1) l(1,2)] show ?thesis by (auto simp: link_strings_def)
qed

lemma shrinks_link_string:
  assumes "shrinks s s'" and "links s' l \<noteq> None"
  shows "link_string s' l = link_string s l"
proof -
  obtain k' where k': "links s' l = Some k'" using assms(2) by blast
  then obtain k where k: "links s l = Some k" "ltext k' = ltext k"
    using assms(1) unfolding shrinks_def by blast
  have "ltext k' \<in> texts s'" using k' by (auto simp: texts_iff)
  then have "bufs s' (ltext k') = bufs s (ltext k')"
    using assms(1) unfolding shrinks_def by auto
  with k k' show ?thesis by (simp add: link_string_def)
qed

lemma shrinks_link_strings:
  assumes "shrinks s s'"
  shows "link_strings s' \<subseteq> link_strings s"
proof
  fix x assume "x \<in> link_strings s'"
  then obtain l where l: "links s' l \<noteq> None" "x = link_string s' l" by (auto simp: link_strings_def)
  with shrinksD(4) [OF assms l(1)] shrinks_link_string [OF assms l(1)] show "x \<in> link_strings s"
    by (auto simp: link_strings_def)
qed

lemma view_update:
  assumes sh: "shrinks s s'" and inv: "link_inv s'"
    and upd: "procs s' = (procs s)[i := p]" and i: "i < length (procs s)"
  shows "view s' = (view s)(i := map_option (\<lambda>l. (link_string s l, pstart p)) (plink p))"
proof
  fix j
  show "view s' j = ((view s)(i := map_option (\<lambda>l. (link_string s l, pstart p)) (plink p))) j"
  proof (cases "j < length (procs s)")
    case True
    then have "plink (procs s' ! j) = Some l \<Longrightarrow> link_string s' l = link_string s l" for l
      using link_invD(3) [OF inv, of j l] shrinks_link_string [OF sh] upd by simp
    with True i upd show ?thesis
      by (cases "plink (procs s' ! j)") (auto simp: view_def nth_list_update)
  next
    case False
    with upd i show ?thesis by (simp add: view_def)
  qed
qed

section \<open>Resetting a slot\<close>

abbreviation empty_slot :: chos_proc where
  "empty_slot \<equiv> \<lparr>plink = None, pstart = 0\<rparr>"

lemma reset_link_cases:
  assumes inv: "link_inv s" and i: "i < length (procs s)"
  obtains
    (empty) "plink (procs s ! i) = None"
      "reset_link i s = Inr (s\<lparr>procs := (procs s)[i := empty_slot]\<rparr>)"
  | (shared) l k where "plink (procs s ! i) = Some l" "links s l = Some k" "2 \<le> refs s l"
      "reset_link i s = Inr (s\<lparr>procs := (procs s)[i := empty_slot],
         links := (links s)(l \<mapsto> k\<lparr>lcount := lcount k - 1\<rparr>)\<rparr>)"
  | (last) l k where "plink (procs s ! i) = Some l" "links s l = Some k" "refs s l = 1"
      "reset_link i s = Inr (s\<lparr>procs := (procs s)[i := empty_slot],
         bufs := (bufs s)(ltext k := None), links := (links s)(l := None)\<rparr>)"
proof (cases "plink (procs s ! i)")
  case None
  with i show ?thesis by (intro empty) (simp_all add: reset_link_def)
next
  case (Some l)
  with link_invD(3) [OF inv i] obtain k where k: "links s l = Some k" by blast
  have pos: "0 < refs s l" using Some i refs_pos_iff by blast
  have cnt: "unat (lcount k) = refs s l" using link_invD(5) [OF inv k] .
  have zero: "lcount k - 1 = 0 \<longleftrightarrow> refs s l = 1"
    using cnt by (metis eq_iff_diff_eq_0 unat_1 word_unat_eq_iff)
  have tx: "bufs s (ltext k) \<noteq> None" using link_invD(4) [OF inv k] .
  show ?thesis
  proof (cases "refs s l = 1")
    case True
    with zero Some i k tx show ?thesis
      by (intro last [of l k]) (simp_all add: reset_link_def atomic_add_def destroy_link_def Let_def)
  next
    case False
    with pos have "2 \<le> refs s l" by simp
    with False zero Some i k show ?thesis
      by (intro shared [of l k]) (simp_all add: reset_link_def atomic_add_def Let_def)
  qed
qed

lemma refs_reset:
  assumes "procs s' = (procs s)[i := empty_slot]" and "i < length (procs s)"
  shows "refs s' l = (if plink (procs s ! i) = Some l then refs s l - 1 else refs s l)"
  using refs_update [OF assms(2), of empty_slot l] assms(1) by (simp add: refs_def split: if_splits)

text \<open>Of the invariant, an operation that only loses links has to show that the slots lead to live links and that the counts are right.\<close>

lemma link_inv_shrinks:
  assumes inv: "link_inv s" and sh: "shrinks s s'"
    and live: "\<And>p l. p \<in> set (procs s') \<Longrightarrow> plink p = Some l \<Longrightarrow> links s' l \<noteq> None"
    and count: "\<And>l k. links s' l = Some k \<Longrightarrow> unat (lcount k) = refs s' l"
  shows "link_inv s'"
proof -
  have buf: "bufs s' (ltext k) \<noteq> None" if k: "links s' l = Some k" for l k
    using k sh link_invD(4) [OF inv] unfolding shrinks_def by (fastforce simp: texts_iff)
  have "l = l'" if "links s' l = Some k" "links s' l' = Some k'" "ltext k = ltext k'" for l k l' k'
    using that sh link_invD(6) [OF inv] unfolding shrinks_def by metis
  with buf live count show ?thesis
    unfolding link_inv_def using link_invD(1,2) [OF inv] shrinksD(1,2) [OF sh] by auto
qed

lemma reset_link_refines:
  assumes inv: "link_inv s" and i: "i < length (procs s)"
  obtains s' where "reset_link i s = Inr s'" "link_inv s'" "shrinks s s'"
    "procs s' = (procs s)[i := empty_slot]" "view s' = (view s)(i := None)"
    "orphans s' = orphans s"
    "\<And>l. links s' l = None \<longleftrightarrow> links s l = None \<or> plink (procs s ! i) = Some l \<and> refs s l = 1"
proof -
  obtain s' where res: "reset_link i s = Inr s'"
    and upd: "procs s' = (procs s)[i := empty_slot]" "pid_max s' = pid_max s"
    and sh: "shrinks s s'"
    and dead: "\<And>l. links s' l = None \<longleftrightarrow> links s l = None \<or> plink (procs s ! i) = Some l \<and> refs s l = 1"
    and cnt: "\<And>l k'. links s' l = Some k' \<Longrightarrow> unat (lcount k') = refs s' l"
    using inv i
  proof (cases rule: reset_link_cases)
    case empty
    show ?thesis
      by (rule that, rule empty(2))
        (use empty in \<open>auto simp: shrinks_def texts_def refs_reset [OF _ i] link_invD [OF inv]\<close>)
  next
    case (shared l k)
    have c: "unat (lcount k - 1) = refs s l - 1"
      using link_invD(5) [OF inv shared(2)] shared(3) by (simp add: unat_sub word_le_nat_alt)
    show ?thesis
      by (rule that, rule shared(4))
        (use shared c in \<open>auto simp: shrinks_def texts_recount texts_def [of "_\<lparr>links := _\<rparr>"] refs_reset [OF _ i] link_invD [OF inv] split: if_splits\<close>)
  next
    case (last l k)
    show ?thesis
      by (rule that, rule last(4))
        (use last texts_member in \<open>auto simp: shrinks_def texts_remove [OF inv] texts_def [of "_\<lparr>links := _\<rparr>"] refs_reset [OF _ i] link_invD [OF inv] split: if_splits\<close>)
  qed
  have refs': "refs s' l = (if plink (procs s ! i) = Some l then refs s l - 1 else refs s l)" for l
    by (rule refs_reset [OF upd(1) i])
  have inv': "link_inv s'"
  proof (rule link_inv_shrinks [OF inv sh _ cnt])
    fix p l assume "p \<in> set (procs s')" "plink p = Some l"
    then have "0 < refs s' l" unfolding refs_pos_iff by (auto simp: in_set_conv_nth)
    then show "links s' l \<noteq> None"
      using dead refs' link_invD(3) [OF inv] i refs_pos_iff by (metis less_irrefl diff_self_eq_0 neq0_conv)
  qed
  have "view s' = (view s)(i := None)"
    using view_update [OF sh inv' upd(1) i] by simp
  moreover have "orphans s' = orphans s"
    using refs' dead i refs_pos_iff [of s] by (auto simp: orphans_def split: if_splits)
  ultimately show ?thesis
    using that res inv' sh upd(1) dead by blast
qed

section \<open>Setting a slot\<close>

text \<open>Taking a reference for an empty slot, the second half of \<^verbatim>\<open>set_link\<close>.\<close>

lemma fill_slot:
  assumes inv: "link_inv s" and i: "i < length (procs s)" and free: "plink (procs s ! i) = None"
    and live: "\<And>l. lk = Some l \<Longrightarrow> links s l \<noteq> None"
  obtains s2 where "(case lk of None \<Rightarrow> Inr s | Some l \<Rightarrow> atomic_inc l s) = Inr s2"
    "procs s2 = procs s"
    "link_inv (s2\<lparr>procs := (procs s)[i := \<lparr>plink = lk, pstart = st\<rparr>]\<rparr>)"
    "shrinks s (s2\<lparr>procs := (procs s)[i := \<lparr>plink = lk, pstart = st\<rparr>]\<rparr>)"
    "\<And>l. links s2 l = None \<longleftrightarrow> links s l = None"
proof (cases lk)
  case None
  let ?s' = "s\<lparr>procs := (procs s)[i := \<lparr>plink = None, pstart = st\<rparr>]\<rparr>"
  have "refs ?s' l = refs s l" for l
    using refs_update [OF i, of "\<lparr>plink = None, pstart = st\<rparr>" l] free by simp
  then have "link_inv ?s'"
    using inv unfolding link_inv_def by (auto dest!: set_update_subset_insert [THEN subsetD])
  moreover have "shrinks s ?s'" by (simp add: shrinks_def texts_def)
  ultimately show ?thesis using that [of s] None by simp
next
  case (Some l)
  with live obtain k where k: "links s l = Some k" by blast
  let ?s2 = "s\<lparr>links := (links s)(l \<mapsto> k\<lparr>lcount := lcount k + 1\<rparr>)\<rparr>"
  let ?s' = "?s2\<lparr>procs := (procs s)[i := \<lparr>plink = lk, pstart = st\<rparr>]\<rparr>"
  have refs': "refs ?s' l' = (if l' = l then refs s l + 1 else refs s l')" for l'
    using refs_update [of i ?s2 "\<lparr>plink = lk, pstart = st\<rparr>" l'] free i Some by (simp split: if_splits)
  have "refs ?s' l \<le> length (procs s)" using refs_le [of ?s' l] by simp
  then have "unat (lcount k) + 1 < 2 ^ 31"
    using refs' [of l] link_invD(5) [OF inv k] link_invD(1,2) [OF inv] by simp
  then have cnt: "unat (lcount k + 1) = refs s l + 1"
    using link_invD(5) [OF inv k] unat_add_lem [of "lcount k" 1] by simp
  have sh: "shrinks s ?s'"
    using k texts_recount [OF k] by (auto simp: shrinks_def texts_def [of ?s'])
  have "link_inv ?s'"
  proof (rule link_inv_shrinks [OF inv sh])
    fix p l' assume "p \<in> set (procs ?s')" "plink p = Some l'"
    then show "links ?s' l' \<noteq> None"
      using inv k Some unfolding link_inv_def
      by (auto dest!: set_update_subset_insert [THEN subsetD])
  next
    fix l' k' assume "links ?s' l' = Some k'"
    then show "unat (lcount k') = refs ?s' l'"
      using refs' cnt link_invD(5) [OF inv] by (auto split: if_splits)
  qed
  then show ?thesis using that [of ?s2] sh k Some by (simp add: atomic_add_def)
qed

lemma set_link_refines:
  assumes inv: "link_inv s" and k: "ts a = Some k" and i: "tpid k < length (procs s)"
    and live: "\<And>l. lk = Some l \<Longrightarrow>
      links s l \<noteq> None \<and> (plink (procs s ! tpid k) = Some l \<longrightarrow> 2 \<le> refs s l)"
  obtains s' where "set_link ts lk (Some a) s = Inr s'" "link_inv s'" "shrinks s s'"
    "procs s' = (procs s)[tpid k := \<lparr>plink = lk, pstart = tstart k\<rparr>]"
    "view s' = (view s)(tpid k := map_option (\<lambda>l. (link_string s l, tstart k)) lk)"
    "orphans s' = orphans s - set_option lk"
proof -
  let ?i = "tpid k" and ?p = "\<lparr>plink = lk, pstart = tstart k\<rparr>"
  obtain s1 where s1: "(if plink (procs s ! ?i) \<noteq> None then reset_link ?i s else Inr s) = Inr s1"
      "link_inv s1" "shrinks s s1" "plink (procs s1 ! ?i) = None"
      "(procs s1)[?i := ?p] = (procs s)[?i := ?p]" "orphans s1 = orphans s"
      "\<And>l. lk = Some l \<Longrightarrow> links s1 l \<noteq> None"
  proof (cases "plink (procs s ! ?i)")
    case None
    with that [of s] inv live show ?thesis by simp
  next
    case (Some l)
    obtain s1 where s1: "reset_link ?i s = Inr s1" "link_inv s1" "shrinks s s1"
        "procs s1 = (procs s)[?i := empty_slot]" "orphans s1 = orphans s"
        "\<And>l. links s1 l = None \<longleftrightarrow> links s l = None \<or> plink (procs s ! ?i) = Some l \<and> refs s l = 1"
      using reset_link_refines [OF inv i] by metis
    have "links s1 l' \<noteq> None" if "lk = Some l'" for l'
      using live [OF that] s1(6) [of l'] by auto
    with that [of s1] Some i s1 show ?thesis by simp
  qed
  have i1: "?i < length (procs s1)" using s1(3) i by (simp add: frame)
  obtain s2 where s2: "(case lk of None \<Rightarrow> Inr s1 | Some l \<Rightarrow> atomic_inc l s1) = Inr s2"
      "procs s2 = procs s1" "link_inv (s2\<lparr>procs := (procs s1)[?i := ?p]\<rparr>)"
      "shrinks s1 (s2\<lparr>procs := (procs s1)[?i := ?p]\<rparr>)" "\<And>l. links s2 l = None \<longleftrightarrow> links s1 l = None"
    using fill_slot [OF s1(2) i1 s1(4) s1(7)] by metis
  let ?s' = "s2\<lparr>procs := (procs s1)[?i := ?p]\<rparr>"
  have sh: "shrinks s ?s'" using shrinks_trans [OF s1(3) s2(4)] .
  have "\<not> unat (pid_max s) < ?i" using i link_invD(1) [OF inv] by simp
  then have "set_link ts lk (Some a) s = Inr ?s'"
    using k i s1(1) s2(1,2) by (simp add: set_link_def)
  moreover have "view ?s' = (view s)(?i := map_option (\<lambda>l. (link_string s l, tstart k)) lk)"
    using view_update [OF sh s2(3) _ i, of ?p] s1(5) by simp
  moreover have "orphans ?s' = orphans s - set_option lk"
  proof -
    have "refs ?s' l = refs s1 l + (if lk = Some l then 1 else 0)" for l
      using refs_update [OF i1, of ?p l] s1(4) s2(2) by (simp add: refs_def)
    then show ?thesis using s1(6) s2(5) by (auto simp: orphans_def)
  qed
  ultimately show ?thesis using that s2(3) sh s1(5) by simp
qed

section \<open>Creating a link\<close>

lemma fresh_allocD: "fresh_alloc km \<Longrightarrow> km live = Some a \<Longrightarrow> \<not> live a"
  unfolding fresh_alloc_def by blast

lemma create_link_ok:
  assumes inv: "link_inv s" and km: "fresh_alloc km" "km (\<lambda>a. links s a \<noteq> None) = Some l"
    and tx: "bufs s a = Some b" "a \<notin> texts s"
  obtains s' where "create_link km a s = (Some l, s')" "link_inv s'" "view s' = view s"
    "orphans s' = insert l (orphans s)" "texts s' = insert a (texts s)"
    "link_string s' l = cstr b" "links s' l \<noteq> None" "refs s' l = 0"
    "procs s' = procs s" "pid_max s' = pid_max s" "bufs s' = bufs s"
    "link_state.more s' = link_state.more s"
proof -
  let ?s' = "s\<lparr>links := (links s)(l \<mapsto> \<lparr>ltext = a, lcount = 0\<rparr>)\<rparr>"
  have dead: "links s l = None" using fresh_allocD [OF km] by simp
  then have zero: "refs s l = 0"
    using link_invD(3) [OF inv] refs_pos_iff [of s l] by (metis gr_zeroI)
  have new: "links s l' = Some k \<Longrightarrow> ltext k \<noteq> a" for l' k
    using tx(2) texts_member by blast
  have "link_inv ?s'"
    using inv dead zero tx(1) new unfolding link_inv_def by (auto split: if_splits)
  moreover have "\<forall>i < length (procs s). plink (procs s ! i) \<noteq> Some l"
    using zero refs_pos_iff [of s l] by auto
  then have "view ?s' = view s"
    by (auto simp: view_def link_string_def fun_eq_iff map_option_case split: option.split)
  moreover have "texts ?s' = insert a (texts s)"
    using dead by (simp add: texts_def)
  moreover have "orphans ?s' = insert l (orphans s)"
    using zero by (auto simp: orphans_def)
  ultimately show ?thesis
    using that [of ?s'] km(2) zero tx(1) by (simp add: create_link_def link_string_def)
qed

end
