(* ===== verification/Link_Lookup.thy ===== *)
theory Link_Lookup
  imports Link_Table
begin

text \<open>
  The process tree and what a process inherits. The specification is the relation
  \<open>inherits\<close>: a process has the text recorded in its own slot when the start time there is its
  own, otherwise what its parent has, and nothing at pid 0 and 1. \<^verbatim>\<open>lookup_link\<close> is shown to
  return exactly that on every process tree, to keep the table well formed, and to be invisible to
  every later lookup although it writes to the table; \<^verbatim>\<open>cleanup_links\<close> is shown to remove
  exactly the stale entries.
\<close>

section \<open>The kernel's task list\<close>

text \<open>
  What the module relies on: pids index the table and are unique, a parent pointer leads to a
  task, and parent chains end at the init task or the idle task (\<open>d\<close> is the depth of a task).
\<close>

definition task_tree :: "nat \<Rightarrow> tasks \<Rightarrow> bool" where
  "task_tree n ts \<longleftrightarrow>
     (\<forall>a k. ts a = Some k \<longrightarrow> tpid k < n) \<and>
     (\<forall>a b k k'. ts a = Some k \<longrightarrow> ts b = Some k' \<longrightarrow> tpid k = tpid k' \<longrightarrow> a = b) \<and>
     (\<forall>a k p. ts a = Some k \<longrightarrow> tparent k = Some p \<longrightarrow> ts p \<noteq> None) \<and>
     (\<exists>d :: tid \<Rightarrow> nat. \<forall>a k p. ts a = Some k \<longrightarrow> 1 < tpid k \<longrightarrow> tparent k = Some p \<longrightarrow> d p < d a)"

text \<open>\<^verbatim>\<open>find_task_by_pid_ns\<close> in the initial pid namespace finds exactly the live tasks.\<close>

definition finds :: "tasks \<Rightarrow> (nat \<Rightarrow> tid option) \<Rightarrow> bool" where
  "finds ts find_task \<longleftrightarrow> (\<forall>i a. find_task i = Some a \<longleftrightarrow> (\<exists>k. ts a = Some k \<and> tpid k = i))"

text \<open>In any pid namespace what it finds is a live task.\<close>

definition finds_live :: "tasks \<Rightarrow> (nat \<Rightarrow> tid option) \<Rightarrow> bool" where
  "finds_live ts find_task \<longleftrightarrow> (\<forall>i a. find_task i = Some a \<longrightarrow> ts a \<noteq> None)"

lemma finds_imp_live: "finds ts find_task \<Longrightarrow> finds_live ts find_task"
  by (auto simp: finds_def finds_live_def)

lemma task_treeD:
  assumes "task_tree n ts"
  shows "ts a = Some k \<Longrightarrow> tpid k < n"
    and "ts a = Some k \<Longrightarrow> ts b = Some k' \<Longrightarrow> tpid k = tpid k' \<Longrightarrow> a = b"
    and "ts a = Some k \<Longrightarrow> tparent k = Some p \<Longrightarrow> ts p \<noteq> None"
  using assms unfolding task_tree_def by blast+

lemma task_tree_depth:
  assumes "task_tree n ts"
  obtains d :: "tid \<Rightarrow> nat"
  where "\<And>a k p. ts a = Some k \<Longrightarrow> 1 < tpid k \<Longrightarrow> tparent k = Some p \<Longrightarrow> d p < d a"
  using assms unfolding task_tree_def by blast

section \<open>What a process has\<close>

definition own :: "view \<Rightarrow> task_struct \<Rightarrow> string option" where
  "own v k = (case v (tpid k) of None \<Rightarrow> None
              | Some (x, st) \<Rightarrow> if st = tstart k then Some x else None)"

inductive inherits :: "tasks \<Rightarrow> view \<Rightarrow> tid option \<Rightarrow> string option \<Rightarrow> bool" for ts v where
  null: "inherits ts v None None"
| init: "ts a = Some k \<Longrightarrow> tpid k \<le> 1 \<Longrightarrow> inherits ts v (Some a) None"
| own: "ts a = Some k \<Longrightarrow> 1 < tpid k \<Longrightarrow> own v k = Some x \<Longrightarrow> inherits ts v (Some a) (Some x)"
| up: "ts a = Some k \<Longrightarrow> 1 < tpid k \<Longrightarrow> own v k = None \<Longrightarrow> inherits ts v (tparent k) r \<Longrightarrow>
      inherits ts v (Some a) r"

inductive_cases inherits_SomeE: "inherits ts v (Some a) r"
inductive_simps inherits_None_simp [simp]: "inherits ts v None r"
inductive_simps inherits_Some_simp: "inherits ts v (Some a) r"

lemma inherits_task:
  "ts a = Some k \<Longrightarrow> inherits ts v (Some a) r \<longleftrightarrow>
     (if tpid k \<le> 1 then r = None
      else case own v k of Some x \<Rightarrow> r = Some x | None \<Rightarrow> inherits ts v (tparent k) r)"
  by (subst inherits_Some_simp) (auto split: option.splits)

lemma inherits_det: "inherits ts v t r \<Longrightarrow> inherits ts v t r' \<Longrightarrow> r = r'"
proof (induction arbitrary: r' rule: inherits.induct)
  case (up a k r)
  then show ?case by (auto simp: inherits_task)
qed (auto simp: inherits_task)

lemma inherits_total:
  assumes tree: "task_tree n ts" and t: "\<And>a. t = Some a \<Longrightarrow> ts a \<noteq> None"
  shows "\<exists>r. inherits ts v t r"
proof (cases t)
  case None
  then show ?thesis by simp
next
  case (Some a)
  obtain d :: "tid \<Rightarrow> nat"
    where d: "\<And>a k p. ts a = Some k \<Longrightarrow> 1 < tpid k \<Longrightarrow> tparent k = Some p \<Longrightarrow> d p < d a"
    using task_tree_depth [OF tree] by metis
  have "ts a \<noteq> None \<Longrightarrow> \<exists>r. inherits ts v (Some a) r" for a
  proof (induction "d a" arbitrary: a rule: less_induct)
    case less
    then obtain k where k: "ts a = Some k" by blast
    show ?case
    proof (cases "1 < tpid k \<and> own v k = None")
      case True
      then have "\<exists>r. inherits ts v (tparent k) r"
        using less.hyps d [OF k] task_treeD(3) [OF tree k] by (cases "tparent k") auto
      with True k show ?thesis by (auto simp: inherits_task)
    next
      case False
      then consider "tpid k \<le> 1" | x where "1 < tpid k" "own v k = Some x" by fastforce
      then show ?thesis by cases (use k in \<open>blast intro: inherits.init inherits.own\<close>)+
    qed
  qed
  with Some t show ?thesis by blast
qed

section \<open>When a change of the table is invisible\<close>

text \<open>
  A table \<open>v'\<close> caches for \<open>v\<close> when every task has the same entry of its own in both, or has gained one
  that records what it inherited anyway.
\<close>

definition caches :: "tasks \<Rightarrow> view \<Rightarrow> view \<Rightarrow> bool" where
  "caches ts v v' \<longleftrightarrow>
     (\<forall>a k. ts a = Some k \<longrightarrow> 1 < tpid k \<longrightarrow>
        own v' k = own v k \<or>
        own v k = None \<and> (\<exists>x. own v' k = Some x \<and> inherits ts v (Some a) (Some x)))"

lemma caches_inherits:
  assumes "caches ts v v'" and "inherits ts v t r"
  shows "inherits ts v' t r"
  using assms(2)
proof (induction rule: inherits.induct)
  case null
  then show ?case by simp
next
  case (init a k)
  then show ?case by (simp add: inherits_task)
next
  case (own a k x)
  then have "own v' k = Some x"
    using assms(1) unfolding caches_def by (metis option.distinct(1))
  with own show ?case by (blast intro: inherits.own)
next
  case (up a k r)
  from up.hyps have here: "inherits ts v (Some a) r" by (intro inherits.up)
  consider "own v' k = None" | x where "own v' k = Some x" "inherits ts v (Some a) (Some x)"
    using assms(1) up.hyps unfolding caches_def by (metis (full_types))
  then show ?case
  proof cases
    case 1
    with up show ?thesis by (simp add: inherits_task)
  next
    case 2
    then have "r = Some x" using here inherits_det by blast
    with 2 up.hyps show ?thesis by (simp add: inherits_task)
  qed
qed

lemma inherits_closed:
  "inherits ts v t r \<Longrightarrow> t = Some a \<Longrightarrow> ts a \<noteq> None"
  by (induction rule: inherits.induct) auto

lemma caches_inherits_iff:
  assumes "task_tree n ts" and "caches ts v v'"
  shows "inherits ts v' t r \<longleftrightarrow> inherits ts v t r"
proof
  assume r: "inherits ts v' t r"
  then obtain r' where "inherits ts v t r'"
    using inherits_total [OF assms(1), of t v] inherits_closed by blast
  with caches_inherits [OF assms(2)] r inherits_det show "inherits ts v t r" by metis
qed (rule caches_inherits [OF assms(2)])

lemma caches_own:
  "caches ts v v' \<Longrightarrow> ts c = Some k \<Longrightarrow> 1 < tpid k \<Longrightarrow> own v k = Some x \<Longrightarrow> own v' k = Some x"
  unfolding caches_def by (metis option.distinct(1))

lemma caches_refl [simp]: "caches ts v v"
  by (simp add: caches_def)

lemma caches_trans:
  assumes "task_tree n ts" and "caches ts v v'" and "caches ts v' v''"
  shows "caches ts v v''"
  unfolding caches_def
proof (intro allI impI)
  fix a k assume a: "ts a = Some k" "1 < tpid k"
  have "inherits ts v' (Some a) r \<longleftrightarrow> inherits ts v (Some a) r" for r
    by (rule caches_inherits_iff [OF assms(1,2)])
  with assms(2,3) a show "own v'' k = own v k \<or>
      own v k = None \<and> (\<exists>x. own v'' k = Some x \<and> inherits ts v (Some a) (Some x))"
    unfolding caches_def by metis
qed

text \<open>Recording at a task what it inherits is such a change.\<close>

lemma caches_record:
  assumes tree: "task_tree n ts" and k: "ts a = Some k" and r: "inherits ts v (Some a) r"
  shows "caches ts v (v(tpid k := map_option (\<lambda>x. (x, tstart k)) r))"
  unfolding caches_def
proof (intro allI impI)
  fix b k' assume b: "ts b = Some k'" "1 < tpid k'"
  let ?v' = "v(tpid k := map_option (\<lambda>x. (x, tstart k)) r)"
  show "own ?v' k' = own v k' \<or>
      own v k' = None \<and> (\<exists>x. own ?v' k' = Some x \<and> inherits ts v (Some b) (Some x))"
  proof (cases "tpid k' = tpid k")
    case True
    then have eq1: "b = a" by (rule task_treeD(2) [OF tree b(1) k])
    with b(1) k have eq2: "k' = k" by simp
    note eq = eq1 eq2
    have "own ?v' k = r" by (cases r) (simp_all add: own_def)
    moreover have "own v k = r \<or> own v k = None"
      using r b(2) eq inherits_task [of ts a k v r] k by (cases "own v k") simp_all
    ultimately show ?thesis using r eq by (cases r) auto
  next
    case False
    then show ?thesis by (simp add: own_def)
  qed
qed

text \<open>What a task inherits from its parent depends on the entries of its proper ancestors only.\<close>

lemma inherits_parent_cong:
  assumes tree: "task_tree n ts" and k: "ts a = Some k" "1 < tpid k"
    and same: "\<And>b k'. ts b = Some k' \<Longrightarrow> b \<noteq> a \<Longrightarrow> own v' k' = own v k'"
  shows "inherits ts v' (tparent k) r \<longleftrightarrow> inherits ts v (tparent k) r"
proof -
  obtain d :: "tid \<Rightarrow> nat"
    where d: "\<And>a k p. ts a = Some k \<Longrightarrow> 1 < tpid k \<Longrightarrow> tparent k = Some p \<Longrightarrow> d p < d a"
    using task_tree_depth [OF tree] by metis
  have above: "inherits ts v' (Some u) r \<longleftrightarrow> inherits ts v (Some u) r" if "d u < d a" "ts u \<noteq> None" for u
    using that
  proof (induction "d u" arbitrary: u rule: less_induct)
    case less
    then obtain k' where k': "ts u = Some k'" by blast
    have "own v' k' = own v k'" using same [OF k'] less.prems(1) by blast
    moreover have "inherits ts v' (tparent k') r \<longleftrightarrow> inherits ts v (tparent k') r" if "1 < tpid k'"
    proof (cases "tparent k'")
      case (Some p)
      have "d p < d u" "ts p \<noteq> None"
        using d [OF k' that Some] task_treeD(3) [OF tree k' Some] by auto
      with less Some show ?thesis by auto
    qed simp
    ultimately show ?case using k' by (simp add: inherits_task split: option.split)
  qed
  show ?thesis
  proof (cases "tparent k")
    case (Some p)
    with above d [OF k] task_treeD(3) [OF tree k(1)] show ?thesis by auto
  qed simp
qed

section \<open>The walk up the tree\<close>

lemma lookup_link_None: "lookup_link ts None s = Some (Inr (None, s))"
  by (subst lookup_link.simps) simp

text \<open>
  The step on the way back down: recording at a task what it inherits, when the link is held by
  another slot as well.
\<close>

lemma record_inherited:
  assumes tree: "task_tree (length (procs s)) ts" and inv: "link_inv s" and k: "ts a = Some k"
    and inh: "inherits ts (view s) (Some a) (map_option (link_string s) lk)"
    and held: "\<And>l. lk = Some l \<Longrightarrow> \<exists>j < length (procs s). j \<noteq> tpid k \<and> plink (procs s ! j) = Some l"
  obtains s' where
    "(if lk \<noteq> None then ebind (set_link ts lk (Some a) s) (\<lambda>s2. Inr (lk, s2))
      else ebind (reset_link (tpid k) s) (\<lambda>s2. Inr (lk, s2))) = Inr (lk, s')"
    "link_inv s'" "shrinks s s'" "orphans s' = orphans s"
    "caches ts (view s) (view s')"
    "\<And>j. j \<noteq> tpid k \<Longrightarrow> procs s' ! j = procs s ! j"
    "\<And>l. lk = Some l \<Longrightarrow> procs s' ! tpid k = \<lparr>plink = Some l, pstart = tstart k\<rparr>"
proof (cases lk)
  case None
  have i: "tpid k < length (procs s)" using task_treeD(1) [OF tree k] .
  obtain s' where s': "reset_link (tpid k) s = Inr s'" "link_inv s'" "shrinks s s'"
      "procs s' = (procs s)[tpid k := empty_slot]" "view s' = (view s)(tpid k := None)"
      "orphans s' = orphans s"
    using reset_link_refines [OF inv i] by metis
  have "caches ts (view s) (view s')"
    using caches_record [OF tree k inh] s'(5) None by simp
  then show ?thesis
    using that s' None by simp
next
  case (Some l)
  have i: "tpid k < length (procs s)" using task_treeD(1) [OF tree k] .
  obtain j where j: "j < length (procs s)" "j \<noteq> tpid k" "plink (procs s ! j) = Some l"
    using held Some by blast
  have live: "links s l \<noteq> None" using link_invD(3) [OF inv j(1,3)] .
  have two: "plink (procs s ! tpid k) = Some l \<Longrightarrow> 2 \<le> refs s l"
    unfolding refs_def using two_slots_length_filter [OF i j(1)] j by auto
  have pre: "links s l' \<noteq> None \<and> (plink (procs s ! tpid k) = Some l' \<longrightarrow> 2 \<le> refs s l')"
    if "lk = Some l'" for l'
    using live two Some that by simp
  obtain s' where s': "set_link ts lk (Some a) s = Inr s'" "link_inv s'" "shrinks s s'"
      "procs s' = (procs s)[tpid k := \<lparr>plink = lk, pstart = tstart k\<rparr>]"
      "view s' = (view s)(tpid k := map_option (\<lambda>l. (link_string s l, tstart k)) lk)"
      "orphans s' = orphans s - set_option lk"
    using set_link_refines [of s ts a k lk, OF inv k i pre] by metis
  have "caches ts (view s) (view s')"
    using caches_record [OF tree k inh] s'(5) Some by simp
  moreover have "l \<notin> orphans s" using refs_pos_iff [of s l] j by (auto simp: orphans_def)
  ultimately show ?thesis
    using that s' Some i by simp
qed

text \<open>
  What a walk from \<open>t\<close> that returns \<open>lk\<close> promises: the table stays well formed, nothing leaks, \<open>lk\<close>
  is what \<open>t\<close> inherits, the table has changed by caching only, so that no task inherits anything else than
  before, and the link is now recorded in the slot of \<open>t\<close> itself.
\<close>

definition walk_ok :: "tasks \<Rightarrow> 'z link_state_scheme \<Rightarrow> tid option \<Rightarrow> addr option \<Rightarrow>
    'z link_state_scheme \<Rightarrow> bool" where
  "walk_ok ts s t lk s' \<longleftrightarrow>
     link_inv s' \<and> shrinks s s' \<and> orphans s' = orphans s \<and>
     inherits ts (view s) t (map_option (link_string s') lk) \<and>
     (\<forall>l. lk = Some l \<longrightarrow> links s' l \<noteq> None) \<and> caches ts (view s) (view s') \<and>
     (\<forall>u r. inherits ts (view s') u r \<longleftrightarrow> inherits ts (view s) u r) \<and>
     (\<forall>a k l. t = Some a \<longrightarrow> ts a = Some k \<longrightarrow> 1 < tpid k \<longrightarrow> lk = Some l \<longrightarrow>
        procs s' ! tpid k = \<lparr>plink = Some l, pstart = tstart k\<rparr>)"

lemma walk_back_down:
  assumes tree: "task_tree (length (procs s)) ts" and k: "ts a = Some k" "1 < tpid k"
    and own: "own (view s) k = None" and up: "walk_ok ts s (tparent k) lk s1"
    and held: "\<And>l. lk = Some l \<Longrightarrow> \<exists>b k'. ts b = Some k' \<and> b \<noteq> a \<and> plink (procs s1 ! tpid k') = Some l"
  obtains s' where
    "(if lk \<noteq> None then ebind (set_link ts lk (Some a) s1) (\<lambda>s2. Inr (lk, s2))
      else ebind (reset_link (tpid k) s1) (\<lambda>s2. Inr (lk, s2))) = Inr (lk, s')"
    "walk_ok ts s (Some a) lk s'"
    "\<And>b k'. ts b = Some k' \<Longrightarrow> b \<noteq> a \<Longrightarrow> procs s' ! tpid k' = procs s1 ! tpid k'"
proof -
  have s1: "link_inv s1" "shrinks s s1" "orphans s1 = orphans s"
      "inherits ts (view s) (tparent k) (map_option (link_string s1) lk)"
      "\<And>u r. inherits ts (view s1) u r \<longleftrightarrow> inherits ts (view s) u r" "caches ts (view s) (view s1)"
    using up by (simp_all add: walk_ok_def)
  have tree1: "task_tree (length (procs s1)) ts" using tree s1(2) by (simp add: frame)
  have inh: "inherits ts (view s1) (Some a) (map_option (link_string s1) lk)"
    using s1(4,5) own k by (simp add: inherits_task)
  have held1: "\<exists>j < length (procs s1). j \<noteq> tpid k \<and> plink (procs s1 ! j) = Some l" if l: "lk = Some l" for l
  proof -
    obtain b k' where b: "ts b = Some k'" "b \<noteq> a" "plink (procs s1 ! tpid k') = Some l"
      using held [OF l] by blast
    then have "tpid k' \<noteq> tpid k" using task_treeD(2) [OF tree1 b(1) k(1)] by blast
    with b task_treeD(1) [OF tree1 b(1)] show ?thesis by blast
  qed
  obtain s' where s': "(if lk \<noteq> None then ebind (set_link ts lk (Some a) s1) (\<lambda>s2. Inr (lk, s2))
        else ebind (reset_link (tpid k) s1) (\<lambda>s2. Inr (lk, s2))) = Inr (lk, s')"
      "link_inv s'" "shrinks s1 s'" "orphans s' = orphans s1"
      "caches ts (view s1) (view s')"
      "\<And>j. j \<noteq> tpid k \<Longrightarrow> procs s' ! j = procs s1 ! j"
      "\<And>l. lk = Some l \<Longrightarrow> procs s' ! tpid k = \<lparr>plink = Some l, pstart = tstart k\<rparr>"
    by (rule record_inherited [OF tree1 s1(1) k(1) inh held1]) blast+
  have keep: "procs s' ! tpid k' = procs s1 ! tpid k'" if "ts b = Some k'" "b \<noteq> a" for b k'
    using s'(6) task_treeD(2) [OF tree that(1) k(1)] that(2) by blast
  have live: "links s' l \<noteq> None" if "lk = Some l" for l
    using held1 [OF that] link_invD(3) [OF s'(2)] s'(3,6) by (metis shrinksD(1))
  then have "link_string s' l = link_string s1 l" if "lk = Some l" for l
    using shrinks_link_string [OF s'(3)] that by blast
  then have "map_option (link_string s') lk = map_option (link_string s1) lk"
    by (cases lk) simp_all
  moreover have ch: "caches ts (view s) (view s')" by (rule caches_trans [OF tree s1(6) s'(5)])
  ultimately have "walk_ok ts s (Some a) lk s'"
    using s'(2-4,7) s1 k inh live shrinks_trans [OF s1(2) s'(3)] caches_inherits_iff [OF tree ch]
    by (simp add: walk_ok_def)
  with that s'(1) keep show ?thesis by blast
qed

text \<open>Where the walk ends: at the init task, or at a slot that is valid for its task.\<close>

lemma walk_ends:
  assumes inv: "link_inv s" and k: "ts a = Some k" "tpid k < length (procs s)"
    and stop: "tpid k \<le> 1 \<or> plink (procs s ! tpid k) \<noteq> None \<and> pstart (procs s ! tpid k) = tstart k"
  shows "\<exists>lk. lookup_link ts (Some a) s = Some (Inr (lk, s)) \<and> walk_ok ts s (Some a) lk s \<and>
    (lk \<noteq> None \<longrightarrow> plink (procs s ! tpid k) = lk)"
proof (cases "tpid k \<le> 1")
  case True
  then have "tpid k = 0 \<or> tpid k = 1" by auto
  with True k inv show ?thesis by (subst lookup_link.simps) (simp add: inherits_task walk_ok_def)
next
  case False
  with stop obtain l where l: "plink (procs s ! tpid k) = Some l" "pstart (procs s ! tpid k) = tstart k" by blast
  then have "own (view s) k = Some (link_string s l)" using k(2) by (simp add: own_def view_def)
  with False l k inv link_invD(1) [OF inv] link_invD(3) [OF inv k(2) l(1)] show ?thesis
    by (subst lookup_link.simps) (auto simp: inherits_task walk_ok_def)
qed

text \<open>
  The walk, from a task of a tree whose depth function is \<open>d\<close>. The link it returns is held by
  the slot of a task no deeper than the one it started from, so that recording it further down never
  drops its last reference.
\<close>

lemma lookup_link_walk:
  assumes tree: "task_tree (length (procs s)) ts"
    and d: "\<And>a k p. ts a = Some k \<Longrightarrow> 1 < tpid k \<Longrightarrow> tparent k = Some p \<Longrightarrow> d p < (d a :: nat)"
    and inv: "link_inv s" and a: "ts a \<noteq> None"
  shows "\<exists>lk s'. lookup_link ts (Some a) s = Some (Inr (lk, s')) \<and> walk_ok ts s (Some a) lk s' \<and>
      (\<forall>l. lk = Some l \<longrightarrow> (\<exists>b k. ts b = Some k \<and> d b \<le> d a \<and> plink (procs s' ! tpid k) = Some l))"
  using a
proof (induction "d a" arbitrary: a rule: less_induct)
  case less
  then obtain k where k: "ts a = Some k" by blast
  have i: "tpid k < length (procs s)" using task_treeD(1) [OF tree k] .
  have nobug: "\<not> unat (pid_max s) < tpid k" using i link_invD(1) [OF inv] by simp
  let ?p = "procs s ! tpid k"
  consider (here) "tpid k \<le> 1 \<or> plink ?p \<noteq> None \<and> pstart ?p = tstart k"
    | (miss) "1 < tpid k" "plink ?p = None \<or> pstart ?p \<noteq> tstart k" by (metis not_le)
  then show ?case
  proof cases
    case here
    from walk_ends [where ts = ts and a = a and k = k, OF inv k i here] k show ?thesis by auto
  next
    case miss
    then have own: "own (view s) k = None"
      using i by (auto simp: own_def view_def split: option.splits)
    have up: "\<exists>lk s1. lookup_link ts (tparent k) s = Some (Inr (lk, s1)) \<and> walk_ok ts s (tparent k) lk s1 \<and>
        (\<forall>l. lk = Some l \<longrightarrow> (\<exists>b k'. ts b = Some k' \<and> d b < d a \<and> plink (procs s1 ! tpid k') = Some l))"
    proof (cases "tparent k")
      case None
      with inv show ?thesis by (simp add: lookup_link_None walk_ok_def)
    next
      case (Some p)
      then have "d p < d a" "ts p \<noteq> None"
        using d [OF k miss(1)] task_treeD(3) [OF tree k] by auto
      from less.hyps [OF this] Some this(1) show ?thesis by (metis le_less_trans)
    qed
    then obtain lk s1 where s1: "lookup_link ts (tparent k) s = Some (Inr (lk, s1))"
        "walk_ok ts s (tparent k) lk s1"
        "\<And>l. lk = Some l \<Longrightarrow> \<exists>b k'. ts b = Some k' \<and> d b < d a \<and> plink (procs s1 ! tpid k') = Some l"
      by blast
    then have held: "\<And>l. lk = Some l \<Longrightarrow> \<exists>b k'. ts b = Some k' \<and> b \<noteq> a \<and> plink (procs s1 ! tpid k') = Some l"
      by blast
    obtain s' where s': "(if lk \<noteq> None then ebind (set_link ts lk (Some a) s1) (\<lambda>s2. Inr (lk, s2))
          else ebind (reset_link (tpid k) s1) (\<lambda>s2. Inr (lk, s2))) = Inr (lk, s')"
        "walk_ok ts s (Some a) lk s'"
        "\<And>b k'. ts b = Some k' \<Longrightarrow> b \<noteq> a \<Longrightarrow> procs s' ! tpid k' = procs s1 ! tpid k'"
      by (rule walk_back_down [OF tree k miss(1) own s1(2) held]) blast+
    have "lookup_link ts (Some a) s = Some (Inr (lk, s'))"
      using miss k i nobug s1(1) s'(1) by (subst lookup_link.simps) simp
    moreover have "\<exists>b k'. ts b = Some k' \<and> d b \<le> d a \<and> plink (procs s' ! tpid k') = Some l"
      if "lk = Some l" for l
      using s1(3) [OF that] s'(3) by (metis less_imp_le less_irrefl)
    ultimately show ?thesis using s'(2) by blast
  qed
qed

lemma lookup_link_ok:
  assumes tree: "task_tree (length (procs s)) ts" and inv: "link_inv s"
    and t: "\<And>a. t = Some a \<Longrightarrow> ts a \<noteq> None"
  obtains lk s' where "lookup_link ts t s = Some (Inr (lk, s'))" "walk_ok ts s t lk s'"
proof (cases t)
  case None
  with that inv show ?thesis by (simp add: lookup_link_None walk_ok_def)
next
  case (Some a)
  obtain d :: "tid \<Rightarrow> nat"
    where d: "\<And>a k p. ts a = Some k \<Longrightarrow> 1 < tpid k \<Longrightarrow> tparent k = Some p \<Longrightarrow> d p < d a"
    using task_tree_depth [OF tree] by metis
  have "\<exists>lk s'. lookup_link ts (Some a) s = Some (Inr (lk, s')) \<and> walk_ok ts s (Some a) lk s'"
    using lookup_link_walk [of s ts d a] tree d inv t [OF Some] by blast
  with that Some show ?thesis by blast
qed

section \<open>Removing stale entries\<close>

text \<open>An entry for pid \<open>i\<close> is stale when no live task has that pid and that start time.\<close>

definition stale :: "tasks \<Rightarrow> (nat \<Rightarrow> tid option) \<Rightarrow> nat \<Rightarrow> 64 word \<Rightarrow> bool" where
  "stale ts find_task i st =
     (case find_task i of None \<Rightarrow> True
      | Some a \<Rightarrow> (case ts a of None \<Rightarrow> True | Some k \<Rightarrow> st \<noteq> tstart k))"

lemma stale_iff:
  assumes tree: "task_tree n ts" and f: "finds ts find_task"
  shows "stale ts find_task i st \<longleftrightarrow> \<not> (\<exists>a k. ts a = Some k \<and> tpid k = i \<and> tstart k = st)"
proof (cases "find_task i")
  case None
  then have "\<not> (\<exists>a k. ts a = Some k \<and> tpid k = i)" using f unfolding finds_def by (metis option.distinct(1))
  with None show ?thesis by (auto simp: stale_def)
next
  case (Some a)
  then obtain k where k: "ts a = Some k" "tpid k = i" using f unfolding finds_def by blast
  have "k' = k" if "ts b = Some k'" "tpid k' = i" for b k'
  proof -
    have "b = a" by (rule task_treeD(2) [OF tree that(1) k(1)]) (simp add: that(2) k(2))
    with that(1) k(1) show ?thesis by (metis option.inject)
  qed
  then have "(\<exists>a k. ts a = Some k \<and> tpid k = i \<and> tstart k = st) \<longleftrightarrow> tstart k = st"
    using k by blast
  moreover have "stale ts find_task i st \<longleftrightarrow> st \<noteq> tstart k" using Some k(1) by (simp add: stale_def)
  ultimately show ?thesis by metis
qed

definition prune :: "tasks \<Rightarrow> (nat \<Rightarrow> tid option) \<Rightarrow> nat \<Rightarrow> view \<Rightarrow> view" where
  "prune ts find_task i v =
     v(i := (case v i of None \<Rightarrow> None
             | Some (x, st) \<Rightarrow> if stale ts find_task i st then None else Some (x, st)))"

lemma cleanup_slot_cases:
  assumes i: "i < length (procs s)" and f: "finds_live ts find_task"
  shows "cleanup_slot ts find_task i s =
    (if plink (procs s ! i) \<noteq> None \<and> stale ts find_task i (pstart (procs s ! i))
     then reset_link i s else Inr s)"
proof (cases "find_task i")
  case None
  with i show ?thesis by (simp add: cleanup_slot_def stale_def)
next
  case (Some a)
  with f obtain k where "ts a = Some k" by (auto simp: finds_live_def)
  with Some i show ?thesis by (simp add: cleanup_slot_def stale_def)
qed

lemma prune_view:
  assumes "i < length (procs s)"
  shows "prune ts find_task i (view s) =
    (if plink (procs s ! i) \<noteq> None \<and> stale ts find_task i (pstart (procs s ! i))
     then (view s)(i := None) else view s)"
  using assms by (cases "plink (procs s ! i)") (simp_all add: prune_def view_def fun_eq_iff)

lemma cleanup_slot_refines:
  assumes inv: "link_inv s" and i: "i < length (procs s)" and f: "finds_live ts find_task"
  shows "\<exists>s'. cleanup_slot ts find_task i s = Inr s' \<and> link_inv s' \<and> shrinks s s' \<and>
    orphans s' = orphans s \<and> view s' = prune ts find_task i (view s)"
proof -
  obtain s' where "reset_link i s = Inr s'" "link_inv s'" "shrinks s s'"
      "view s' = (view s)(i := None)" "orphans s' = orphans s"
    using reset_link_refines [OF inv i] by metis
  then show ?thesis using inv by (auto simp: cleanup_slot_cases [OF i f] prune_view [OF i])
qed

interpretation sweep: data_refinement
  "\<lambda>s'. link_inv s' \<and> shrinks s0 s' \<and> orphans s' = orphans s0" view
  "\<lambda>i s. i < length (procs s) \<and> finds_live ts find_task"
  "cleanup_slot ts find_task" "prune ts find_task"
  for s0 :: "'z link_state_scheme" and ts and find_task
proof (unfold_locales, goal_cases)
  case (1 s i)
  then show ?case
    using cleanup_slot_refines [of s i ts find_task] shrinks_trans [of s0 s] by metis
next
  case (2 s i j s')
  then show ?case
    using cleanup_slot_refines [of s i ts find_task] by (auto simp: frame)
qed

lemma cleanup_loop_is_run: "cleanup_loop ts find_task is s = sweep.run ts find_task is s"
  by (induction "is" arbitrary: s) (simp_all add: ebind_def split: sum.split)

lemma fold_prune:
  "fold (prune ts find_task) is v i =
     (if i \<in> set is then prune ts find_task i v i else v i)"
  by (induction "is" arbitrary: v) (auto simp: prune_def split: option.splits)

lemma cleanup_links_sweeps:
  assumes inv: "link_inv s" and f: "finds_live ts find_task"
  obtains s' where "cleanup_links ts find_task s = Inr s'" "link_inv s'" "shrinks s s'"
    "orphans s' = orphans s" "\<And>i. view s' i = prune ts find_task i (view s) i"
proof -
  let ?is = "[0..<unat (pid_max s)]"
  have "\<exists>s'. sweep.run ts find_task ?is s = Inr s' \<and>
      (link_inv s' \<and> shrinks s s' \<and> orphans s' = orphans s) \<and>
      view s' = fold (prune ts find_task) ?is (view s)"
    by (rule sweep.run_refines) (use inv f link_invD(1) [OF inv] in simp_all)
  then obtain s' where s': "cleanup_links ts find_task s = Inr s'" "link_inv s'" "shrinks s s'"
      "orphans s' = orphans s" "view s' = fold (prune ts find_task) ?is (view s)"
    by (auto simp: cleanup_links_def cleanup_loop_is_run)
  have "view s' i = prune ts find_task i (view s) i" for i
    using link_invD(1) [OF inv] s'(5) by (auto simp: fold_prune prune_def view_def)
  with that s' show ?thesis by blast
qed

lemmas cleanup_links_refines = cleanup_links_sweeps [OF _ finds_imp_live]

lemma prune_own:
  assumes "finds ts find_task" and "ts a = Some k" and "\<And>i. v' i = prune ts find_task i v i"
  shows "own v' k = own v k"
proof -
  have "find_task (tpid k) = Some a" using assms(1,2) by (auto simp: finds_def)
  with assms(2,3) show ?thesis
    by (auto simp: own_def prune_def stale_def split: option.splits)
qed

lemma cleanup_inherits_iff:
  assumes "task_tree n ts" "finds ts find_task" "\<And>i. v' i = prune ts find_task i v i"
  shows "inherits ts v' t r \<longleftrightarrow> inherits ts v t r"
  using caches_inherits_iff [OF assms(1), of v v'] prune_own [OF assms(2) _ assms(3)]
  by (simp add: caches_def)

section \<open>Termination of the walk\<close>

lemma lookup_link_up:
  assumes "lookup_link ts (tparent k) s \<noteq> None" and "ts a = Some k"
  shows "lookup_link ts (Some a) s \<noteq> None"
  using assms by (subst lookup_link.simps) (auto simp: bind_eq_None_conv)

lemma lookup_link_base:
  assumes "ts a = None \<or> (\<exists>k. ts a = Some k \<and> tpid k \<le> 1)"
  shows "lookup_link ts (Some a) s \<noteq> None"
  using assms by (subst lookup_link.simps) (auto simp: le_Suc_eq)

lemma lookup_link_loops:
  assumes k: "ts a = Some k" "tparent k = Some a" "1 < tpid k" "tpid k < length (procs s)" "tpid k \<le> unat (pid_max s)"
    "plink (procs s ! tpid k) = None"
  shows "lookup_link ts (Some a) s = None"
proof -
  have "lookup_link ts' t s' = Some res \<Longrightarrow> ts' = ts \<Longrightarrow> t = Some a \<Longrightarrow> s' = s \<Longrightarrow> False" for ts' t s' res
  proof (induction rule: lookup_link.raw_induct [rotated 1, consumes 1, case_names walk])
    case (walk walk ts' t s' res)
    then show ?case using k by (auto simp: bind_eq_Some_conv)
  qed
  then show ?thesis by (cases "lookup_link ts (Some a) s") auto
qed

section \<open>A concrete table\<close>

text \<open>
  The init task, a login shell with pid 2 that has set its link to \<^verbatim>\<open>/os/sl6\<close>, and a child of the
  shell with pid 3 whose slot is still empty; pid 4 is unused and its slot is left over from a
  dead process.
\<close>

definition demo_tasks :: tasks where
  "demo_tasks a =
     (if a = 0 then Some \<lparr>tpid = 1, tstart = 1, tparent = None, tfs = 0, tcred = 0\<rparr>
      else if a = 5 then Some \<lparr>tpid = 2, tstart = 100, tparent = Some 0, tfs = 1, tcred = 1\<rparr>
      else if a = 6 then Some \<lparr>tpid = 3, tstart = 200, tparent = Some 5, tfs = 2, tcred = 1\<rparr>
      else None)"

definition demo_find :: "nat \<Rightarrow> tid option" where
  "demo_find i = (if i = 1 then Some 0 else if i = 2 then Some 5 else if i = 3 then Some 6 else None)"

definition demo_links :: "addr \<Rightarrow> chos_link option" where
  "demo_links l =
     (if l = 10 then Some \<lparr>ltext = 20, lcount = 1\<rparr>
      else if l = 11 then Some \<lparr>ltext = 21, lcount = 1\<rparr> else None)"

definition demo_bufs :: "addr \<Rightarrow> bytes option" where
  "demo_bufs b =
     (if b = 20 then Some (''/os/sl6'' @ [NUL]) else if b = 21 then Some (''/os/sl5'' @ [NUL])
      else if b = 30 then Some (''/os/sl6'' @ [NUL]) else None)"

definition demo_procs :: "chos_proc list" where
  "demo_procs =
     [\<lparr>plink = None, pstart = 0\<rparr>, \<lparr>plink = None, pstart = 0\<rparr>, \<lparr>plink = Some 10, pstart = 100\<rparr>,
      \<lparr>plink = None, pstart = 0\<rparr>, \<lparr>plink = Some 11, pstart = 90\<rparr>]"

definition demo_table :: link_state where
  "demo_table = \<lparr>links = demo_links, bufs = demo_bufs, procs = demo_procs, pid_max = 5\<rparr>"

lemma demo_tree: "task_tree 5 demo_tasks"
proof -
  have "\<exists>d :: tid \<Rightarrow> nat. \<forall>a k p. demo_tasks a = Some k \<longrightarrow> 1 < tpid k \<longrightarrow> tparent k = Some p \<longrightarrow> d p < d a"
    by (rule exI [of _ "\<lambda>a. a"]) (auto simp: demo_tasks_def split: if_splits)
  then show ?thesis
    unfolding task_tree_def by (auto simp: demo_tasks_def split: if_splits)
qed

lemma demo_at:
  "demo_tasks 5 = Some \<lparr>tpid = 2, tstart = 100, tparent = Some 0, tfs = 1, tcred = 1\<rparr>"
  "demo_tasks 6 = Some \<lparr>tpid = 3, tstart = 200, tparent = Some 5, tfs = 2, tcred = 1\<rparr>"
  by (simp_all add: demo_tasks_def)

lemma demo_finds: "finds demo_tasks demo_find"
  by (auto simp: finds_def demo_tasks_def demo_find_def split: if_splits)

lemma demo_refs: "refs demo_table l = (if l = 10 \<or> l = 11 then 1 else 0)"
  by (simp add: refs_def demo_table_def demo_procs_def)

lemma demo_inv: "link_inv demo_table"
  unfolding link_inv_def demo_refs
  by (auto simp: demo_table_def demo_procs_def demo_links_def demo_bufs_def split: if_splits)

lemma demo_length: "length (procs demo_table) = 5"
  by (simp add: demo_table_def demo_procs_def)

lemma demo_view:
  "view demo_table i = (if i = 2 then Some (''/os/sl6'', 100) else if i = 4 then Some (''/os/sl5'', 90) else None)"
  by (auto simp: view_def link_string_def demo_table_def demo_procs_def demo_links_def demo_bufs_def
      nth_Cons split: nat.splits)

section \<open>Properties\<close>

text \<open>
  C1. \<^verbatim>\<open>lookup_link\<close> returns on every process tree, without a fault, the link of the nearest task on the way
  from \<open>t\<close> to the root of the tree that has a valid entry of its own (NULL if there is none), and leaves a
  well-formed table with the same links live or freed as the reference counts say.
\<close>

theorem lookup_link_correct:
  assumes "link_inv s" and "task_tree (length (procs s)) ts" and "\<And>a. t = Some a \<Longrightarrow> ts a \<noteq> None"
  shows "\<exists>lk s'. lookup_link ts t s = Some (Inr (lk, s')) \<and> link_inv s' \<and> orphans s' = orphans s \<and>
    inherits ts (view s) t (map_option (link_string s') lk)"
  using lookup_link_ok [OF assms(2,1,3)] unfolding walk_ok_def by metis

theorem lookup_link_correct_witness:
  "\<exists>lk s'. lookup_link demo_tasks (Some 6) demo_table = Some (Inr (lk, s')) \<and> link_inv s' \<and>
    orphans s' = orphans demo_table \<and>
    inherits demo_tasks (view demo_table) (Some 6) (map_option (link_string s') lk)"
proof (rule lookup_link_correct [of demo_table demo_tasks "Some 6"])
  show "link_inv demo_table" by (rule demo_inv)
  show "task_tree (length (procs demo_table)) demo_tasks" by (simp add: demo_length demo_tree)
qed (simp add: demo_tasks_def)

text \<open>
  C2. \<^verbatim>\<open>lookup_link\<close> caches what it finds, but no process can tell: after a lookup every task inherits
  exactly what it inherited before.
\<close>

theorem lookup_link_transparent:
  assumes "link_inv s" and "task_tree (length (procs s)) ts" and "\<And>a. t = Some a \<Longrightarrow> ts a \<noteq> None"
    and "lookup_link ts t s = Some (Inr (lk, s'))"
  shows "inherits ts (view s') u r \<longleftrightarrow> inherits ts (view s) u r"
proof -
  obtain lk1 s1 where "lookup_link ts t s = Some (Inr (lk1, s1))" "walk_ok ts s t lk1 s1"
    using lookup_link_ok [OF assms(2,1,3)] by blast
  with assms(4) show ?thesis by (simp add: walk_ok_def)
qed

theorem lookup_link_transparent_witness:
  "\<exists>s'. lookup_link demo_tasks (Some 6) demo_table = Some (Inr (Some 10, s')) \<and>
     procs s' ! 3 = \<lparr>plink = Some 10, pstart = 200\<rparr> \<and>
     (\<forall>r. inherits demo_tasks (view s') (Some 6) r \<longleftrightarrow> inherits demo_tasks (view demo_table) (Some 6) r)"
proof -
  let ?s' = "demo_table\<lparr>procs := demo_procs[3 := \<lparr>plink = Some 10, pstart = 200\<rparr>],
    links := demo_links(10 \<mapsto> \<lparr>ltext = 20, lcount = 2\<rparr>)\<rparr>"
  have run: "lookup_link demo_tasks (Some 6) demo_table = Some (Inr (Some 10, ?s'))"
    by (simp add: lookup_link.simps [of demo_tasks "Some 6"] lookup_link.simps [of demo_tasks "Some 5"]
        set_link_def atomic_add_def demo_tasks_def demo_table_def demo_procs_def demo_links_def)
  have "\<forall>r. inherits demo_tasks (view ?s') (Some 6) r \<longleftrightarrow> inherits demo_tasks (view demo_table) (Some 6) r"
    using lookup_link_transparent [OF demo_inv _ _ run, of "Some 6"]
    by (simp add: demo_length demo_tree demo_tasks_def)
  with run show ?thesis by (auto simp: demo_procs_def)
qed

text \<open>
  C3. \<^verbatim>\<open>set_link\<close> implements the assignment of one entry of the abstract table: for a task of the table and a
  live link (which, if the task's slot holds it already, another slot holds too) it does not fault, keeps
  every reference count exact, records the link's text and the task's start time under the task's pid,
  changes no other entry, and takes the link off the orphans.
\<close>

theorem set_link_refinement:
  assumes "link_inv s" and "ts a = Some k" and "tpid k < length (procs s)"
    and "\<And>l. lk = Some l \<Longrightarrow>
      links s l \<noteq> None \<and> (plink (procs s ! tpid k) = Some l \<longrightarrow> 2 \<le> refs s l)"
  shows "\<exists>s'. set_link ts lk (Some a) s = Inr s' \<and> link_inv s' \<and> orphans s' = orphans s - set_option lk \<and>
    view s' = (view s)(tpid k := map_option (\<lambda>l. (link_string s l, tstart k)) lk)"
  using set_link_refines [of s ts a k lk, OF assms] by metis

theorem set_link_refinement_witness:
  "\<exists>s'. set_link demo_tasks (Some 10) (Some 6) demo_table = Inr s' \<and> link_inv s' \<and>
     orphans s' = orphans demo_table - {10} \<and>
     view s' = (view demo_table)(3 := Some (''/os/sl6'', 200))"
  using set_link_refinement [of demo_table demo_tasks 6 _ "Some 10", OF demo_inv demo_at(2)]
  by (simp add: demo_length demo_table_def demo_procs_def demo_links_def demo_bufs_def link_string_def)

text \<open>
  C4. \<^verbatim>\<open>reset_link\<close> implements the deletion of one entry: it does not fault, keeps every reference count
  exact, and frees the link that the slot held (with its text) exactly when that was the last reference.
\<close>

theorem reset_link_refinement:
  assumes "link_inv s" and "i < length (procs s)"
  shows "\<exists>s'. reset_link i s = Inr s' \<and> link_inv s' \<and> view s' = (view s)(i := None) \<and>
    (\<forall>l. links s' l = None \<longleftrightarrow> links s l = None \<or> plink (procs s ! i) = Some l \<and> refs s l = 1) \<and>
    (\<forall>b. b \<in> texts s - texts s' \<longrightarrow> bufs s' b = None) \<and>
    (\<forall>b. b \<notin> texts s \<longrightarrow> bufs s' b = bufs s b)"
proof -
  obtain s' where s': "reset_link i s = Inr s'" "link_inv s'" "shrinks s s'" "view s' = (view s)(i := None)"
      "\<And>l. links s' l = None \<longleftrightarrow> links s l = None \<or> plink (procs s ! i) = Some l \<and> refs s l = 1"
    using reset_link_refines [OF assms] by metis
  with shrinksD(5,6) [OF s'(3)] show ?thesis by simp
qed

theorem reset_link_refinement_witness:
  "\<exists>s'. reset_link 2 demo_table = Inr s' \<and> link_inv s' \<and> links s' 10 = None \<and> links s' 11 \<noteq> None \<and>
     view s' 2 = None \<and> view s' 4 = Some (''/os/sl5'', 90)"
proof -
  obtain s' where s': "reset_link 2 demo_table = Inr s'" "link_inv s'" "view s' = (view demo_table)(2 := None)"
      "\<forall>l. links s' l = None \<longleftrightarrow> links demo_table l = None \<or>
         plink (procs demo_table ! 2) = Some l \<and> refs demo_table l = 1"
    using reset_link_refinement [OF demo_inv, of 2] by (auto simp: demo_length)
  have "links s' 10 = None" and "links s' 11 \<noteq> None"
    using s'(4) [rule_format, of 10] s'(4) [rule_format, of 11] demo_refs
    by (simp_all add: demo_table_def demo_procs_def demo_links_def)
  with s'(1-3) show ?thesis by (simp add: demo_view)
qed

text \<open>
  C5. \<^verbatim>\<open>cleanup_links\<close> never dereferences a missing task and removes exactly the stale entries: what
  remains are the entries of live tasks with their own start time, so no task's inheritance changes.
\<close>

theorem cleanup_links_correct:
  assumes "link_inv s" and "task_tree (length (procs s)) ts" and "finds ts find_task"
  shows "\<exists>s'. cleanup_links ts find_task s = Inr s' \<and> link_inv s' \<and> orphans s' = orphans s \<and>
    (\<forall>i x st. view s' i = Some (x, st) \<longleftrightarrow>
       view s i = Some (x, st) \<and> (\<exists>a k. ts a = Some k \<and> tpid k = i \<and> tstart k = st)) \<and>
    (\<forall>u r. inherits ts (view s') u r \<longleftrightarrow> inherits ts (view s) u r)"
proof -
  obtain s' where s': "cleanup_links ts find_task s = Inr s'" "link_inv s'"
      "orphans s' = orphans s" "\<And>i. view s' i = prune ts find_task i (view s) i"
    using cleanup_links_refines [OF assms(1,3)] by metis
  have "view s' i = Some (x, st) \<longleftrightarrow>
      view s i = Some (x, st) \<and> (\<exists>a k. ts a = Some k \<and> tpid k = i \<and> tstart k = st)" for i x st
    using stale_iff [OF assms(2,3), of i st]
    by (cases "view s i") (auto simp: s'(4) prune_def split: if_splits)
  with s' cleanup_inherits_iff [OF assms(2,3) s'(4)] show ?thesis by blast
qed

theorem cleanup_links_correct_witness:
  "\<exists>s'. cleanup_links demo_tasks demo_find demo_table = Inr s' \<and> link_inv s' \<and>
     view s' 4 = None \<and> view s' 2 = Some (''/os/sl6'', 100)"
proof -
  obtain s' where s': "cleanup_links demo_tasks demo_find demo_table = Inr s'" "link_inv s'"
      "\<forall>i x st. view s' i = Some (x, st) \<longleftrightarrow> view demo_table i = Some (x, st) \<and>
         (\<exists>a k. demo_tasks a = Some k \<and> tpid k = i \<and> tstart k = st)"
    using cleanup_links_correct [OF demo_inv _ demo_finds] by (auto simp: demo_length demo_tree)
  have "view s' 4 = None"
    using s'(3) by (cases "view s' 4") (auto simp: demo_tasks_def split: if_splits)
  moreover have "view s' 2 = Some (''/os/sl6'', 100)"
    using s'(3) [rule_format, of 2 "''/os/sl6''" 100] demo_at(1) by (force simp: demo_view)
  ultimately show ?thesis using s' by blast
qed

text \<open>
  The guard \<^verbatim>\<open>BUG_ON(global_pid > ch->pid_max)\<close> lets the pid \<^verbatim>\<open>pid_max\<close> through, for which the
  array has no slot: \<^verbatim>\<open>set_link\<close> then leaves the array.
\<close>

theorem set_link_pid_max:
  assumes "link_inv s" and "ts a = Some k" and "tpid k = unat (pid_max s)"
  shows "set_link ts lk (Some a) s = Inl Out_Of_Bounds"
  using assms link_invD(1) [OF assms(1)] by (simp add: set_link_def)

theorem set_link_pid_max_witness:
  "set_link (demo_tasks(7 \<mapsto> \<lparr>tpid = 5, tstart = 7, tparent = None, tfs = 0, tcred = 0\<rparr>))
     (Some 10) (Some 7) demo_table = Inl Out_Of_Bounds"
  using set_link_pid_max [OF demo_inv, where a = 7 and lk = "Some 10"] by (simp add: demo_table_def)

text \<open>
  C39. The walk of \<^verbatim>\<open>lookup_link\<close> comes to an end, whatever is in the table, well formed or not, for every task list whose parent chains
  end; and this is needed: on a task that is its own parent and has no entry the walk never returns.
\<close>

theorem lookup_link_terminates:
  assumes "task_tree n ts"
  shows "lookup_link ts t s \<noteq> None \<and>
    (\<forall>ts' a k. ts' a = Some k \<and> tparent k = Some a \<and> 1 < tpid k \<and> tpid k < length (procs s) \<and>
       tpid k \<le> unat (pid_max s) \<and> plink (procs s ! tpid k) = None \<longrightarrow> lookup_link ts' (Some a) s = None)"
proof -
  obtain d :: "tid \<Rightarrow> nat" where d: "\<And>a k p. ts a = Some k \<Longrightarrow> 1 < tpid k \<Longrightarrow> tparent k = Some p \<Longrightarrow> d p < d a"
    using task_tree_depth [OF assms] by metis
  have some: "lookup_link ts (Some a) s \<noteq> None" for a
  proof (induction "d a" arbitrary: a rule: less_induct)
    case less
    show ?case
    proof (cases "\<exists>k. ts a = Some k \<and> 1 < tpid k")
      case True
      then obtain k where k: "ts a = Some k" "1 < tpid k" by blast
      have "lookup_link ts (tparent k) s \<noteq> None"
        using less d [OF k] by (cases "tparent k") (simp_all add: lookup_link_None)
      then show ?thesis using lookup_link_up k(1) by metis
    next
      case False
      then show ?thesis by (intro lookup_link_base) (cases "ts a"; force)
    qed
  qed
  have "lookup_link ts t s \<noteq> None" using some by (cases t) (simp_all add: lookup_link_None)
  moreover have "lookup_link ts' (Some a) s = None" if k: "ts' a = Some k" "tparent k = Some a" "1 < tpid k"
      "tpid k < length (procs s)" "tpid k \<le> unat (pid_max s)" "plink (procs s ! tpid k) = None" for ts' a k
    using lookup_link_loops [of ts' a k s] k by simp
  ultimately show ?thesis by blast
qed

theorem lookup_link_terminates_witness:
  "lookup_link demo_tasks (Some 6) (demo_table\<lparr>links := (\<lambda>_. None)\<rparr>) \<noteq> None \<and>
   lookup_link (\<lambda>a. Some \<lparr>tpid = 3, tstart = 1, tparent = Some a, tfs = 0, tcred = 0\<rparr>) (Some 6)
     (demo_table\<lparr>links := (\<lambda>_. None)\<rparr>) = None"
  using lookup_link_terminates [OF demo_tree, of "Some 6" "demo_table\<lparr>links := (\<lambda>_. None)\<rparr>"] by (simp add: demo_table_def demo_procs_def)

text \<open>
  \<^verbatim>\<open>cleanup_links\<close> looks pids up in the namespace of the caller, although the table is indexed by global pids: called from a namespace
  that does not have a process, it removes that process's valid entry, and the process loses the path it has set.
\<close>

theorem cleanup_other_namespace:
  assumes "link_inv s" and "finds_live ts find_ns" and k: "ts a = Some k" "1 < tpid k"
    and own: "view s (tpid k) = Some (x, tstart k)"
    and ns: "find_ns (tpid k) = None" and p: "tparent k = Some b" "ts b = Some init" "tpid init = 1"
  shows "\<exists>s'. inherits ts (view s) (Some a) (Some x) \<and> cleanup_links ts find_ns s = Inr s' \<and> link_inv s' \<and>
    inherits ts (view s') (Some a) None"
proof -
  obtain s' where s': "cleanup_links ts find_ns s = Inr s'" "link_inv s'" "\<And>i. view s' i = prune ts find_ns i (view s) i"
    using cleanup_links_sweeps [OF assms(1,2)] by metis
  have "view s' (tpid k) = None" using s'(3) own ns by (simp add: prune_def stale_def)
  then have "inherits ts (view s') (Some a) None"
    using k p by (simp add: inherits_task own_def)
  moreover have "inherits ts (view s) (Some a) (Some x)" using k own by (simp add: inherits_task own_def)
  ultimately show ?thesis using s' by blast
qed

theorem cleanup_other_namespace_witness:
  "\<exists>s'. cleanup_links demo_tasks (\<lambda>_. None) demo_table = Inr s' \<and> link_inv s' \<and>
     inherits demo_tasks (view demo_table) (Some 5) (Some ''/os/sl6'') \<and> inherits demo_tasks (view s') (Some 5) None"
proof -
  have "demo_tasks 0 = Some \<lparr>tpid = 1, tstart = 1, tparent = None, tfs = 0, tcred = 0\<rparr>" by (simp add: demo_tasks_def)
  from cleanup_other_namespace [of demo_table demo_tasks "\<lambda>_. None" 5, OF demo_inv _ demo_at(1) _ _ _ _ this]
  show ?thesis by (auto simp: finds_live_def demo_view)
qed

text \<open>
  The condition on the reference count in the refinement of \<^verbatim>\<open>set_link\<close> is needed: setting a task's
  link to the one its slot holds as the last reference frees the link first and then counts a reference on
  freed memory.
\<close>

theorem set_link_last_reference:
  assumes "link_inv s" and "ts a = Some k" and "tpid k < length (procs s)"
    and "plink (procs s ! tpid k) = Some l" and "refs s l = 1"
  shows "set_link ts (Some l) (Some a) s = Inl Use_After_Free"
proof -
  obtain s1 where s1: "reset_link (tpid k) s = Inr s1"
      "\<And>l. links s1 l = None \<longleftrightarrow> links s l = None \<or> plink (procs s ! tpid k) = Some l \<and> refs s l = 1"
    using reset_link_refines [OF assms(1,3)] by metis
  then have "links s1 l = None" using assms(4,5) by simp
  with s1(1) assms link_invD(1) [OF assms(1)] show ?thesis
    by (simp add: set_link_def atomic_add_def)
qed

theorem set_link_last_reference_witness:
  "set_link demo_tasks (Some 10) (Some 5) demo_table = Inl Use_After_Free"
  using set_link_last_reference [of demo_table demo_tasks 5 _ 10, OF demo_inv demo_at(1)] demo_refs
  by (simp add: demo_table_def demo_procs_def)

end
