(* ===== verification/Kernel_State.thy ===== *)
theory Kernel_State
  imports Link_Lookup
begin

text \<open>
  The state of the whole module and of the parts of the kernel it writes to: the link table extended by
  the list of valid paths, the rest of \<^verbatim>\<open>struct chos\<close>, the \<^verbatim>\<open>savestate\<close> flag, and the
  \<^verbatim>\<open>fs_struct\<close>, \<^verbatim>\<open>cred\<close> and address limit of processes. The operations of the link table apply to
  this state unchanged; this theory transports what they leave alone.
\<close>

section \<open>Data\<close>

record valid_path =
  vpath :: addr
  vlength :: int

text \<open>
  A \<^verbatim>\<open>struct path\<close>: the mount, and the inode of its dentry, which is all the module looks at.
\<close>

record kpath =
  mnt :: addr
  d_inode :: addr

datatype mm_segment = KERNEL_DS | USER_DS

record cred =
  uid :: "32 word"
  euid :: "32 word"
  cap_effective :: "64 word"

text \<open>
  The fields of \<^verbatim>\<open>struct chos\<close> beside \<^verbatim>\<open>procs\<close> and \<^verbatim>\<open>pid_max\<close>, which are in the link
  table, with the prefix \<open>ch\<close>.
\<close>

record kernel_state = link_state +
  valid_paths :: "valid_path list"
  save_state :: int
  ch_magic :: int
  ch_version :: int
  ch_named :: kpath
  ch_nochroot :: kpath
  ch_fork_wrapped :: int
  fs_root :: "addr \<Rightarrow> kpath"
  creds :: "addr \<Rightarrow> cred"
  addr_limit :: "tid \<Rightarrow> mm_segment"

abbreviation EPERM :: int where "EPERM \<equiv> 1"
abbreviation ENOENT :: int where "ENOENT \<equiv> 2"
abbreviation ENOMEM :: int where "ENOMEM \<equiv> 12"

text \<open>
  \<^verbatim>\<open>__copy_from_user(to, from, n)\<close>: given the bytes at \<^verbatim>\<open>from\<close>, the number of bytes it could not
  copy and what it left in the first \<^verbatim>\<open>n\<close> bytes of \<^verbatim>\<open>to\<close>.
\<close>

type_synonym copier = "bytes \<Rightarrow> nat \<times> bytes"

definition copies :: "copier \<Rightarrow> bool" where
  "copies cp \<longleftrightarrow> (\<forall>b. length (snd (cp b)) = length b \<and> (fst (cp b) = 0 \<longrightarrow> snd (cp b) = b))"

section \<open>What operations on the link table leave alone\<close>

lemma more_fields:
  assumes "link_state.more s' = link_state.more (s :: kernel_state)"
  shows "valid_paths s' = valid_paths s" "save_state s' = save_state s"
    and "ch_magic s' = ch_magic s" "ch_version s' = ch_version s"
    and "ch_named s' = ch_named s" "ch_nochroot s' = ch_nochroot s"
    and "ch_fork_wrapped s' = ch_fork_wrapped s"
    and "fs_root s' = fs_root s" "creds s' = creds s" "addr_limit s' = addr_limit s"
  using assms by (cases s; cases s'; simp)+

lemmas shrinks_fields [frame] = more_fields [OF shrinksD(3)]

section \<open>Ownership of buffers\<close>

definition path_bufs :: "kernel_state \<Rightarrow> addr set" where
  "path_bufs s = vpath ` set (valid_paths s)"

text \<open>
  Every entry of the list of valid paths has a live buffer of its own, which no link uses.
\<close>

definition path_inv :: "kernel_state \<Rightarrow> bool" where
  "path_inv s \<longleftrightarrow>
     (\<forall>v \<in> set (valid_paths s). bufs s (vpath v) \<noteq> None) \<and>
     distinct (map vpath (valid_paths s)) \<and> path_bufs s \<inter> texts s = {}"

definition kernel_inv :: "kernel_state \<Rightarrow> bool" where
  "kernel_inv s \<longleftrightarrow> link_inv s \<and> path_inv s \<and> orphans s = {}"

text \<open>No buffer is live without an owner.\<close>

definition no_leak :: "kernel_state \<Rightarrow> bool" where
  "no_leak s \<longleftrightarrow> dom (bufs s) \<subseteq> texts s \<union> path_bufs s"

definition valid_strings :: "kernel_state \<Rightarrow> string list" where
  "valid_strings s =
     map (\<lambda>v. case bufs s (vpath v) of None \<Rightarrow> [] | Some b \<Rightarrow> cstr b) (valid_paths s)"

lemma fresh_buf:
  assumes "kernel_inv s" and "bufs s a = None"
  shows "a \<notin> texts s" and "a \<notin> path_bufs s"
proof -
  show "a \<notin> texts s"
    using assms link_invD(4) [of s] by (metis kernel_inv_def texts_iff)
  show "a \<notin> path_bufs s"
    using assms by (auto simp: kernel_inv_def path_inv_def path_bufs_def)
qed

lemma shrinks_path:
  assumes "shrinks s s'" and "path_inv s"
  shows "path_inv s'" and "valid_strings s' = valid_strings s" and "path_bufs s' = path_bufs s"
    and "no_leak s \<Longrightarrow> no_leak s'"
proof -
  have vp: "valid_paths s' = valid_paths s" using shrinks_fields [OF assms(1)] by simp
  then show pb: "path_bufs s' = path_bufs s" by (simp add: path_bufs_def)
  have bufs: "bufs s' (vpath v) = bufs s (vpath v)" if "v \<in> set (valid_paths s)" for v
    using that assms shrinksD(5) by (fastforce simp: path_inv_def path_bufs_def)
  show "path_inv s'"
    using assms(2) vp bufs pb shrinks_texts [OF assms(1)] by (auto simp: path_inv_def)
  show "valid_strings s' = valid_strings s"
    using vp bufs by (simp add: valid_strings_def)
  show "no_leak s'" if "no_leak s"
  proof -
    have "b \<in> texts s' \<union> path_bufs s'" if "b \<in> dom (bufs s')" for b
      using that \<open>no_leak s\<close> pb assms(1) shrinksD(5,6) [OF assms(1), of b]
      by (cases "b \<in> texts s"; cases "b \<in> texts s'") (auto simp: no_leak_def dom_def)
    then show ?thesis by (auto simp: no_leak_def)
  qed
qed

section \<open>What the other fields leave alone\<close>

lemma kernel_cong:
  assumes "links s' = links s" "procs s' = procs s" "pid_max s' = pid_max s" "bufs s' = bufs s"
    and "valid_paths s' = valid_paths s"
  shows "kernel_inv s' \<longleftrightarrow> kernel_inv s" "view s' = view s" "valid_strings s' = valid_strings s"
    and "no_leak s' \<longleftrightarrow> no_leak s" "texts s' = texts s" "path_bufs s' = path_bufs s"
proof -
  have part: "link_inv s' \<longleftrightarrow> link_inv s" "view s' = view s" "orphans s' = orphans s" "texts s' = texts s"
    by (rule link_part_cong; use assms in simp)+
  then show "view s' = view s" "texts s' = texts s" by blast+
  show pb: "path_bufs s' = path_bufs s" using assms by (simp add: path_bufs_def)
  show "kernel_inv s' \<longleftrightarrow> kernel_inv s"
    using part pb assms by (simp add: kernel_inv_def path_inv_def)
  show "valid_strings s' = valid_strings s" "no_leak s' \<longleftrightarrow> no_leak s"
    using part pb assms by (simp_all add: valid_strings_def no_leak_def)
qed

text \<open>Writing a buffer that has no owner is invisible too.\<close>

lemma new_buf:
  fixes b :: bytes
  assumes inv: "kernel_inv s" and a: "bufs s a = None"
  defines "s' \<equiv> s\<lparr>bufs := (bufs s)(a \<mapsto> b)\<rparr>"
  shows "kernel_inv s'" "view s' = view s" "valid_strings s' = valid_strings s"
    and "texts s' = texts s" "path_bufs s' = path_bufs s" "a \<notin> texts s'" "a \<notin> path_bufs s'"
proof -
  note fresh = fresh_buf [OF inv a]
  have part: "link_inv s' \<longleftrightarrow> link_inv s" "view s' = view s" "orphans s' = orphans s" "texts s' = texts s"
    by (rule link_part_cong; use fresh in \<open>auto simp: s'_def\<close>)+
  then show "view s' = view s" and tx: "texts s' = texts s" by blast+
  show pb: "path_bufs s' = path_bufs s" by (simp add: path_bufs_def s'_def)
  show "a \<notin> texts s'" "a \<notin> path_bufs s'" using fresh tx pb by simp_all
  have "path_inv s'" using inv fresh part(4) by (auto simp: kernel_inv_def path_inv_def path_bufs_def s'_def)
  then show "kernel_inv s'" using inv part by (simp add: kernel_inv_def)
  show "valid_strings s' = valid_strings s"
    using fresh by (auto simp: valid_strings_def path_bufs_def s'_def)
qed

section \<open>A concrete state\<close>

text \<open>
  The concrete table with one valid path, \<^verbatim>\<open>/os/sl6\<close>; the shell and its child have the real root and
  an unprivileged credential, the init task is root.
\<close>

definition demo_kernel :: kernel_state where
  "demo_kernel =
     \<lparr>links = demo_links, bufs = demo_bufs, procs = demo_procs, pid_max = 5,
      valid_paths = [\<lparr>vpath = 30, vlength = 7\<rparr>], save_state = 0, ch_magic = 0x1234, ch_version = 1,
      ch_named = \<lparr>mnt = 1, d_inode = 77\<rparr>, ch_nochroot = \<lparr>mnt = 1, d_inode = 2\<rparr>, ch_fork_wrapped = 1,
      fs_root = (\<lambda>_. \<lparr>mnt = 1, d_inode = 2\<rparr>),
      creds = (\<lambda>c. if c = 0 then \<lparr>uid = 0, euid = 0, cap_effective = - 1\<rparr>
                   else \<lparr>uid = 500, euid = 500, cap_effective = 0\<rparr>),
      addr_limit = (\<lambda>_. USER_DS)\<rparr>"

lemma demo_kernel_part:
  "links demo_kernel = links demo_table" "procs demo_kernel = procs demo_table"
  "pid_max demo_kernel = pid_max demo_table" "bufs demo_kernel = bufs demo_table"
  by (simp_all add: demo_kernel_def demo_table_def)

lemma demo_kernel_link:
  "link_inv demo_kernel \<longleftrightarrow> link_inv demo_table" "view demo_kernel = view demo_table"
  "orphans demo_kernel = orphans demo_table" "texts demo_kernel = texts demo_table"
  by (rule link_part_cong; simp add: demo_kernel_part)+

lemma demo_texts: "texts demo_table = {20, 21}"
proof
  show "texts demo_table \<subseteq> {20, 21}"
    by (auto simp: texts_iff demo_table_def demo_links_def split: if_splits)
  show "{20, 21} \<subseteq> texts demo_table"
    using texts_member [of demo_table 10] texts_member [of demo_table 11]
    by (simp add: demo_table_def demo_links_def)
qed

lemma demo_kernel_inv: "kernel_inv demo_kernel"
proof -
  have "orphans demo_table = {}"
    unfolding orphans_def demo_refs by (auto simp: demo_table_def demo_links_def split: if_splits)
  moreover have "path_inv demo_kernel"
    unfolding path_inv_def path_bufs_def demo_kernel_link(4) demo_texts
    by (simp add: demo_kernel_def demo_bufs_def)
  ultimately show ?thesis by (simp add: kernel_inv_def demo_kernel_link demo_inv)
qed

lemma demo_kernel_strings: "valid_strings demo_kernel = [''/os/sl6'']"
  by (simp add: valid_strings_def demo_kernel_def demo_bufs_def)

lemma demo_kernel_length: "length (procs demo_kernel) = 5"
  by (simp add: demo_kernel_part demo_length)

text \<open>An allocator that returns a given address as long as that is free, and a copier that copies.\<close>

definition demo_alloc :: "addr \<Rightarrow> kmalloc" where
  "demo_alloc a live = (if live a then None else Some a)"

definition demo_copy :: copier where
  "demo_copy b = (0, b)"

lemma demo_alloc_fresh: "fresh_alloc (demo_alloc a)"
  by (simp add: fresh_alloc_def demo_alloc_def)

lemma demo_kernel_tree: "task_tree (length (procs demo_kernel)) demo_tasks"
  by (simp add: demo_kernel_length demo_tree)

lemma demo_kernel_mem: "demo_alloc 40 (\<lambda>a. bufs demo_kernel a \<noteq> None) \<noteq> None"
  by (simp add: demo_alloc_def demo_kernel_def demo_bufs_def)

lemma demo_copies: "copies demo_copy"
  by (simp add: copies_def demo_copy_def)

end
