(* ===== verification/Valid_Paths.thy ===== *)
theory Valid_Paths
  imports Kernel_State
begin

text \<open>
  The list of valid paths of \<^verbatim>\<open>kernel/chos_lkm.c\<close>, kept through \<^verbatim>\<open>/proc/chos/valid\<close>:
  \<^verbatim>\<open>add_valid_path\<close>, \<^verbatim>\<open>remove_valid_path\<close>, \<^verbatim>\<open>resetvalid\<close>, \<^verbatim>\<open>write_valid\<close>, \<^verbatim>\<open>print_valid\<close> and
  \<^verbatim>\<open>is_valid_path\<close>. The kernel's linked list is a list of entries here (its pointers are in \<^verbatim>\<open>Valid_List\<close>); the path of an entry is an address of
  the store. What the list means is the list of strings \<open>valid_strings\<close>.
\<close>

section \<open>Operations\<close>

text \<open>\<open>m\<close> is whether the \<^verbatim>\<open>kmalloc\<close> of the list entry succeeds.\<close>

definition add_valid_path :: "bool \<Rightarrow> addr \<Rightarrow> int \<Rightarrow> kernel_state \<Rightarrow> kernel_state" where
  "add_valid_path m path len s =
     (if m then s\<lparr>valid_paths := valid_paths s @ [\<lparr>vpath = path, vlength = len\<rparr>]\<rparr> else s)"

definition remove_valid_path :: "valid_path option \<Rightarrow> kernel_state \<Rightarrow> fault + kernel_state" where
  "remove_valid_path v s =
     (case v of
        None \<Rightarrow> Inr s
      | Some e \<Rightarrow>
         if bufs s (vpath e) = None then Inl Bad_Free
         else Inr (s\<lparr>valid_paths := remove1 e (valid_paths s), bufs := (bufs s)(vpath e := None)\<rparr>))"

text \<open>
  The loop of \<^verbatim>\<open>resetvalid\<close> steps to the next entry before it removes the current one, so it visits
  the entries that were on the list at the start.
\<close>

fun resetvalid_loop :: "valid_path list \<Rightarrow> kernel_state \<Rightarrow> fault + kernel_state" where
  "resetvalid_loop [] s = Inr s"
| "resetvalid_loop (c # p) s = ebind (remove_valid_path (Some c) s) (resetvalid_loop p)"

definition resetvalid :: "kernel_state \<Rightarrow> fault + kernel_state" where
  "resetvalid s = resetvalid_loop (valid_paths s) s"

definition write_valid :: "tasks \<Rightarrow> tid \<Rightarrow> kmalloc \<Rightarrow> bool \<Rightarrow> copier \<Rightarrow> user_mem \<Rightarrow> nat \<Rightarrow>
    kernel_state \<Rightarrow> fault + int \<times> kernel_state" where
  "write_valid ts current km m cp buf count s =
     (case ts current of
        None \<Rightarrow> Inl Use_After_Free
      | Some t \<Rightarrow>
         if euid (creds s (tcred t)) \<noteq> 0 then Inr (- EPERM, s)
         else (case buf 0 of
                 None \<Rightarrow> Inl Bad_Address
               | Some c0 \<Rightarrow>
                   if c0 = CHR ''-'' then ebind (resetvalid s) (\<lambda>s1. Inr (int count, s1))
                   else
                     ebind (scan_line buf count 0) (\<lambda>i.
                     case km (\<lambda>a. bufs s a \<noteq> None) of
                       None \<Rightarrow> Inr (0, s)
                     | Some path \<Rightarrow>
                         Inr (int count,
                           add_valid_path m path (int i)
                             (s\<lparr>bufs := (bufs s)(path \<mapsto> snd (cp (ubytes buf i)) @ [NUL])\<rparr>)))))"

text \<open>The bytes that a privileged write reads are mapped.\<close>

definition valid_readable :: "user_mem \<Rightarrow> nat \<Rightarrow> bool" where
  "valid_readable buf count \<longleftrightarrow> buf 0 \<noteq> None \<and> (buf 0 = Some (CHR ''-'') \<or> readable buf count)"

fun print_valid_loop :: "valid_path list \<Rightarrow> kernel_state \<Rightarrow> fault + string" where
  "print_valid_loop [] s = Inr []"
| "print_valid_loop (c # p) s =
     (case bufs s (vpath c) of
        None \<Rightarrow> Inl Use_After_Free
      | Some b \<Rightarrow> ebind (print_valid_loop p s) (\<lambda>out. Inr (cstr b @ [NL] @ out)))"

definition print_valid :: "kernel_state \<Rightarrow> fault + string" where
  "print_valid s = print_valid_loop (valid_paths s) s"

fun is_valid_loop :: "valid_path list \<Rightarrow> string \<Rightarrow> kernel_state \<Rightarrow> fault + bool" where
  "is_valid_loop [] path s = Inr False"
| "is_valid_loop (c # p) path s =
     (case bufs s (vpath c) of
        None \<Rightarrow> Inl Use_After_Free
      | Some b \<Rightarrow> if path = cstr b then Inr True else is_valid_loop p path s)"

definition is_valid_path :: "string \<Rightarrow> kernel_state \<Rightarrow> fault + bool" where
  "is_valid_path path s = is_valid_loop (valid_paths s) path s"

section \<open>Membership and printing\<close>

lemma is_valid_loop_strings:
  assumes "\<forall>v \<in> set vs. bufs s (vpath v) \<noteq> None"
  shows "is_valid_loop vs path s =
    Inr (path \<in> set (map (\<lambda>v. case bufs s (vpath v) of None \<Rightarrow> [] | Some b \<Rightarrow> cstr b) vs))"
  using assms by (induction vs) auto

lemma is_valid_path_strings:
  "path_inv s \<Longrightarrow> is_valid_path path s = Inr (path \<in> set (valid_strings s))"
  unfolding is_valid_path_def valid_strings_def path_inv_def by (rule is_valid_loop_strings) blast

lemma print_valid_loop_strings:
  assumes "\<forall>v \<in> set vs. bufs s (vpath v) \<noteq> None"
  shows "print_valid_loop vs s =
    Inr (concat (map (\<lambda>x. x @ [NL])
      (map (\<lambda>v. case bufs s (vpath v) of None \<Rightarrow> [] | Some b \<Rightarrow> cstr b) vs)))"
  using assms by (induction vs) auto

lemma print_valid_strings:
  "path_inv s \<Longrightarrow> print_valid s = Inr (concat (map (\<lambda>x. x @ [NL]) (valid_strings s)))"
  unfolding print_valid_def valid_strings_def path_inv_def by (rule print_valid_loop_strings) blast

section \<open>Adding a path\<close>

lemma add_path_inv:
  fixes n :: int
  assumes inv: "kernel_inv s" and a: "bufs s a = None" and cs: "b = cs @ [NUL]"
  defines "s' \<equiv> add_valid_path True a n (s\<lparr>bufs := (bufs s)(a \<mapsto> b)\<rparr>)"
  shows "kernel_inv s'" and "valid_strings s' = valid_strings s @ [cstr cs]"
    and "view s' = view s" and "no_leak s \<Longrightarrow> no_leak s'"
proof -
  have li: "link_inv s" and pa: "path_inv s" and orp: "orphans s = {}"
    using inv by (simp_all add: kernel_inv_def)
  note fresh = fresh_buf [OF inv a]
  have link: "links s' = links s" "procs s' = procs s" "pid_max s' = pid_max s"
      "bufs s' = (bufs s)(a \<mapsto> b)" "valid_paths s' = valid_paths s @ [\<lparr>vpath = a, vlength = n\<rparr>]"
    by (simp_all add: s'_def add_valid_path_def)
  have part: "link_inv s' \<longleftrightarrow> link_inv s" "view s' = view s" "orphans s' = orphans s" "texts s' = texts s"
    by (rule link_part_cong; use fresh in \<open>auto simp: link\<close>)+
  show "view s' = view s" by (rule part)
  have "path_inv s'" using pa fresh part(4) by (auto simp: path_inv_def link path_bufs_def)
  then show "kernel_inv s'" using li orp part by (simp add: kernel_inv_def)
  show "valid_strings s' = valid_strings s @ [cstr cs]"
    using fresh by (auto simp: valid_strings_def link cs cstr_append_terminated path_bufs_def)
  show "no_leak s \<Longrightarrow> no_leak s'" by (auto simp: no_leak_def link path_bufs_def texts_def)
qed

section \<open>Emptying the list\<close>

lemma remove_head:
  assumes inv: "kernel_inv s" and vs: "valid_paths s = c # vs"
  defines "s' \<equiv> s\<lparr>valid_paths := vs, bufs := (bufs s)(vpath c := None)\<rparr>"
  shows "remove_valid_path (Some c) s = Inr s'" and "kernel_inv s'" and "view s' = view s"
    and "no_leak s \<Longrightarrow> no_leak s'"
proof -
  have li: "link_inv s" and pa: "path_inv s" and orp: "orphans s = {}"
    using inv by (simp_all add: kernel_inv_def)
  have c: "bufs s (vpath c) \<noteq> None" "vpath c \<notin> texts s" "\<forall>v \<in> set vs. vpath v \<noteq> vpath c"
    using pa vs unfolding path_inv_def path_bufs_def by (simp_all add: image_iff) metis
  show "remove_valid_path (Some c) s = Inr s'"
    using c(1) vs by (simp add: remove_valid_path_def s'_def)
  have part: "link_inv s' \<longleftrightarrow> link_inv s" "view s' = view s" "orphans s' = orphans s" "texts s' = texts s"
    by (rule link_part_cong; use c in \<open>auto simp: s'_def\<close>)+
  show "view s' = view s" by (rule part)
  have "path_inv s'" using pa vs c part(4) by (auto simp: path_inv_def path_bufs_def s'_def)
  then show "kernel_inv s'" using li orp part by (simp add: kernel_inv_def)
  show "no_leak s \<Longrightarrow> no_leak s'"
    using vs part(4) by (auto simp: no_leak_def path_bufs_def s'_def)
qed

lemma resetvalid_loop_ok:
  assumes "kernel_inv s" and "valid_paths s = vs"
  shows "\<exists>s'. resetvalid_loop vs s = Inr s' \<and> kernel_inv s' \<and> valid_paths s' = [] \<and>
    view s' = view s \<and> (no_leak s \<longrightarrow> no_leak s') \<and>
    s' = s\<lparr>valid_paths := [], bufs := (\<lambda>b. if b \<in> vpath ` set vs then None else bufs s b)\<rparr>"
  using assms
proof (induction vs arbitrary: s)
  case Nil
  then show ?case by simp
next
  case (Cons c vs)
  let ?s1 = "s\<lparr>valid_paths := vs, bufs := (bufs s)(vpath c := None)\<rparr>"
  note head = remove_head [OF Cons.prems]
  obtain s' where s': "resetvalid_loop vs ?s1 = Inr s'" "kernel_inv s'" "valid_paths s' = []"
      "view s' = view ?s1" "no_leak ?s1 \<longrightarrow> no_leak s'"
      "s' = ?s1\<lparr>valid_paths := [], bufs := (\<lambda>b. if b \<in> vpath ` set vs then None else bufs ?s1 b)\<rparr>"
    using Cons.IH [OF head(2)] by auto
  have "(\<lambda>b. if b \<in> vpath ` set vs then None else bufs ?s1 b) =
      (\<lambda>b. if b \<in> vpath ` set (c # vs) then None else bufs s b)"
    by (auto simp: fun_eq_iff)
  with s' head show ?case by simp
qed

lemma resetvalid_ok:
  assumes "kernel_inv s"
  obtains s' where "resetvalid s = Inr s'" "kernel_inv s'" "valid_paths s' = []" "view s' = view s"
    "no_leak s \<Longrightarrow> no_leak s'" "bufs s' = (\<lambda>b. if b \<in> path_bufs s then None else bufs s b)"
  using resetvalid_loop_ok [OF assms refl] unfolding resetvalid_def path_bufs_def by auto

section \<open>Properties\<close>

text \<open>
  Only a caller with effective uid 0 changes the list of valid paths: for everyone else \<^verbatim>\<open>write_valid\<close>
  returns \<^verbatim>\<open>-EPERM\<close> and leaves the whole state as it was, whatever is written.
\<close>

theorem write_valid_privileged:
  assumes "ts current = Some t" and "euid (creds s (tcred t)) \<noteq> 0"
  shows "write_valid ts current km m cp buf count s = Inr (- EPERM, s)"
  using assms by (simp add: write_valid_def)

theorem write_valid_privileged_witness:
  "write_valid demo_tasks 5 (demo_alloc 40) True demo_copy (umem ''-'') 1 demo_kernel = Inr (- EPERM, demo_kernel)"
  using write_valid_privileged [of demo_tasks 5, OF demo_at(1)] by (simp add: demo_kernel_def)

text \<open>
  C22. A privileged write of a line that does not begin with a dash appends exactly that line (its bytes before
  the first newline or NUL) to the valid paths, whenever the bytes up to its end are mapped, both allocations succeed and the copy is
  complete: afterwards \<^verbatim>\<open>is_valid_path\<close> accepts that path and those it accepted before, nothing else, the
  listing of \<^verbatim>\<open>/proc/chos/valid\<close> ends with it, and no process's link changes.
\<close>

theorem write_valid_adds:
  assumes inv: "kernel_inv s" and t: "ts current = Some t" "euid (creds s (tcred t)) = 0"
    and user: "valid_readable buf count" "buf 0 \<noteq> Some (CHR ''-'')" and km: "fresh_alloc km" "km (\<lambda>a. bufs s a \<noteq> None) \<noteq> None"
    and cp: "copies cp" "fst (cp (ubytes buf (line_end buf count 0))) = 0"
  shows "\<exists>s'. write_valid ts current km True cp buf count s = Inr (int count, s') \<and> kernel_inv s' \<and>
    view s' = view s \<and> (no_leak s \<longrightarrow> no_leak s') \<and>
    (\<forall>path. is_valid_path path s' =
       Inr (path = ubytes buf (line_end buf count 0) \<or> is_valid_path path s = Inr True)) \<and>
    (\<forall>old. print_valid s = Inr old \<longrightarrow>
       print_valid s' = Inr (old @ ubytes buf (line_end buf count 0) @ [NL]))"
proof -
  let ?line = "ubytes buf (line_end buf count 0)"
  obtain c0 where c0: "buf 0 = Some c0" "c0 \<noteq> CHR ''-''" and rd: "readable buf count" using user by (auto simp: valid_readable_def)
  obtain a where a: "km (\<lambda>a. bufs s a \<noteq> None) = Some a" using km(2) by blast
  have free: "bufs s a = None" using fresh_allocD [OF km(1) a] by simp
  have copy: "snd (cp ?line) = ?line" using cp by (simp add: copies_def)
  have line: "cstr ?line = ?line" using ubytes_line_clean [OF rd] by (auto intro: cstr_no_NUL)
  let ?s' = "add_valid_path True a (int (line_end buf count 0)) (s\<lparr>bufs := (bufs s)(a \<mapsto> ?line @ [NUL])\<rparr>)"
  note add = add_path_inv [OF inv free refl, of "int (line_end buf count 0)" ?line]
  have pa: "path_inv s" "path_inv ?s'" using inv add(1) by (simp_all add: kernel_inv_def)
  have "write_valid ts current km True cp buf count s = Inr (int count, ?s')"
    using t c0 rd a copy by (simp add: write_valid_def scan_line_iff)
  moreover have "is_valid_path path ?s' = Inr (path = ?line \<or> is_valid_path path s = Inr True)" for path
    using is_valid_path_strings [OF pa(1)] is_valid_path_strings [OF pa(2)] add(2) line by auto
  moreover have "print_valid s = Inr old \<Longrightarrow> print_valid ?s' = Inr (old @ ?line @ [NL])" for old
    using print_valid_strings [OF pa(1)] print_valid_strings [OF pa(2)] add(2) line by simp
  ultimately show ?thesis using add by blast
qed

theorem write_valid_adds_witness:
  "\<exists>s'. write_valid demo_tasks 0 (demo_alloc 40) True demo_copy (umem [CHR ''/'', CHR ''a'', NL]) 3 demo_kernel
       = Inr (3, s') \<and> kernel_inv s' \<and>
     is_valid_path ''/a'' s' = Inr True \<and> is_valid_path ''/a'' demo_kernel = Inr False"
proof -
  let ?buf = "umem [CHR ''/'', CHR ''a'', NL]"
  have line: "line_end ?buf 3 0 = 2" by (simp add: line_end.simps umem_def numeral_2_eq_2 numeral_3_eq_3)
  have u: "ubytes ?buf 2 = ''/a''" by (simp add: ubytes_def umem_def numeral_2_eq_2)
  have "\<exists>s'. write_valid demo_tasks 0 (demo_alloc 40) True demo_copy ?buf 3 demo_kernel = Inr (int 3, s') \<and>
      kernel_inv s' \<and> is_valid_path ''/a'' s' = Inr True"
    using write_valid_adds [where ts = demo_tasks and current = 0 and s = demo_kernel and km = "demo_alloc 40"
        and cp = demo_copy and buf = ?buf and count = 3, OF demo_kernel_inv _ _ _ _ demo_alloc_fresh _ demo_copies]
    unfolding line u
    by (fastforce simp: demo_tasks_def demo_kernel_def umem_def demo_alloc_def demo_bufs_def demo_copy_def valid_readable_def readable_def)
  moreover have "is_valid_path ''/a'' demo_kernel = Inr False"
    by (simp add: is_valid_path_def demo_kernel_def demo_bufs_def)
  ultimately show ?thesis by simp
qed

text \<open>
  A privileged write that begins with a dash empties the list, frees the buffer of every entry and no
  other, and changes no process's link: links outlive the paths they were checked against.
\<close>

theorem write_valid_resets:
  assumes inv: "kernel_inv s" and t: "ts current = Some t" "euid (creds s (tcred t)) = 0"
    and dash: "buf 0 = Some (CHR ''-'')"
  shows "\<exists>s'. write_valid ts current km m cp buf count s = Inr (int count, s') \<and> kernel_inv s' \<and>
    valid_paths s' = [] \<and> view s' = view s \<and> (no_leak s \<longrightarrow> no_leak s') \<and>
    (\<forall>b. bufs s' b = (if b \<in> path_bufs s then None else bufs s b))"
proof -
  obtain s' where "resetvalid s = Inr s'" "kernel_inv s'" "valid_paths s' = []" "view s' = view s"
      "no_leak s \<Longrightarrow> no_leak s'" "bufs s' = (\<lambda>b. if b \<in> path_bufs s then None else bufs s b)"
    using resetvalid_ok [OF inv] by metis
  then show ?thesis using t dash by (simp add: write_valid_def)
qed

theorem write_valid_resets_witness:
  "\<exists>s'. write_valid demo_tasks 0 (demo_alloc 40) True demo_copy (umem ''-'') 1 demo_kernel = Inr (1, s') \<and>
     kernel_inv s' \<and> valid_paths s' = [] \<and> bufs s' 30 = None \<and> bufs s' 20 \<noteq> None"
proof -
  obtain s' where s': "write_valid demo_tasks 0 (demo_alloc 40) True demo_copy (umem ''-'') 1 demo_kernel
        = Inr (int 1, s')" "kernel_inv s'" "valid_paths s' = []"
      "\<forall>b. bufs s' b = (if b \<in> path_bufs demo_kernel then None else bufs demo_kernel b)"
    using write_valid_resets [where ts = demo_tasks and current = 0 and s = demo_kernel
        and km = "demo_alloc 40" and m = True and cp = demo_copy and buf = "umem ''-''" and count = 1,
        OF demo_kernel_inv]
    by (auto simp: demo_tasks_def demo_kernel_def umem_def)
  have "bufs s' 30 = None" and "bufs s' 20 \<noteq> None"
    using s'(4) by (simp_all add: path_bufs_def) (simp_all add: demo_kernel_def demo_bufs_def)
  with s'(1-3) show ?thesis by simp
qed

end
