(* ===== verification/Proc_Files.thy ===== *)
theory Proc_Files
  imports Valid_Paths
begin

unbundle bit_operations_syntax

text \<open>
  The handlers of the files under \<^verbatim>\<open>/proc/chos\<close> in \<^verbatim>\<open>kernel/chos_lkm.c\<close>: \<^verbatim>\<open>setchos\<close>,
  \<^verbatim>\<open>resetchos\<close>, \<^verbatim>\<open>savestate\<close>, \<^verbatim>\<open>version\<close> and the special link, with \<^verbatim>\<open>is_chrooted\<close> and
  \<^verbatim>\<open>my_chroot\<close>. The configuration is that of the EL6 kernel (2.6.32): \<^verbatim>\<open>USE_CRED\<close>, \<^verbatim>\<open>STRUCT_PATH\<close>
  and \<^verbatim>\<open>PID_NS\<close> are defined and \<^verbatim>\<open>MOD_INC\<close>, \<^verbatim>\<open>MOD_DEC\<close> are empty. Log messages are left out.
\<close>

section \<open>The root directory of a process\<close>

definition is_chrooted :: "task_struct \<Rightarrow> kernel_state \<Rightarrow> bool" where
  "is_chrooted t s \<longleftrightarrow>
     mnt (ch_named s) = mnt (fs_root s (tfs t)) \<and>
     d_inode (ch_named s) = d_inode (fs_root s (tfs t))"

abbreviation CAP_SYS_CHROOT :: nat where "CAP_SYS_CHROOT \<equiv> 18"

definition cap_raise :: "64 word \<Rightarrow> nat \<Rightarrow> 64 word" where
  "cap_raise c flag = c OR push_bit flag 1"

text \<open>
  \<^verbatim>\<open>sys_chroot\<close> is the kernel's: from the path, the caller's effective capabilities, its address
  limit and its root, the return value and the new root.
\<close>

type_synonym chroot = "string \<Rightarrow> 64 word \<Rightarrow> mm_segment \<Rightarrow> kpath \<Rightarrow> int \<times> kpath"

definition set_cap_effective :: "addr \<Rightarrow> 64 word \<Rightarrow> kernel_state \<Rightarrow> kernel_state" where
  "set_cap_effective c x s = s\<lparr>creds := (creds s)(c := (creds s c)\<lparr>cap_effective := x\<rparr>)\<rparr>"

definition my_chroot :: "tid \<Rightarrow> task_struct \<Rightarrow> chroot \<Rightarrow> string \<Rightarrow> kernel_state \<Rightarrow> int \<times> kernel_state" where
  "my_chroot current t sys_chroot path s =
     (let capback = cap_effective (creds s (tcred t));
          s1 = set_cap_effective (tcred t) (cap_raise capback CAP_SYS_CHROOT) s;
          mem = addr_limit s1 current;
          s2 = s1\<lparr>addr_limit := (addr_limit s1)(current := KERNEL_DS)\<rparr>;
          (retval, root) = sys_chroot path (cap_effective (creds s2 (tcred t)))
                             (addr_limit s2 current) (fs_root s2 (tfs t));
          s3 = s2\<lparr>fs_root := (fs_root s2)(tfs t := root)\<rparr>;
          s4 = set_cap_effective (tcred t) capback s3;
          s5 = s4\<lparr>addr_limit := (addr_limit s4)(current := mem)\<rparr>
      in (retval, s5))"

section \<open>setchos, resetchos, savestate, version\<close>

text \<open>
  \<^verbatim>\<open>cleanup_links(); link=create_link(text); set_link(link,current);\<close>, which both branches of
  \<^verbatim>\<open>write_setchos\<close> perform.
\<close>

definition install_link :: "tasks \<Rightarrow> (nat \<Rightarrow> tid option) \<Rightarrow> kmalloc \<Rightarrow> tid \<Rightarrow> addr \<Rightarrow> kernel_state \<Rightarrow>
    fault + kernel_state" where
  "install_link ts find_task km current tx s =
     ebind (cleanup_links ts find_task s) (\<lambda>s1.
       case create_link km tx s1 of (link, s2) \<Rightarrow> set_link ts link (Some current) s2)"

abbreviation CHOSROOT :: string where "CHOSROOT \<equiv> ''/chos''"

text \<open>
  \<open>kmt\<close> and \<open>km\<close> are the allocators of the text and of the link.
\<close>

definition write_setchos :: "tasks \<Rightarrow> (nat \<Rightarrow> tid option) \<Rightarrow> tid \<Rightarrow> chroot \<Rightarrow> kmalloc \<Rightarrow> kmalloc \<Rightarrow> copier \<Rightarrow>
    user_mem \<Rightarrow> nat \<Rightarrow> kernel_state \<Rightarrow> fault + int \<times> kernel_state" where
  "write_setchos ts find_task current sys_chroot kmt km cp buf count s =
     (case ts current of
        None \<Rightarrow> Inl Use_After_Free
      | Some t \<Rightarrow>
         ebind (scan_line buf count 0) (\<lambda>i.
             case kmt (\<lambda>a. bufs s a \<noteq> None) of
               None \<Rightarrow> Inr (- ENOMEM, s)
             | Some a \<Rightarrow>
                 let tx = snd (cp (ubytes buf i)) @ [NUL];
                     s0 = s\<lparr>bufs := (bufs s)(a \<mapsto> tx)\<rparr>
                 in if tx ! 0 = CHR ''/'' \<and> tx ! 1 = NUL then
                      ebind (install_link ts find_task km current a
                               (s0\<lparr>fs_root := (fs_root s0)(tfs t := ch_nochroot s0)\<rparr>)) (\<lambda>s1.
                      Inr (int count, s1))
                    else
                      ebind (is_valid_path (cstr tx) s0) (\<lambda>valid.
                      if \<not> valid then Inr (- ENOENT, s0)
                      else
                        ebind (install_link ts find_task km current a s0) (\<lambda>s1.
                        if \<not> is_chrooted t s1
                        then Inr (int count, snd (my_chroot current t sys_chroot CHOSROOT s1))
                        else Inr (int count, s1)))))"

definition write_resetchos :: "tasks \<Rightarrow> (nat \<Rightarrow> tid option) \<Rightarrow> tid \<Rightarrow> nat \<Rightarrow> kernel_state \<Rightarrow>
    fault + int \<times> kernel_state" where
  "write_resetchos ts find_task current count s =
     (case ts current of
        None \<Rightarrow> Inl Use_After_Free
      | Some t \<Rightarrow>
         if unat (pid_max s) < tpid t then Inl BUG
         else
           ebind (reset_link (tpid t) s) (\<lambda>s1.
           ebind (cleanup_links ts find_task s1) (\<lambda>s2.
           Inr (int count, s2))))"

definition write_savestate :: "user_mem \<Rightarrow> nat \<Rightarrow> kernel_state \<Rightarrow> fault + int \<times> kernel_state" where
  "write_savestate buf count s =
     (if 1 < count then
        (case buf 0 of
           None \<Rightarrow> Inl Bad_Address
         | Some c0 \<Rightarrow>
            if c0 = CHR ''1'' then Inr (int count, s\<lparr>save_state := 1\<rparr>)
            else Inr (int count, s\<lparr>save_state := 0\<rparr>))
      else Inr (int count, s))"

definition print_version :: "kernel_state \<Rightarrow> string" where
  "print_version s =
     ''chos'' @ '' '' @ ''0.13.2'' @ '' '' @
     (if ch_fork_wrapped s \<noteq> 0 then ''Fork trapped'' else ''Fork not trapped'') @ [NL]"

section \<open>The special link\<close>

abbreviation DEFAULT :: string where "DEFAULT \<equiv> ''/''"

text \<open>
  \<^verbatim>\<open>vfs_readlink\<close> and \<^verbatim>\<open>vfs_follow_link\<close> are the kernel's; the handlers pass them the text of the link.
\<close>

definition link_target :: "addr option \<Rightarrow> kernel_state \<Rightarrow> fault + string" where
  "link_target link s =
     (case link of
        None \<Rightarrow> Inr DEFAULT
      | Some l \<Rightarrow>
         (case links s l of
            None \<Rightarrow> Inl Use_After_Free
          | Some k \<Rightarrow> (case bufs s (ltext k) of None \<Rightarrow> Inl Use_After_Free | Some b \<Rightarrow> Inr (cstr b))))"

definition link_readlink :: "tasks \<Rightarrow> tid \<Rightarrow> (string \<Rightarrow> 'r) \<Rightarrow> kernel_state \<Rightarrow>
    (fault + 'r \<times> kernel_state) option" where
  "link_readlink ts current vfs_readlink s =
     Option.bind (lookup_link ts (Some current) s) (\<lambda>r.
       Some (ebind r (\<lambda>(link, s1).
         ebind (link_target link s1) (\<lambda>text. Inr (vfs_readlink text, s1)))))"

definition link_follow_link :: "tasks \<Rightarrow> tid \<Rightarrow> (string \<Rightarrow> 'r) \<Rightarrow> kernel_state \<Rightarrow>
    (fault + 'r \<times> kernel_state) option" where
  "link_follow_link ts current vfs_follow_link s =
     Option.bind (lookup_link ts (Some current) s) (\<lambda>r.
       Some (ebind r (\<lambda>(link, s1).
         ebind (link_target link s1) (\<lambda>text. Inr (vfs_follow_link text, s1)))))"

section \<open>Installing a link for the calling process\<close>

text \<open>
  A table with one buffer \<open>a\<close> that has no owner yet, about to become the text of a link.
\<close>

definition spare_buf :: "addr \<Rightarrow> kernel_state \<Rightarrow> bool" where
  "spare_buf a s \<longleftrightarrow> bufs s a \<noteq> None \<and> a \<notin> texts s \<and> a \<notin> path_bufs s"

lemma cleanup_links_kernel:
  assumes inv: "kernel_inv s" and f: "finds ts find_task"
  obtains s' where "cleanup_links ts find_task s = Inr s'" "kernel_inv s'" "shrinks s s'"
    "\<And>i. view s' i = prune ts find_task i (view s) i"
proof -
  have li: "link_inv s" and pa: "path_inv s" and orp: "orphans s = {}"
    using inv by (simp_all add: kernel_inv_def)
  obtain s' where s': "cleanup_links ts find_task s = Inr s'" "link_inv s'" "shrinks s s'"
      "orphans s' = orphans s" "\<And>i. view s' i = prune ts find_task i (view s) i"
    using cleanup_links_refines [OF li f] by metis
  with that orp shrinks_path(1) [OF s'(3) pa] show ?thesis by (simp add: kernel_inv_def)
qed

lemma create_link_kernel:
  assumes inv: "kernel_inv s" and km: "fresh_alloc km" "km (\<lambda>a. links s a \<noteq> None) = Some l"
    and a: "spare_buf a s" "bufs s a = Some b"
  obtains s' where "create_link km a s = (Some l, s')" "link_inv s'" "path_inv s'" "orphans s' = {l}"
    "view s' = view s" "link_string s' l = cstr b" "links s' l \<noteq> None" "refs s' l = 0"
    "procs s' = procs s" "link_state.more s' = link_state.more s"
    "valid_strings s' = valid_strings s" "texts s' = insert a (texts s)" "bufs s' = bufs s"
    "path_bufs s' = path_bufs s"
proof -
  have li: "link_inv s" and pa: "path_inv s" and orp: "orphans s = {}"
    using inv by (simp_all add: kernel_inv_def)
  have a': "a \<notin> texts s" "a \<notin> path_bufs s" using a(1) by (simp_all add: spare_buf_def)
  obtain s' where s': "create_link km a s = (Some l, s')" "link_inv s'" "view s' = view s"
      "orphans s' = insert l (orphans s)" "texts s' = insert a (texts s)"
      "link_string s' l = cstr b" "links s' l \<noteq> None" "refs s' l = 0"
      "procs s' = procs s" "bufs s' = bufs s" "link_state.more s' = link_state.more s"
    by (rule create_link_ok [OF li km a(2) a'(1)]) blast
  have vp: "valid_paths s' = valid_paths s" by (rule more_fields(1) [OF s'(11)])
  have "path_inv s'" using pa a'(2) s'(5,10) vp by (auto simp: path_inv_def path_bufs_def)
  moreover have "valid_strings s' = valid_strings s" "path_bufs s' = path_bufs s"
    using vp s'(10) by (simp_all add: valid_strings_def path_bufs_def)
  ultimately show ?thesis using that s' orp by simp
qed

text \<open>
  There is memory for a link, or for a text: the allocator does not fail while no more of them are live
  than now.
\<close>

definition link_memory :: "kmalloc \<Rightarrow> kernel_state \<Rightarrow> bool" where
  "link_memory km s \<longleftrightarrow> (\<forall>live. (\<forall>a. live a \<longrightarrow> links s a \<noteq> None) \<longrightarrow> km live \<noteq> None)"

definition text_memory :: "kmalloc \<Rightarrow> kernel_state \<Rightarrow> bool" where
  "text_memory km s \<longleftrightarrow> (\<forall>live. (\<forall>a. live a \<longrightarrow> bufs s a \<noteq> None) \<longrightarrow> km live \<noteq> None)"

lemma memory_shrinks:
  assumes "shrinks s s'"
  shows "text_memory kmt s \<Longrightarrow> kmt (\<lambda>a. bufs s' a \<noteq> None) \<noteq> None" and "link_memory km s \<Longrightarrow> link_memory km s'"
proof -
  have "bufs s' a = (if a \<in> texts s - texts s' then None else bufs s a)" for a
    using assms unfolding shrinks_def by blast
  then have sub: "\<forall>a. bufs s' a \<noteq> None \<longrightarrow> bufs s a \<noteq> None" by presburger
  show "kmt (\<lambda>a. bufs s' a \<noteq> None) \<noteq> None" if "text_memory kmt s"
    using that [unfolded text_memory_def, THEN spec, of "\<lambda>a. bufs s' a \<noteq> None", THEN mp, OF sub] .
  have sub: "\<forall>a. links s' a \<noteq> None \<longrightarrow> links s a \<noteq> None" using shrinksD(4) [OF assms] by blast
  show "link_memory km s'" if "link_memory km s"
    unfolding link_memory_def
  proof (intro allI impI)
    fix live assume "\<forall>a. live a \<longrightarrow> links s' a \<noteq> None"
    with sub have "\<forall>a. live a \<longrightarrow> links s a \<noteq> None" by blast
    then show "km live \<noteq> None" using that [unfolded link_memory_def, THEN spec, of live] by blast
  qed
qed

text \<open>
  What installing promises: the table stays well formed, every other slot only loses a stale entry,
  and the caller's slot holds the new text, or is empty when the allocator refused the link.
\<close>

definition installed :: "tasks \<Rightarrow> (nat \<Rightarrow> tid option) \<Rightarrow> kmalloc \<Rightarrow> task_struct \<Rightarrow> string \<Rightarrow>
    kernel_state \<Rightarrow> kernel_state \<Rightarrow> bool" where
  "installed ts find_task km t x s s' \<longleftrightarrow>
     kernel_inv s' \<and> link_state.more s' = link_state.more s \<and>
     length (procs s') = length (procs s) \<and> valid_strings s' = valid_strings s \<and>
     link_strings s' \<subseteq> insert x (link_strings s) \<and>
     (\<forall>i. i \<noteq> tpid t \<longrightarrow> view s' i = prune ts find_task i (view s) i) \<and>
     (view s' (tpid t) = Some (x, tstart t) \<and> (\<exists>live. km live \<noteq> None) \<or>
      \<not> link_memory km s \<and> view s' (tpid t) = None)"

lemma set_link_kernel:
  assumes li: "link_inv s" and pa: "path_inv s" and orp: "orphans s = set_option lk"
    and t: "ts current = Some t" "tpid t < length (procs s)"
    and live: "\<And>l. lk = Some l \<Longrightarrow> links s l \<noteq> None \<and> refs s l = 0"
  obtains s' where "set_link ts lk (Some current) s = Inr s'" "kernel_inv s'" "shrinks s s'"
    "view s' = (view s)(tpid t := map_option (\<lambda>l. (link_string s l, tstart t)) lk)"
proof -
  have pre: "links s l \<noteq> None \<and> (plink (procs s ! tpid t) = Some l \<longrightarrow> 2 \<le> refs s l)" if "lk = Some l" for l
    using live [OF that] t(2) refs_pos_iff [of s l] by auto
  obtain s' where s': "set_link ts lk (Some current) s = Inr s'" "link_inv s'" "shrinks s s'"
      "view s' = (view s)(tpid t := map_option (\<lambda>l. (link_string s l, tstart t)) lk)"
      "orphans s' = orphans s - set_option lk"
    using set_link_refines [of s ts current t lk, OF li t pre] by metis
  with that orp shrinks_path(1) [OF s'(3) pa] show ?thesis by (simp add: kernel_inv_def)
qed

lemma install_link_ok:
  assumes inv: "kernel_inv s" and f: "finds ts find_task"
    and t: "ts current = Some t" "tpid t < length (procs s)"
    and km: "fresh_alloc km" and a: "spare_buf a s" "bufs s a = Some b"
  obtains s' where "install_link ts find_task km current a s = Inr s'"
    "installed ts find_task km t (cstr b) s s'"
proof -
  obtain s1 where s1: "cleanup_links ts find_task s = Inr s1" "kernel_inv s1" "shrinks s s1"
      "\<And>i. view s1 i = prune ts find_task i (view s) i"
    using cleanup_links_kernel [OF inv f] by metis
  have pa: "path_inv s" using inv by (simp add: kernel_inv_def)
  have spare: "spare_buf a s1" "bufs s1 a = Some b"
    using a shrinksD(5) [OF s1(3)] shrinks_texts [OF s1(3)] shrinks_path(3) [OF s1(3) pa]
    by (auto simp: spare_buf_def)
  have t1: "tpid t < length (procs s1)" using t(2) s1(3) by (simp add: frame)
  note vs1 = shrinks_path(2) [OF s1(3) pa]
  have sub: "\<forall>a. links s1 a \<noteq> None \<longrightarrow> links s a \<noteq> None" using shrinksD(4) [OF s1(3)] by blast
  show ?thesis
  proof (cases "km (\<lambda>a. links s1 a \<noteq> None)")
    case None
    then have cr: "create_link km a s1 = (None, s1)" by (simp add: create_link_def)
    have k1: "link_inv s1" "path_inv s1" "orphans s1 = set_option None"
      using s1(2) by (simp_all add: kernel_inv_def)
    obtain s' where s': "set_link ts None (Some current) s1 = Inr s'" "kernel_inv s'" "shrinks s1 s'"
        "view s' = (view s1)(tpid t := None)"
      using set_link_kernel [where lk = None and ts = ts, OF k1 t(1) t1] by auto
    have nomem: "\<not> link_memory km s"
      unfolding link_memory_def using None sub by (auto intro!: exI [of _ "\<lambda>a. links s1 a \<noteq> None"])
    moreover have "link_strings s' \<subseteq> insert (cstr b) (link_strings s)"
      using shrinks_link_strings [OF s'(3)] shrinks_link_strings [OF s1(3)] by blast
    ultimately have "installed ts find_task km t (cstr b) s s'"
      using s'(2-4) s1(3,4) vs1 shrinks_path(2) [OF s'(3) k1(2)] by (simp add: installed_def shrinksD(1-3))
    then show ?thesis using that s1(1) s'(1) cr by (simp add: install_link_def)
  next
    case (Some l)
    obtain s2 where s2: "create_link km a s1 = (Some l, s2)" "link_inv s2" "path_inv s2" "orphans s2 = {l}"
        "view s2 = view s1" "link_string s2 l = cstr b" "links s2 l \<noteq> None" "refs s2 l = 0"
        "procs s2 = procs s1" "link_state.more s2 = link_state.more s1" "valid_strings s2 = valid_strings s1"
      by (rule create_link_kernel [OF s1(2) km Some spare]) blast
    obtain s' where s': "set_link ts (Some l) (Some current) s2 = Inr s'" "kernel_inv s'" "shrinks s2 s'"
        "view s' = (view s2)(tpid t := Some (cstr b, tstart t))"
      using set_link_kernel [where lk = "Some l" and ts = ts, OF s2(2,3) _ t(1)] t1 s2 by auto
    have "\<exists>live. km live \<noteq> None" using Some by blast
    moreover have "link_strings s' \<subseteq> insert (cstr b) (link_strings s)"
      using shrinks_link_strings [OF s'(3)] create_link_strings [OF s2(1) spare(2)] shrinks_link_strings [OF s1(3)] by blast
    ultimately have "installed ts find_task km t (cstr b) s s'"
      using s' s2 s1 vs1 shrinks_path(2) [OF s'(3) s2(3)] by (auto simp: installed_def frame)
    then show ?thesis using that s1(1) s2(1) s'(1) by (simp add: install_link_def)
  qed
qed

section \<open>Changing the root directory\<close>

lemma my_chroot_state:
  "snd (my_chroot current t sc path s) =
     s\<lparr>fs_root := (fs_root s)(tfs t :=
        snd (sc path (cap_raise (cap_effective (creds s (tcred t))) CAP_SYS_CHROOT) KERNEL_DS
               (fs_root s (tfs t))))\<rparr>"
  by (simp add: my_chroot_def set_cap_effective_def Let_def case_prod_unfold fun_upd_idem_iff)

lemma my_chroot_kernel:
  "kernel_inv (snd (my_chroot current t sc path s)) \<longleftrightarrow> kernel_inv s"
  "view (snd (my_chroot current t sc path s)) = view s"
  "valid_strings (snd (my_chroot current t sc path s)) = valid_strings s"
  by (rule kernel_cong; simp add: my_chroot_state)+

section \<open>Writing to setchos\<close>

text \<open>The line the caller asked for, as the kernel has copied it.\<close>

definition requested :: "copier \<Rightarrow> user_mem \<Rightarrow> nat \<Rightarrow> string" where
  "requested cp buf count = cstr (snd (cp (ubytes buf (line_end buf count 0))))"

text \<open>A buffer that is not mapped up to the end of the line makes the scan oops, before anything has been changed.\<close>

lemma write_setchos_unreadable:
  "ts current \<noteq> None \<Longrightarrow> \<not> readable buf count \<Longrightarrow> write_setchos ts find_task current sc kmt km cp buf count s = Inl Bad_Address"
  by (auto simp: write_setchos_def scan_line_iff)

lemma write_setchos_readable:
  "write_setchos ts find_task current sc kmt km cp buf count s = Inr y \<Longrightarrow> readable buf count"
  by (cases "ts current"; cases "readable buf count") (auto simp: write_setchos_def scan_line_iff)

lemma root_requested:
  "(b @ [NUL]) ! 0 = CHR ''/'' \<and> (b @ [NUL]) ! 1 = NUL \<longleftrightarrow> cstr b = ''/''"
proof (cases b)
  case (Cons c b')
  then show ?thesis by (cases b') (auto simp: nth_append)
qed simp

lemma install_new:
  fixes s :: kernel_state and root b
  assumes inv: "kernel_inv s" and f: "finds ts find_task" and t: "ts current = Some t" "tpid t < length (procs s)"
    and km: "fresh_alloc km" and a: "bufs s a = None"
  defines "s1 \<equiv> s\<lparr>bufs := (bufs s)(a \<mapsto> b), fs_root := root\<rparr>"
  obtains s' where "install_link ts find_task km current a s1 = Inr s'" "installed ts find_task km t (cstr b) s1 s'"
    "kernel_inv s1" "view s1 = view s" "links s1 = links s" "link_strings s1 = link_strings s"
    "length (procs s1) = length (procs s)" "valid_strings s1 = valid_strings s"
proof -
  note nb = new_buf [OF inv a, of b]
  have same: "kernel_inv s1" "view s1 = view s" "valid_strings s1 = valid_strings s" "spare_buf a s1" "bufs s1 a = Some b"
    using kernel_cong [of s1 "s\<lparr>bufs := (bufs s)(a \<mapsto> b)\<rparr>"] nb by (simp_all add: spare_buf_def s1_def)
  have strs: "link_strings s1 = link_strings s"
    unfolding s1_def using fresh_buf(1) [OF inv a] by (intro link_strings_cong) auto
  have len: "tpid t < length (procs s1)" using t(2) by (simp add: s1_def)
  obtain s' where "install_link ts find_task km current a s1 = Inr s'" "installed ts find_task km t (cstr b) s1 s'"
    by (rule install_link_ok [OF same(1) f t(1) len km same(4,5)])
  then show ?thesis by (rule that) (use same strs in \<open>simp_all add: s1_def\<close>)
qed

lemma write_setchos_cases:
  assumes inv: "kernel_inv s" and f: "finds ts find_task"
    and t: "ts current = Some t" "tpid t < length (procs s)"
    and kmt: "fresh_alloc kmt" and km: "fresh_alloc km" and rd: "readable buf count"
  obtains
    (nomem) "kmt (\<lambda>a. bufs s a \<noteq> None) = None"
      "write_setchos ts find_task current sc kmt km cp buf count s = Inr (- ENOMEM, s)"
  | (invalid) a where "bufs s a = None" "requested cp buf count \<noteq> ''/''"
      "requested cp buf count \<notin> set (valid_strings s)"
      "write_setchos ts find_task current sc kmt km cp buf count s =
         Inr (- ENOENT, s\<lparr>bufs := (bufs s)(a \<mapsto> snd (cp (ubytes buf (line_end buf count 0))) @ [NUL])\<rparr>)"
  | (root) s0 s' where "requested cp buf count = ''/''" "kernel_inv s0" "view s0 = view s" "links s0 = links s"
      "link_strings s0 = link_strings s" "length (procs s0) = length (procs s)" "valid_strings s0 = valid_strings s"
      "link_state.more s0 = link_state.more (s\<lparr>fs_root := (fs_root s)(tfs t := ch_nochroot s)\<rparr>)"
      "installed ts find_task km t (requested cp buf count) s0 s'"
      "write_setchos ts find_task current sc kmt km cp buf count s = Inr (int count, s')"
  | (valid) s0 s' where "requested cp buf count \<noteq> ''/''" "requested cp buf count \<in> set (valid_strings s)"
      "kernel_inv s0" "view s0 = view s" "links s0 = links s" "link_strings s0 = link_strings s" "length (procs s0) = length (procs s)"
      "valid_strings s0 = valid_strings s" "link_state.more s0 = link_state.more s"
      "installed ts find_task km t (requested cp buf count) s0 s'"
      "write_setchos ts find_task current sc kmt km cp buf count s =
         Inr (int count, if is_chrooted t s then s' else snd (my_chroot current t sc CHOSROOT s'))"
proof (cases "kmt (\<lambda>a. bufs s a \<noteq> None)")
  case None
  with nomem t(1) show ?thesis by (simp add: write_setchos_def Let_def scan_line_iff rd)
next
  case (Some a)
  let ?b = "snd (cp (ubytes buf (line_end buf count 0)))"
  let ?s0 = "s\<lparr>bufs := (bufs s)(a \<mapsto> ?b @ [NUL])\<rparr>"
  have a: "bufs s a = None" using fresh_allocD [OF kmt Some] by simp
  note nb = new_buf [OF inv a, of "?b @ [NUL]"]
  have tx: "cstr (?b @ [NUL]) = requested cp buf count"
    by (simp add: requested_def cstr_append_terminated)
  have ok: "is_valid_path (cstr (?b @ [NUL])) ?s0 = Inr (requested cp buf count \<in> set (valid_strings s))"
    using nb(1,3) tx by (simp add: is_valid_path_strings kernel_inv_def)
  show ?thesis
  proof (cases "requested cp buf count = ''/''")
    case True
    let ?r0 = "s\<lparr>bufs := (bufs s)(a \<mapsto> ?b @ [NUL]), fs_root := (fs_root s)(tfs t := ch_nochroot s)\<rparr>"
    obtain s' where s': "install_link ts find_task km current a ?r0 = Inr s'"
        "installed ts find_task km t (cstr (?b @ [NUL])) ?r0 s'" "kernel_inv ?r0" "view ?r0 = view s" "links ?r0 = links s"
        "link_strings ?r0 = link_strings s" "length (procs ?r0) = length (procs s)" "valid_strings ?r0 = valid_strings s"
      by (rule install_new [OF inv f t km a, of "(fs_root s)(tfs t := ch_nochroot s)" "?b @ [NUL]"])
    have "link_state.more ?r0 = link_state.more (s\<lparr>fs_root := (fs_root s)(tfs t := ch_nochroot s)\<rparr>)"
      by (cases s) simp
    then show ?thesis
      by (intro root [of ?r0 s'])
        (use True s' tx Some t(1) root_requested [of ?b] in
          \<open>simp_all add: write_setchos_def Let_def scan_line_iff rd requested_def\<close>)
  next
    case False
    then have no: "\<not> ((?b @ [NUL]) ! 0 = CHR ''/'' \<and> (?b @ [NUL]) ! 1 = NUL)"
      using root_requested [of ?b] by (simp add: requested_def)
    show ?thesis
    proof (cases "requested cp buf count \<in> set (valid_strings s)")
      case True
      obtain s' where s': "install_link ts find_task km current a ?s0 = Inr s'"
          "installed ts find_task km t (cstr (?b @ [NUL])) ?s0 s'" "link_strings ?s0 = link_strings s"
        using install_new [OF inv f t km a, of "fs_root s" "?b @ [NUL]"] by auto
      have "is_chrooted t s' = is_chrooted t s"
        using s'(2) more_fields [of s' ?s0] by (simp add: installed_def is_chrooted_def)
      then show ?thesis
        by (intro valid [of ?s0 s'])
          (use False True no nb s' tx ok Some t(1) in \<open>auto simp: write_setchos_def Let_def scan_line_iff rd\<close>)
    next
      case inv': False
      then show ?thesis
        by (intro invalid [OF a])
          (use False no ok Some t(1) in \<open>auto simp: write_setchos_def Let_def scan_line_iff rd\<close>)
    qed
  qed
qed

text \<open>Nobody else's entry changes, and a link that was installed is what the caller then has.\<close>

lemma installed_own:
  assumes "installed ts find_task km t x s s'" and tree: "task_tree n ts" and f: "finds ts find_task"
    and t: "ts current = Some t" and u: "ts u = Some k" "u \<noteq> current"
  shows "own (view s') k = own (view s) k"
proof -
  have "tpid k \<noteq> tpid t" using task_treeD(2) [OF tree u(1) t] u(2) by blast
  then have "own (view s') k = own (\<lambda>i. prune ts find_task i (view s) i) k"
    using assms(1) by (simp add: own_def installed_def)
  also have "\<dots> = own (view s) k" by (rule prune_own [OF f u(1) refl])
  finally show ?thesis .
qed

lemma setchos_own:
  assumes inv: "kernel_inv s" and tree: "task_tree (length (procs s)) ts" and f: "finds ts find_task"
    and t: "ts current = Some t" and kmt: "fresh_alloc kmt" and km: "fresh_alloc km"
    and u: "ts u = Some k" "u \<noteq> current" and rd: "readable buf count"
  shows "\<exists>ret s'. write_setchos ts find_task current sc kmt km cp buf count s = Inr (ret, s') \<and>
    kernel_inv s' \<and> valid_strings s' = valid_strings s \<and> length (procs s') = length (procs s) \<and>
    own (view s') k = own (view s) k"
  using inv f t task_treeD(1) [OF tree t] kmt km rd
proof (cases rule: write_setchos_cases [where sc = sc and cp = cp and buf = buf and count = count])
  case nomem
  with inv show ?thesis by simp
next
  case (invalid a)
  with new_buf [OF inv invalid(1)] show ?thesis by simp
next
  case (root s0 s')
  with installed_own [OF root(9) tree f t u] show ?thesis by (simp add: installed_def)
next
  case (valid s0 s')
  have "length (procs (snd (my_chroot current t sc CHOSROOT s'))) = length (procs s')"
    by (simp add: my_chroot_state)
  with valid installed_own [OF valid(10) tree f t u] show ?thesis
    by (auto simp: installed_def my_chroot_kernel)
qed

lemma setchos_entry:
  assumes inv: "kernel_inv s" and tree: "task_tree (length (procs s)) ts" and f: "finds ts find_task"
    and t: "ts current = Some t" "1 < tpid t" and kmt: "fresh_alloc kmt" and km: "fresh_alloc km"
    and mem: "kmt (\<lambda>a. bufs s a \<noteq> None) \<noteq> None" "link_memory km s"
    and x: "requested cp buf count = ''/'' \<or> requested cp buf count \<in> set (valid_strings s)" and rd: "readable buf count"
  shows "\<exists>s'. write_setchos ts find_task current sc kmt km cp buf count s = Inr (int count, s') \<and>
    kernel_inv s' \<and> length (procs s') = length (procs s) \<and> own (view s') t = Some (requested cp buf count)"
  using inv f t(1) task_treeD(1) [OF tree t(1)] kmt km rd
proof (cases rule: write_setchos_cases [where sc = sc and cp = cp and buf = buf and count = count])
  case (root s0 s')
  then have "link_memory km s0" using mem(2) by (simp add: link_memory_def)
  with root show ?thesis by (auto simp: installed_def own_def)
next
  case (valid s0 s')
  then have "link_memory km s0" using mem(2) by (simp add: link_memory_def)
  moreover have "length (procs (snd (my_chroot current t sc CHOSROOT s'))) = length (procs s')" by (simp add: my_chroot_state)
  ultimately show ?thesis using valid by (auto simp: installed_def own_def my_chroot_kernel)
qed (use mem x in auto)

lemma setchos_accepted:
  assumes inv: "kernel_inv s" and tree: "task_tree (length (procs s)) ts" and f: "finds ts find_task"
    and t: "ts current = Some t" "1 < tpid t" and kmt: "fresh_alloc kmt" and km: "fresh_alloc km"
    and mem: "kmt (\<lambda>a. bufs s a \<noteq> None) \<noteq> None" "link_memory km s"
    and x: "requested cp buf count = ''/'' \<or> requested cp buf count \<in> set (valid_strings s)" and rd: "readable buf count"
  shows "\<exists>s'. write_setchos ts find_task current sc kmt km cp buf count s = Inr (int count, s') \<and>
    kernel_inv s' \<and>
    (\<forall>r. inherits ts (view s') (Some current) r \<longleftrightarrow> r = Some (requested cp buf count))"
  using setchos_entry [OF assms, of sc] t inherits_task [of ts current t] by auto

section \<open>Reading the link\<close>

lemma walk_ok_kernel:
  assumes "walk_ok ts s t lk s'" and "kernel_inv s"
  shows "kernel_inv s'" "valid_strings s' = valid_strings s" "link_state.more s' = link_state.more s"
    and "length (procs s') = length (procs s)" "no_leak s \<Longrightarrow> no_leak s'"
proof -
  have sh: "shrinks s s'" and pa: "path_inv s"
    using assms by (simp_all add: walk_ok_def kernel_inv_def)
  show "kernel_inv s'"
    using assms shrinks_path(1) [OF sh pa] by (simp add: walk_ok_def kernel_inv_def)
  show "valid_strings s' = valid_strings s" "no_leak s \<Longrightarrow> no_leak s'"
    using shrinks_path [OF sh pa] by simp_all
  show "link_state.more s' = link_state.more s" "length (procs s') = length (procs s)"
    using sh by (simp_all add: frame)
qed

lemma lookup_target:
  assumes inv: "kernel_inv s" and tree: "task_tree (length (procs s)) ts" and t: "ts current \<noteq> None"
  obtains lk s' r where "lookup_link ts (Some current) s = Some (Inr (lk, s'))"
    "walk_ok ts s (Some current) lk s'" "inherits ts (view s) (Some current) r"
    "link_target lk s' = Inr (case r of None \<Rightarrow> DEFAULT | Some x \<Rightarrow> x)"
proof -
  have li: "link_inv s" using inv by (simp add: kernel_inv_def)
  obtain lk s' where s': "lookup_link ts (Some current) s = Some (Inr (lk, s'))"
      "walk_ok ts s (Some current) lk s'"
    using lookup_link_ok [OF tree li, of "Some current"] t by auto
  have "\<exists>k b. links s' l = Some k \<and> bufs s' (ltext k) = Some b" if "lk = Some l" for l
    using s'(2) that link_invD(4) [of s' l] by (auto simp: walk_ok_def)
  then have "link_target lk s' = Inr (case map_option (link_string s') lk of None \<Rightarrow> DEFAULT | Some x \<Rightarrow> x)"
    by (cases lk) (auto simp: link_target_def link_string_def)
  with that s' show ?thesis by (auto simp: walk_ok_def)
qed

lemma readlink_walk:
  assumes inv: "kernel_inv s" and tree: "task_tree (length (procs s)) ts" and t: "ts current \<noteq> None"
    and r: "inherits ts (view s) (Some current) r"
  obtains s' where "link_readlink ts current vfs s = Some (Inr (vfs (case r of None \<Rightarrow> DEFAULT | Some x \<Rightarrow> x), s'))"
    "kernel_inv s'" "valid_strings s' = valid_strings s" "task_tree (length (procs s')) ts" "shrinks s s'"
    "\<And>u r. inherits ts (view s') u r \<longleftrightarrow> inherits ts (view s) u r"
proof -
  obtain lk s' r' where s': "lookup_link ts (Some current) s = Some (Inr (lk, s'))" "walk_ok ts s (Some current) lk s'"
      "inherits ts (view s) (Some current) r'" "link_target lk s' = Inr (case r' of None \<Rightarrow> DEFAULT | Some x \<Rightarrow> x)"
    by (rule lookup_target [OF inv tree t])
  have "r' = r" by (rule inherits_det [OF s'(3) r])
  with s' have "link_readlink ts current vfs s = Some (Inr (vfs (case r of None \<Rightarrow> DEFAULT | Some x \<Rightarrow> x), s'))"
    by (simp add: link_readlink_def)
  moreover have "task_tree (length (procs s')) ts" using tree walk_ok_kernel(4) [OF s'(2) inv] by simp
  ultimately show ?thesis
    using that walk_ok_kernel(1,2) [OF s'(2) inv] s'(2) by (simp add: walk_ok_def)
qed

section \<open>Taking the link back\<close>

lemma write_resetchos_ok:
  assumes inv: "kernel_inv s" and tree: "task_tree (length (procs s)) ts" and f: "finds ts find_task"
    and t: "ts current = Some t"
  obtains s' where "write_resetchos ts find_task current count s = Inr (int count, s')" "kernel_inv s'"
    "shrinks s s'" "view s' (tpid t) = None"
    "\<And>u k. ts u = Some k \<Longrightarrow> u \<noteq> current \<Longrightarrow> own (view s') k = own (view s) k"
proof -
  have li: "link_inv s" and pa: "path_inv s" and orp: "orphans s = {}"
    using inv by (simp_all add: kernel_inv_def)
  have i: "tpid t < length (procs s)" by (rule task_treeD(1) [OF tree t])
  obtain s1 where s1: "reset_link (tpid t) s = Inr s1" "link_inv s1" "shrinks s s1"
      "view s1 = (view s)(tpid t := None)" "orphans s1 = orphans s"
    using reset_link_refines [OF li i] by metis
  have inv1: "kernel_inv s1" using s1 orp shrinks_path(1) [OF s1(3) pa] by (simp add: kernel_inv_def)
  obtain s' where s': "cleanup_links ts find_task s1 = Inr s'" "kernel_inv s'" "shrinks s1 s'"
      "\<And>i. view s' i = prune ts find_task i (view s1) i"
    using cleanup_links_kernel [OF inv1 f] by metis
  show ?thesis
  proof (rule that)
    show "write_resetchos ts find_task current count s = Inr (int count, s')"
      using t i link_invD(1) [OF li] s1(1) s'(1) by (simp add: write_resetchos_def)
    show "kernel_inv s'" by (rule s'(2))
    show "shrinks s s'" by (rule shrinks_trans [OF s1(3) s'(3)])
    show "view s' (tpid t) = None" by (simp add: s'(4) s1(4) prune_def)
    show "own (view s') k = own (view s) k" if u: "ts u = Some k" "u \<noteq> current" for u k
    proof -
      have "tpid k \<noteq> tpid t" using task_treeD(2) [OF tree u(1) t] u(2) by blast
      then have "own (view s1) k = own (view s) k" by (simp add: own_def s1(4))
      then show ?thesis using prune_own [OF f u(1) s'(4)] by simp
    qed
  qed
qed

section \<open>Properties\<close>

lemma demo_kernel_links: "link_memory (demo_alloc 50) demo_kernel"
proof -
  have "links demo_kernel 50 = None" by (simp add: demo_kernel_def demo_links_def)
  then show ?thesis by (auto simp: link_memory_def demo_alloc_def)
qed

text \<open>
  C17. A write to \<^verbatim>\<open>setchos\<close> of \<^verbatim>\<open>/\<close> or of a valid path is accepted: it returns the number of bytes written,
  the state stays well formed, and from then on the caller has exactly the requested path, if
  there is memory for the text and the link and the buffer is mapped up to the end of its line.
\<close>

theorem setchos_installs:
  assumes inv: "kernel_inv s" and tree: "task_tree (length (procs s)) ts" and f: "finds ts find_task"
    and t: "ts current = Some t" "1 < tpid t" and kmt: "fresh_alloc kmt" and km: "fresh_alloc km"
    and mem: "kmt (\<lambda>a. bufs s a \<noteq> None) \<noteq> None" "link_memory km s"
    and x: "requested cp buf count = ''/'' \<or> requested cp buf count \<in> set (valid_strings s)" and rd: "readable buf count"
  shows "\<exists>s'. write_setchos ts find_task current sc kmt km cp buf count s = Inr (int count, s') \<and>
    kernel_inv s' \<and>
    (\<forall>r. inherits ts (view s') (Some current) r \<longleftrightarrow> r = Some (requested cp buf count))"
  by (rule setchos_accepted [OF assms])

theorem setchos_installs_witness:
  "\<exists>s'. write_setchos demo_tasks demo_find 6 (\<lambda>_ _ _ r. (0, r)) (demo_alloc 40) (demo_alloc 50) demo_copy
         (umem ''/os/sl6'') 7 demo_kernel = Inr (7, s') \<and> kernel_inv s' \<and>
     (\<forall>r. inherits demo_tasks (view s') (Some 6) r \<longleftrightarrow> r = Some ''/os/sl6'')"
proof -
  let ?buf = "umem ''/os/sl6''"
  have line: "line_end ?buf 7 0 = 7" by (simp add: line_end.simps umem_def)
  have u: "ubytes ?buf 7 = ''/os/sl6''" by (simp add: ubytes_def umem_def upt_rec)
  have req: "requested demo_copy ?buf 7 = ''/os/sl6''" by (simp add: requested_def line u demo_copy_def)
  show ?thesis
    using setchos_installs [where ts = demo_tasks and find_task = demo_find and current = 6 and s = demo_kernel
        and kmt = "demo_alloc 40" and km = "demo_alloc 50" and cp = demo_copy and buf = ?buf and count = 7
        and sc = "\<lambda>_ _ _ r. (0, r)",
        OF demo_kernel_inv demo_kernel_tree demo_finds demo_at(2) _ demo_alloc_fresh demo_alloc_fresh demo_kernel_mem demo_kernel_links]
    by (simp add: req demo_kernel_strings)
qed

text \<open>
  C18. A write to \<^verbatim>\<open>setchos\<close> of anything else is refused with \<^verbatim>\<open>-ENOENT\<close>: no process's link, no root
  directory, no credential and no valid path changes. (The buffer of the refused text is not freed: it stays
  live and nothing refers to it.)
\<close>

theorem setchos_rejects:
  assumes inv: "kernel_inv s" and tree: "task_tree (length (procs s)) ts" and f: "finds ts find_task"
    and t: "ts current = Some t" and kmt: "fresh_alloc kmt" and km: "fresh_alloc km"
    and mem: "kmt (\<lambda>a. bufs s a \<noteq> None) \<noteq> None"
    and x: "requested cp buf count \<noteq> ''/''" "requested cp buf count \<notin> set (valid_strings s)" and rd: "readable buf count"
  shows "\<exists>s' a. write_setchos ts find_task current sc kmt km cp buf count s = Inr (- ENOENT, s') \<and>
    kernel_inv s' \<and> view s' = view s \<and> valid_strings s' = valid_strings s \<and>
    fs_root s' = fs_root s \<and> creds s' = creds s \<and>
    bufs s a = None \<and> bufs s' a \<noteq> None \<and> a \<notin> texts s' \<and> a \<notin> path_bufs s'"
  using inv f t task_treeD(1) [OF tree t] kmt km rd
proof (cases rule: write_setchos_cases [where sc = sc and cp = cp and buf = buf and count = count])
  case (invalid a)
  with new_buf [OF inv invalid(1)] show ?thesis by auto
qed (use mem x in auto)

theorem setchos_rejects_witness:
  "\<exists>s' a. write_setchos demo_tasks demo_find 6 (\<lambda>_ _ _ r. (0, r)) (demo_alloc 40) (demo_alloc 50) demo_copy
       (umem ''/tmp'') 4 demo_kernel = Inr (- ENOENT, s') \<and> view s' = view demo_kernel \<and>
     bufs demo_kernel a = None \<and> bufs s' a \<noteq> None \<and> a \<notin> texts s' \<and> a \<notin> path_bufs s'"
proof -
  let ?buf = "umem ''/tmp''"
  have line: "line_end ?buf 4 0 = 4" by (simp add: line_end.simps umem_def)
  have u: "ubytes ?buf 4 = ''/tmp''" by (simp add: ubytes_def umem_def upt_rec)
  have req: "requested demo_copy ?buf 4 = ''/tmp''" by (simp add: requested_def line u demo_copy_def)
  have "\<exists>s' a. write_setchos demo_tasks demo_find 6 (\<lambda>_ _ _ r. (0, r)) (demo_alloc 40) (demo_alloc 50) demo_copy
      ?buf 4 demo_kernel = Inr (- ENOENT, s') \<and>
    kernel_inv s' \<and> view s' = view demo_kernel \<and> valid_strings s' = valid_strings demo_kernel \<and>
    fs_root s' = fs_root demo_kernel \<and> creds s' = creds demo_kernel \<and>
    bufs demo_kernel a = None \<and> bufs s' a \<noteq> None \<and> a \<notin> texts s' \<and> a \<notin> path_bufs s'"
    by (rule setchos_rejects [where ts = demo_tasks and find_task = demo_find and current = 6 and s = demo_kernel
        and kmt = "demo_alloc 40" and km = "demo_alloc 50" and cp = demo_copy and buf = ?buf and count = 4
        and sc = "\<lambda>_ _ _ r. (0, r)",
        OF demo_kernel_inv demo_kernel_tree demo_finds demo_at(2) demo_alloc_fresh demo_alloc_fresh demo_kernel_mem])
      (simp_all add: req demo_kernel_strings)
  then show ?thesis by blast
qed

text \<open>
  Whatever a process writes to \<^verbatim>\<open>setchos\<close>, and whichever way it ends, the handler returns without a
  fault, if its buffer is mapped, the state stays well formed, and the entry of every other process is the one it was.
\<close>

theorem setchos_isolated:
  assumes "kernel_inv s" and "task_tree (length (procs s)) ts" and "finds ts find_task"
    and "ts current = Some t" and "fresh_alloc kmt" and "fresh_alloc km"
    and "ts u = Some k" and "u \<noteq> current" and "readable buf count"
  shows "\<exists>ret s'. write_setchos ts find_task current sc kmt km cp buf count s = Inr (ret, s') \<and>
    kernel_inv s' \<and> valid_strings s' = valid_strings s \<and> own (view s') k = own (view s) k"
  using setchos_own [of s ts find_task current t kmt km u k buf count sc cp] assms by blast

theorem setchos_isolated_witness:
  "\<exists>ret s'. write_setchos demo_tasks demo_find 6 (\<lambda>_ _ _ r. (0, r)) (demo_alloc 40) (demo_alloc 50) demo_copy
       (umem ''/'') 1 demo_kernel = Inr (ret, s') \<and> kernel_inv s' \<and>
     own (view s') \<lparr>tpid = 2, tstart = 100, tparent = Some 0, tfs = 1, tcred = 1\<rparr> = Some ''/os/sl6''"
proof -
  have "own (view demo_kernel) \<lparr>tpid = 2, tstart = 100, tparent = Some 0, tfs = 1, tcred = 1\<rparr> = Some ''/os/sl6''"
    by (simp add: own_def demo_kernel_link demo_view)
  then show ?thesis
    using setchos_isolated [where ts = demo_tasks and find_task = demo_find and current = 6 and s = demo_kernel
        and kmt = "demo_alloc 40" and km = "demo_alloc 50" and cp = demo_copy and buf = "umem ''/''" and count = 1
        and sc = "\<lambda>_ _ _ r. (0, r)" and u = 5,
        OF demo_kernel_inv demo_kernel_tree demo_finds demo_at(2) demo_alloc_fresh demo_alloc_fresh demo_at(1)]
    by auto
qed

lemma setchos_back:
  assumes inv: "kernel_inv s" and tree: "task_tree (length (procs s)) ts" and f: "finds ts find_task"
    and t: "ts current = Some t" and kmt: "fresh_alloc kmt" and km: "fresh_alloc km"
    and mem: "kmt (\<lambda>a. bufs s a \<noteq> None) \<noteq> None" and x: "requested cp buf count = ''/''" and rd: "readable buf count"
  shows "\<exists>s'. write_setchos ts find_task current sc kmt km cp buf count s = Inr (int count, s') \<and>
    fs_root s' = (fs_root s)(tfs t := ch_nochroot s) \<and> creds s' = creds s \<and> addr_limit s' = addr_limit s"
  using inv f t task_treeD(1) [OF tree t] kmt km rd
proof (cases rule: write_setchos_cases [where sc = sc and cp = cp and buf = buf and count = count])
  case (root s0 s')
  have "link_state.more s' = link_state.more (s\<lparr>fs_root := (fs_root s)(tfs t := ch_nochroot s)\<rparr>)"
    using root(8,9) by (simp add: installed_def)
  from more_fields [OF this] root(10) show ?thesis by simp
qed (use mem x in auto)

text \<open>
  C19. What a successful write to \<^verbatim>\<open>setchos\<close> does to the root directory: writing \<^verbatim>\<open>/\<close> puts the caller back at the
  recorded real root; writing a valid path leaves a caller whose root is the framework's already as it is
  and otherwise gives it the root that \<^verbatim>\<open>sys_chroot("/chos")\<close> chose, called with the capability
  raised and the kernel's address limit. No other process's root changes, and the credentials and the
  address limit are back to what they were.
\<close>

theorem setchos_root_dir:
  assumes inv: "kernel_inv s" and tree: "task_tree (length (procs s)) ts" and f: "finds ts find_task"
    and t: "ts current = Some t" and kmt: "fresh_alloc kmt" and km: "fresh_alloc km"
    and mem: "kmt (\<lambda>a. bufs s a \<noteq> None) \<noteq> None"
    and x: "requested cp buf count = ''/'' \<or> requested cp buf count \<in> set (valid_strings s)" and rd: "readable buf count"
  shows "\<exists>s'. write_setchos ts find_task current sc kmt km cp buf count s = Inr (int count, s') \<and>
    fs_root s' = (fs_root s)(tfs t :=
      if requested cp buf count = ''/'' then ch_nochroot s
      else if is_chrooted t s then fs_root s (tfs t)
      else snd (sc ''/chos'' (cap_raise (cap_effective (creds s (tcred t))) CAP_SYS_CHROOT) KERNEL_DS
                  (fs_root s (tfs t)))) \<and>
    creds s' = creds s \<and> addr_limit s' = addr_limit s"
  using inv f t task_treeD(1) [OF tree t] kmt km rd
proof (cases rule: write_setchos_cases [where sc = sc and cp = cp and buf = buf and count = count])
  case (root s0 s')
  with setchos_back [OF inv tree f t kmt km mem root(1) rd, of sc] show ?thesis by auto
next
  case (valid s0 s')
  have "link_state.more s' = link_state.more s" using valid(9,10) by (simp add: installed_def)
  from more_fields [OF this] valid(1,11) show ?thesis by (auto simp: my_chroot_state)
qed (use mem x in auto)

theorem setchos_root_dir_witness:
  "\<exists>s'. write_setchos demo_tasks demo_find 6 (\<lambda>_ _ _ r. (0, r\<lparr>d_inode := 77\<rparr>)) (demo_alloc 40) (demo_alloc 50)
       demo_copy (umem ''/os/sl6'') 7 demo_kernel = Inr (7, s') \<and>
     fs_root s' 2 = \<lparr>mnt = 1, d_inode = 77\<rparr> \<and> fs_root s' 1 = \<lparr>mnt = 1, d_inode = 2\<rparr> \<and>
     creds s' = creds demo_kernel"
proof -
  let ?buf = "umem ''/os/sl6''"
  have line: "line_end ?buf 7 0 = 7" by (simp add: line_end.simps umem_def)
  have u: "ubytes ?buf 7 = ''/os/sl6''" by (simp add: ubytes_def umem_def upt_rec)
  have req: "requested demo_copy ?buf 7 = ''/os/sl6''" by (simp add: requested_def line u demo_copy_def)
  have root: "fs_root demo_kernel = (\<lambda>_. \<lparr>mnt = 1, d_inode = 2\<rparr>)" "ch_named demo_kernel = \<lparr>mnt = 1, d_inode = 77\<rparr>"
    by (simp_all add: demo_kernel_def)
  show ?thesis
    using setchos_root_dir [where ts = demo_tasks and find_task = demo_find and current = 6 and s = demo_kernel
        and kmt = "demo_alloc 40" and km = "demo_alloc 50" and cp = demo_copy and buf = ?buf and count = 7
        and sc = "\<lambda>_ _ _ r. (0, r\<lparr>d_inode := 77\<rparr>)",
        OF demo_kernel_inv demo_kernel_tree demo_finds demo_at(2) demo_alloc_fresh demo_alloc_fresh demo_kernel_mem]
    by (auto simp: req demo_kernel_strings root is_chrooted_def)
qed

text \<open>
  C20. Reading the special link gives the caller the path it has set or inherited, and \<^verbatim>\<open>/\<close> when no
  ancestor has set one; the lookup always returns, and afterwards the state is well formed, no
  buffer has been lost, and every process inherits what it did before.
\<close>

theorem readlink_correct:
  assumes inv: "kernel_inv s" and tree: "task_tree (length (procs s)) ts" and t: "ts current \<noteq> None"
  shows "\<exists>r s'. inherits ts (view s) (Some current) r \<and>
    link_readlink ts current vfs s = Some (Inr (vfs (case r of None \<Rightarrow> ''/'' | Some x \<Rightarrow> x), s')) \<and>
    kernel_inv s' \<and> (no_leak s \<longrightarrow> no_leak s') \<and>
    (\<forall>u r. inherits ts (view s') u r \<longleftrightarrow> inherits ts (view s) u r)"
proof -
  obtain lk s' r where s': "lookup_link ts (Some current) s = Some (Inr (lk, s'))"
      "walk_ok ts s (Some current) lk s'" "inherits ts (view s) (Some current) r"
      "link_target lk s' = Inr (case r of None \<Rightarrow> DEFAULT | Some x \<Rightarrow> x)"
    by (rule lookup_target [OF inv tree t])
  then have "link_readlink ts current vfs s = Some (Inr (vfs (case r of None \<Rightarrow> ''/'' | Some x \<Rightarrow> x), s'))"
    by (simp add: link_readlink_def)
  moreover have "\<forall>u r. inherits ts (view s') u r \<longleftrightarrow> inherits ts (view s) u r"
    using s'(2) by (simp add: walk_ok_def)
  ultimately show ?thesis using s'(3) walk_ok_kernel [OF s'(2) inv] by blast
qed

theorem readlink_correct_witness:
  "\<exists>s'. link_readlink demo_tasks 6 (\<lambda>x. x) demo_kernel = Some (Inr (''/os/sl6'', s')) \<and> kernel_inv s'"
proof -
  obtain r s' where s': "inherits demo_tasks (view demo_kernel) (Some 6) r"
      "link_readlink demo_tasks 6 (\<lambda>x. x) demo_kernel =
         Some (Inr ((case r of None \<Rightarrow> ''/'' | Some x \<Rightarrow> x), s'))" "kernel_inv s'"
    using readlink_correct [OF demo_kernel_inv demo_kernel_tree, of 6 "\<lambda>x. x"] demo_at(2) by auto
  have "r = Some ''/os/sl6''"
    using s'(1) by (simp add: inherits_task [of demo_tasks 6, OF demo_at(2)]
        inherits_task [of demo_tasks 5, OF demo_at(1)] own_def demo_kernel_link demo_view)
  with s'(2,3) show ?thesis by simp
qed

text \<open>
  C21. A write to \<^verbatim>\<open>resetchos\<close> takes back what the caller has set: it returns the count, keeps the state well
  formed, frees nothing that is in use, and afterwards the caller has whatever its parent had, while the
  entry of every other process is the one it was.
\<close>

theorem resetchos_reverts:
  assumes inv: "kernel_inv s" and tree: "task_tree (length (procs s)) ts" and f: "finds ts find_task"
    and t: "ts current = Some t" "1 < tpid t"
  shows "\<exists>s'. write_resetchos ts find_task current count s = Inr (int count, s') \<and> kernel_inv s' \<and>
    (no_leak s \<longrightarrow> no_leak s') \<and> valid_strings s' = valid_strings s \<and>
    (\<forall>r. inherits ts (view s') (Some current) r \<longleftrightarrow> inherits ts (view s) (tparent t) r) \<and>
    (\<forall>u k. ts u = Some k \<longrightarrow> u \<noteq> current \<longrightarrow> own (view s') k = own (view s) k)"
proof -
  have pa: "path_inv s" using inv by (simp add: kernel_inv_def)
  obtain s' where s': "write_resetchos ts find_task current count s = Inr (int count, s')" "kernel_inv s'"
      "shrinks s s'" "view s' (tpid t) = None"
      "\<And>u k. ts u = Some k \<Longrightarrow> u \<noteq> current \<Longrightarrow> own (view s') k = own (view s) k"
    using write_resetchos_ok [OF inv tree f t(1)] by metis
  have "inherits ts (view s') (Some current) r \<longleftrightarrow> inherits ts (view s) (tparent t) r" for r
    using inherits_task [of ts current t "view s'" r] inherits_parent_cong [OF tree t s'(5)] t s'(4)
    by (simp add: own_def)
  with s' shrinks_path [OF s'(3) pa] show ?thesis by blast
qed

theorem resetchos_reverts_witness:
  "\<exists>s'. write_resetchos demo_tasks demo_find 5 1 demo_kernel = Inr (1, s') \<and> kernel_inv s' \<and>
     inherits demo_tasks (view s') (Some 5) None"
proof -
  have "inherits demo_tasks (view demo_kernel) (Some 0) None"
    by (rule inherits.init [where k = "\<lparr>tpid = 1, tstart = 1, tparent = None, tfs = 0, tcred = 0\<rparr>"])
      (simp_all add: demo_tasks_def)
  then show ?thesis
    using resetchos_reverts [where current = 5 and count = 1, OF demo_kernel_inv demo_kernel_tree demo_finds demo_at(1)]
    by auto
qed

text \<open>
  When there is no memory for the link itself, a write of a valid path to \<^verbatim>\<open>setchos\<close> still returns the
  count, but the caller's entry is empty afterwards, so that it has what its parent had instead of
  the path it was told it has.
\<close>

theorem setchos_no_link_memory:
  assumes inv: "kernel_inv s" and tree: "task_tree (length (procs s)) ts" and f: "finds ts find_task"
    and t: "ts current = Some t" "1 < tpid t" and kmt: "fresh_alloc kmt"
    and mem: "kmt (\<lambda>a. bufs s a \<noteq> None) \<noteq> None" "\<And>live. km live = None"
    and x: "requested cp buf count = ''/'' \<or> requested cp buf count \<in> set (valid_strings s)" and rd: "readable buf count"
  shows "\<exists>s'. write_setchos ts find_task current sc kmt km cp buf count s = Inr (int count, s') \<and>
    view s' (tpid t) = None \<and>
    (\<forall>r. inherits ts (view s') (Some current) r \<longleftrightarrow> inherits ts (view s) (tparent t) r)"
proof -
  have km: "fresh_alloc km" by (simp add: fresh_alloc_def mem(2))
  have out: "\<exists>s'. write_setchos ts find_task current sc kmt km cp buf count s = Inr (int count, s') \<and>
      view s' (tpid t) = None"
    using inv f t(1) task_treeD(1) [OF tree t(1)] kmt km rd
    by (cases rule: write_setchos_cases [where sc = sc and cp = cp and buf = buf and count = count])
      (use mem x in \<open>auto simp: installed_def my_chroot_kernel\<close>)
  then obtain s' where s': "write_setchos ts find_task current sc kmt km cp buf count s = Inr (int count, s')"
      "view s' (tpid t) = None" by blast
  have same: "own (view s') k = own (view s) k" if "ts u = Some k" "u \<noteq> current" for u k
    using setchos_own [OF inv tree f t(1) kmt km that rd, of sc cp] s'(1) by simp
  have "inherits ts (view s') (Some current) r \<longleftrightarrow> inherits ts (view s) (tparent t) r" for r
    using inherits_task [of ts current t "view s'" r] inherits_parent_cong [OF tree t same] t s'(2)
    by (simp add: own_def)
  with s' show ?thesis by blast
qed

theorem setchos_no_link_memory_witness:
  "\<exists>s'. write_setchos demo_tasks demo_find 5 (\<lambda>_ _ _ r. (0, r)) (demo_alloc 40) (\<lambda>_. None) demo_copy
       (umem ''/'') 1 demo_kernel = Inr (1, s') \<and> view s' 2 = None"
proof -
  have line: "line_end (umem ''/'') 1 0 = 1" by (simp add: line_end.simps umem_def)
  have u: "ubytes (umem ''/'') 1 = ''/''" by (simp add: ubytes_def umem_def)
  have req: "requested demo_copy (umem ''/'') 1 = ''/''" by (simp only: requested_def line u demo_copy_def snd_conv) simp
  show ?thesis
    using setchos_no_link_memory [where ts = demo_tasks and find_task = demo_find and current = 5
        and s = demo_kernel and kmt = "demo_alloc 40" and km = "\<lambda>_. None" and cp = demo_copy
        and buf = "umem ''/''" and count = 1 and sc = "\<lambda>_ _ _ r. (0, r)",
        OF demo_kernel_inv demo_kernel_tree demo_finds demo_at(1) _ demo_alloc_fresh demo_kernel_mem _ disjI1 [OF req] readable_umem]
    by auto
qed

end
