(* ===== verification/Fork_Wrapper.thy ===== *)
theory Fork_Wrapper
  imports Proc_Files
begin

text \<open>
  The code that runs around process creation and exit: \<^verbatim>\<open>chos_do_fork\<close>, which the trap makes run in place of
  \<^verbatim>\<open>do_fork\<close>, and \<^verbatim>\<open>my_sys_exit\<close>, \<^verbatim>\<open>my_sys_exit_group\<close>, which replace the exit system calls when the module is
  built with \<^verbatim>\<open>SCT\<close>. The original \<^verbatim>\<open>do_fork\<close>, reached through \<^verbatim>\<open>jumper\<close>, is a parameter: it returns the new pid (or
  a value \<open>\<le> 0\<close>), the task list and the pid lookup of the caller's namespace afterwards, and the state that
  it and every process that ran meanwhile have left.
\<close>

section \<open>Operations\<close>

type_synonym forker = "kernel_state \<Rightarrow> int \<times> tasks \<times> (int \<Rightarrow> tid option) \<times> kernel_state"

definition chos_do_fork :: "tasks \<Rightarrow> tid \<Rightarrow> forker \<Rightarrow> kernel_state \<Rightarrow>
    (fault + int \<times> tasks \<times> kernel_state) option" where
  "chos_do_fork ts current jumper s =
     Option.bind (lookup_link ts (Some current) s) (\<lambda>r.
       case r of
         Inl e \<Rightarrow> Some (Inl e)
       | Inr (parent_link, s1) \<Rightarrow>
          (case jumper s1 of (pid, ts2, find_task_by_pid_ns, s2) \<Rightarrow>
             if 0 < pid then
               (case find_task_by_pid_ns pid of
                  None \<Rightarrow> Some (Inr (pid, ts2, s2))
                | Some t \<Rightarrow> Some (ebind (set_link ts2 parent_link (Some t) s2) (\<lambda>s3. Inr (pid, ts2, s3))))
             else
               Option.bind (lookup_link ts2 (Some current) s2) (\<lambda>r.
                 Some (ebind r (\<lambda>(_, s3). Inr (pid, ts2, s3))))))"

text \<open>\<^verbatim>\<open>list_for_each(list, &current->children) lookup_link(task);\<close>\<close>

primrec exit_loop :: "tasks \<Rightarrow> tid list \<Rightarrow> kernel_state \<Rightarrow> (fault + kernel_state) option" where
  "exit_loop ts [] s = Some (Inr s)"
| "exit_loop ts (task # list) s =
     Option.bind (lookup_link ts (Some task) s) (\<lambda>r.
       case r of Inl e \<Rightarrow> Some (Inl e) | Inr (_, s1) \<Rightarrow> exit_loop ts list s1)"

definition my_sys_exit :: "tasks \<Rightarrow> tid list \<Rightarrow> (kernel_state \<Rightarrow> 'r) \<Rightarrow> kernel_state \<Rightarrow> (fault + 'r) option" where
  "my_sys_exit ts children orig_sys_exit s =
     Option.bind (exit_loop ts children s) (\<lambda>r. Some (ebind r (\<lambda>s1. Inr (orig_sys_exit s1))))"

definition my_sys_exit_group :: "tasks \<Rightarrow> tid list \<Rightarrow> (kernel_state \<Rightarrow> 'r) \<Rightarrow> kernel_state \<Rightarrow> (fault + 'r) option" where
  "my_sys_exit_group ts children orig_sys_exit_group s =
     Option.bind (exit_loop ts children s) (\<lambda>r. Some (ebind r (\<lambda>s1. Inr (orig_sys_exit_group s1))))"

section \<open>What a lookup leaves in the slot of the task\<close>

lemma walk_own:
  assumes w: "walk_ok ts s (Some a) lk s'" and a: "ts a = Some k" "1 < tpid k" "tpid k < length (procs s)"
    and r: "inherits ts (view s) (Some a) r"
  shows "own (view s') k = r"
proof (cases lk)
  case None
  have inh: "inherits ts (view s') (Some a) r" using w r by (simp add: walk_ok_def)
  have "inherits ts (view s) (Some a) None" using w None by (simp add: walk_ok_def)
  with r have "r = None" using inherits_det by blast
  with inh a show ?thesis using inherits_task [of ts a k "view s'" r] by (cases "own (view s') k") simp_all
next
  case (Some l)
  have slot: "procs s' ! tpid k = \<lparr>plink = Some l, pstart = tstart k\<rparr>" and len: "length (procs s') = length (procs s)"
    and r': "inherits ts (view s) (Some a) (Some (link_string s' l))"
    using w a Some by (simp_all add: walk_ok_def frame)
  have "own (view s') k = Some (link_string s' l)" using slot len a(3) by (simp add: own_def view_def)
  with inherits_det [OF r r'] show ?thesis by simp
qed

lemma lookup_kernel:
  assumes inv: "kernel_inv s" and tree: "task_tree (length (procs s)) ts" and a: "ts a \<noteq> None"
  obtains lk s' where "lookup_link ts (Some a) s = Some (Inr (lk, s'))" "walk_ok ts s (Some a) lk s'" "kernel_inv s'"
    "length (procs s') = length (procs s)"
proof -
  have li: "link_inv s" using inv by (simp add: kernel_inv_def)
  obtain lk s' where "lookup_link ts (Some a) s = Some (Inr (lk, s'))" "walk_ok ts s (Some a) lk s'"
    using lookup_link_ok [OF tree li, of "Some a"] a by auto
  with that walk_ok_kernel [OF _ inv] show ?thesis by blast
qed

section \<open>Forking\<close>

text \<open>
  The last step of \<^verbatim>\<open>chos_do_fork\<close>: recording the parent's link for a child whose slot is not the only
  one that holds it.
\<close>

lemma give_link:
  assumes inv: "kernel_inv s" and c: "ts c = Some k" "tpid k < length (procs s)"
    and held: "\<And>l. lk = Some l \<Longrightarrow> \<exists>j < length (procs s). j \<noteq> tpid k \<and> plink (procs s ! j) = Some l"
  obtains s' where "set_link ts lk (Some c) s = Inr s'" "kernel_inv s'" "shrinks s s'"
    "view s' = (view s)(tpid k := map_option (\<lambda>l. (link_string s l, tstart k)) lk)"
proof -
  have li: "link_inv s" and pa: "path_inv s" and orp: "orphans s = {}"
    using inv by (simp_all add: kernel_inv_def)
  have pre: "links s l \<noteq> None \<and> (plink (procs s ! tpid k) = Some l \<longrightarrow> 2 \<le> refs s l)" if l: "lk = Some l" for l
  proof -
    obtain j where j: "j < length (procs s)" "j \<noteq> tpid k" "plink (procs s ! j) = Some l" using held [OF l] by blast
    then show ?thesis
      using link_invD(3) [OF li j(1,3)] two_slots_length_filter [OF c(2) j(1)] unfolding refs_def by auto
  qed
  obtain s' where s': "set_link ts lk (Some c) s = Inr s'" "link_inv s'" "shrinks s s'"
      "view s' = (view s)(tpid k := map_option (\<lambda>l. (link_string s l, tstart k)) lk)"
      "orphans s' = orphans s - set_option lk"
    using set_link_refines [of s ts c k lk, OF li c pre] by metis
  with that orp shrinks_path(1) [OF s'(3) pa] show ?thesis by (simp add: kernel_inv_def)
qed

lemma fork_child:
  assumes inv: "kernel_inv s" and tree: "task_tree (length (procs s)) ts" and t: "ts current = Some t" "1 < tpid t"
    and fork: "\<And>s1. jumper s1 = (pid, ts(c \<mapsto> k), find_ns, s1)" "0 < pid" "find_ns pid = Some c"
    and c: "c \<noteq> current" "1 < tpid k" and tree2: "task_tree (length (procs s)) (ts(c \<mapsto> k))"
    and r: "inherits ts (view s) (Some current) r"
  obtains s3 where "chos_do_fork ts current jumper s = Some (Inr (pid, ts(c \<mapsto> k), s3))" "kernel_inv s3"
    "shrinks s s3" "own (view s3) k = r"
    "\<And>u k' r. ts u = Some k' \<Longrightarrow> u \<noteq> c \<Longrightarrow> 1 < tpid k' \<Longrightarrow>
       own (view s3) k' = own (view s) k' \<or>
       own (view s) k' = None \<and> (\<exists>x. own (view s3) k' = Some x \<and> inherits ts (view s) (Some u) (Some x))"
proof -
  have pk: "tpid k < length (procs s)" using task_treeD(1) [OF tree2, of c k] by simp
  obtain lk s1 where s1: "lookup_link ts (Some current) s = Some (Inr (lk, s1))" "walk_ok ts s (Some current) lk s1"
      "kernel_inv s1" "length (procs s1) = length (procs s)"
    using lookup_kernel [OF inv tree, of current] t(1) by auto
  have neq: "tpid k' \<noteq> tpid k" if "ts u = Some k'" "u \<noteq> c" for u k'
    using task_treeD(2) [OF tree2, of u k' c k] that by auto
  have held: "\<exists>j < length (procs s1). j \<noteq> tpid k \<and> plink (procs s1 ! j) = Some l" if "lk = Some l" for l
    using s1(2) t that task_treeD(1) [OF tree t(1)] neq [OF t(1)] c(1) s1(4)
    by (intro exI [of _ "tpid t"]) (auto simp: walk_ok_def)
  have ck: "(ts(c \<mapsto> k)) c = Some k" "tpid k < length (procs s1)" using pk s1(4) by simp_all
  obtain s3 where s3: "set_link (ts(c \<mapsto> k)) lk (Some c) s1 = Inr s3" "kernel_inv s3" "shrinks s1 s3"
      "view s3 = (view s1)(tpid k := map_option (\<lambda>l. (link_string s1 l, tstart k)) lk)"
    using give_link [of s1 "ts(c \<mapsto> k)" c k lk, OF s1(3) ck held] by metis
  have rr: "r = map_option (link_string s1) lk"
    using s1(2) r inherits_det by (auto simp: walk_ok_def)
  show ?thesis
  proof (rule that)
    show "chos_do_fork ts current jumper s = Some (Inr (pid, ts(c \<mapsto> k), s3))"
      using s1(1) fork s3(1) by (simp add: chos_do_fork_def)
    show "kernel_inv s3" by (rule s3(2))
    have "shrinks s s1" using s1(2) by (simp add: walk_ok_def)
    then show "shrinks s s3" by (rule shrinks_trans [OF _ s3(3)])
    show "own (view s3) k = r" using rr by (cases lk) (simp_all add: own_def s3(4))
    show "own (view s3) k' = own (view s) k' \<or>
        own (view s) k' = None \<and> (\<exists>x. own (view s3) k' = Some x \<and> inherits ts (view s) (Some u) (Some x))"
      if u: "ts u = Some k'" "u \<noteq> c" "1 < tpid k'" for u k' r
    proof -
      have "own (view s3) k' = own (view s1) k'" using neq [OF u(1,2)] by (simp add: own_def s3(4))
      moreover have "caches ts (view s) (view s1)" using s1(2) by (simp add: walk_ok_def)
      ultimately show ?thesis using u(1,3) unfolding caches_def by metis
    qed
  qed
qed

text \<open>A task that is added changes nothing for those that are there.\<close>

lemma inherits_new_task:
  "inherits ts v u r \<Longrightarrow> ts c = None \<Longrightarrow> inherits (ts(c \<mapsto> k)) v u r"
proof (induction rule: inherits.induct)
  case (init a k')
  then show ?case by (intro inherits.init [of _ a k']) auto
next
  case (own a k' x)
  then show ?case by (intro inherits.own [of _ a k']) auto
next
  case (up a k' r)
  then show ?case by (intro inherits.up [of _ a k']) auto
qed simp

section \<open>Exiting\<close>

lemma own_reparent: "own v (k\<lparr>tparent := p\<rparr>) = own v k"
  by (simp add: own_def split: option.split)

lemma exit_loop_ok:
  assumes "kernel_inv s" and "task_tree (length (procs s)) ts" and "\<forall>c \<in> set children. ts c \<noteq> None"
  shows "\<exists>s'. exit_loop ts children s = Some (Inr s') \<and> kernel_inv s' \<and> caches ts (view s) (view s') \<and>
    (\<forall>c k r. c \<in> set children \<longrightarrow> ts c = Some k \<longrightarrow> 1 < tpid k \<longrightarrow> inherits ts (view s) (Some c) r \<longrightarrow>
       own (view s') k = r)"
  using assms
proof (induction children arbitrary: s)
  case Nil
  then show ?case by simp
next
  case (Cons c cs)
  obtain lk s1 where s1: "lookup_link ts (Some c) s = Some (Inr (lk, s1))" "walk_ok ts s (Some c) lk s1" "kernel_inv s1"
      "length (procs s1) = length (procs s)"
    using lookup_kernel [OF Cons.prems(1,2), of c] Cons.prems(3) by auto
  have ch: "caches ts (view s) (view s1)" using s1(2) by (simp add: walk_ok_def)
  obtain s' where s': "exit_loop ts cs s1 = Some (Inr s')" "kernel_inv s'" "caches ts (view s1) (view s')"
      "\<And>d k r. d \<in> set cs \<Longrightarrow> ts d = Some k \<Longrightarrow> 1 < tpid k \<Longrightarrow> inherits ts (view s1) (Some d) r \<Longrightarrow> own (view s') k = r"
    using Cons.IH [OF s1(3)] Cons.prems(2,3) s1(4) by auto
  have same: "inherits ts (view s1) u r \<longleftrightarrow> inherits ts (view s) u r" for u r
    by (rule caches_inherits_iff [OF Cons.prems(2) ch])
  have head: "own (view s') k = r" if k: "ts c = Some k" "1 < tpid k" and r: "inherits ts (view s) (Some c) r" for k r
  proof -
    have "own (view s1) k = r" by (rule walk_own [OF s1(2) k task_treeD(1) [OF Cons.prems(2) k(1)] r])
    moreover have "own (view s') k = own (view s1) k \<or>
        own (view s1) k = None \<and> (\<exists>x. own (view s') k = Some x \<and> inherits ts (view s) (Some c) (Some x))"
      using s'(3) k same unfolding caches_def by metis
    ultimately show ?thesis using inherits_det [OF r] by fastforce
  qed
  have "caches ts (view s) (view s')" by (rule caches_trans [OF Cons.prems(2) ch s'(3)])
  moreover have "own (view s') k = r"
    if "d \<in> set (c # cs)" "ts d = Some k" "1 < tpid k" "inherits ts (view s) (Some d) r" for d k r
    using that head s'(4) same by (cases "d = c") auto
  ultimately show ?case using s1(1) s'(1,2) by auto
qed

lemma fork_inherits:
  assumes inv: "kernel_inv s" and tree: "task_tree (length (procs s)) ts" and t: "ts current = Some t" "1 < tpid t"
    and fork: "\<And>s1. jumper s1 = (pid, ts(c \<mapsto> k), find_ns, s1)" "0 < pid" "find_ns pid = Some c"
    and c: "ts c = None" "1 < tpid k" "tparent k = Some current"
    and tree2: "task_tree (length (procs s)) (ts(c \<mapsto> k))"
    and r: "inherits ts (view s) (Some current) r"
  shows "\<exists>s'. chos_do_fork ts current jumper s = Some (Inr (pid, ts(c \<mapsto> k), s')) \<and> kernel_inv s' \<and> length (procs s') = length (procs s) \<and>
    own (view s') k = r \<and> inherits (ts(c \<mapsto> k)) (view s') (Some c) r \<and>
    (\<forall>u q. inherits ts (view s') u q \<longleftrightarrow> inherits ts (view s) u q)"
proof -
  have neq: "c \<noteq> current" using c(1) t(1) by auto
  obtain s' where s': "chos_do_fork ts current jumper s = Some (Inr (pid, ts(c \<mapsto> k), s'))" "kernel_inv s'"
      "shrinks s s'" "own (view s') k = r"
      "\<And>u k'. ts u = Some k' \<Longrightarrow> u \<noteq> c \<Longrightarrow> 1 < tpid k' \<Longrightarrow> own (view s') k' = own (view s) k' \<or>
         own (view s) k' = None \<and> (\<exists>x. own (view s') k' = Some x \<and> inherits ts (view s) (Some u) (Some x))"
    using fork_child [OF inv tree t fork neq c(2) tree2 r] by metis
  have "\<forall>u k'. ts u = Some k' \<longrightarrow> u \<noteq> c" using c(1) by auto
  then have "caches ts (view s) (view s')" unfolding caches_def using s'(5) by metis
  then have same: "inherits ts (view s') u q \<longleftrightarrow> inherits ts (view s) u q" for u q
    by (rule caches_inherits_iff [OF tree])
  have up: "inherits (ts(c \<mapsto> k)) (view s') (Some current) r"
    using inherits_new_task [of ts "view s'" "Some current" r c k] c(1) same r by blast
  have "inherits (ts(c \<mapsto> k)) (view s') (Some c) r"
    using inherits_task [of "ts(c \<mapsto> k)" c k "view s'" r] up c(2,3) s'(4) by (cases r) simp_all
  with s' same shrinksD(1) [OF s'(3)] show ?thesis by blast
qed

section \<open>Properties\<close>

text \<open>
  C26. When \<^verbatim>\<open>do_fork\<close> creates a child and nothing else runs meanwhile, \<^verbatim>\<open>chos_do_fork\<close> returns the child's pid
  and leaves a well-formed state in which the child has an entry of its own with exactly what the parent had,
  so that it has it whether or not the parent stays, and every older process has what it had.
\<close>

theorem fork_gives_link:
  assumes inv: "kernel_inv s" and tree: "task_tree (length (procs s)) ts" and t: "ts current = Some t" "1 < tpid t"
    and fork: "\<And>s1. jumper s1 = (pid, ts(c \<mapsto> k), find_ns, s1)" "0 < pid" "find_ns pid = Some c"
    and c: "ts c = None" "1 < tpid k" "tparent k = Some current"
    and tree2: "task_tree (length (procs s)) (ts(c \<mapsto> k))"
    and r: "inherits ts (view s) (Some current) r"
  shows "\<exists>s'. chos_do_fork ts current jumper s = Some (Inr (pid, ts(c \<mapsto> k), s')) \<and> kernel_inv s' \<and>
    own (view s') k = r \<and> inherits (ts(c \<mapsto> k)) (view s') (Some c) r \<and>
    (\<forall>u q. inherits ts (view s') u q \<longleftrightarrow> inherits ts (view s) u q)"
  using fork_inherits [OF assms] by blast

definition demo_child :: task_struct where
  "demo_child = \<lparr>tpid = 4, tstart = 300, tparent = Some 5, tfs = 3, tcred = 1\<rparr>"

definition demo_fork :: forker where
  "demo_fork s = (4, demo_tasks(7 \<mapsto> demo_child), (\<lambda>_. Some 7), s)"

lemma demo_fork_tree: "task_tree (length (procs demo_kernel)) (demo_tasks(7 \<mapsto> demo_child))"
proof -
  have "\<exists>d :: tid \<Rightarrow> nat. \<forall>a k p. (demo_tasks(7 \<mapsto> demo_child)) a = Some k \<longrightarrow> 1 < tpid k \<longrightarrow>
      tparent k = Some p \<longrightarrow> d p < d a"
    by (rule exI [of _ "\<lambda>a. a"]) (auto simp: demo_tasks_def demo_child_def split: if_splits)
  then show ?thesis
    unfolding task_tree_def demo_kernel_length by (auto simp: demo_tasks_def demo_child_def split: if_splits)
qed

lemma demo_shell_inherits: "inherits demo_tasks (view demo_kernel) (Some 5) (Some ''/os/sl6'')"
  by (rule inherits.own [of demo_tasks 5, OF demo_at(1)]) (simp_all add: own_def demo_kernel_link demo_view)

theorem fork_gives_link_witness:
  "\<exists>s'. chos_do_fork demo_tasks 5 demo_fork demo_kernel = Some (Inr (4, demo_tasks(7 \<mapsto> demo_child), s')) \<and>
     kernel_inv s' \<and> own (view s') demo_child = Some ''/os/sl6''"
proof -
  have "\<exists>s'. chos_do_fork demo_tasks 5 demo_fork demo_kernel = Some (Inr (4, demo_tasks(7 \<mapsto> demo_child), s')) \<and>
      kernel_inv s' \<and> own (view s') demo_child = Some ''/os/sl6'' \<and>
      inherits (demo_tasks(7 \<mapsto> demo_child)) (view s') (Some 7) (Some ''/os/sl6'') \<and>
      (\<forall>u q. inherits demo_tasks (view s') u q \<longleftrightarrow> inherits demo_tasks (view demo_kernel) u q)"
    by (rule fork_gives_link [OF demo_kernel_inv demo_kernel_tree demo_at(1) _ _ _ _ _ _ _ demo_fork_tree demo_shell_inherits])
      (simp_all add: demo_fork_def demo_child_def demo_tasks_def)
  then show ?thesis by blast
qed

text \<open>
  C28. On exit with the system calls replaced, every child is given the link it inherits as an entry of its own
  before the parent goes: once the children have been handed to the init task, each has exactly
  what it had before.
\<close>

theorem exit_keeps_children:
  assumes inv: "kernel_inv s" and tree: "task_tree (length (procs s)) ts"
    and children: "\<forall>c \<in> set children. ts c \<noteq> None" and i: "ts2 i = Some ki" "tpid ki \<le> 1"
  shows "\<exists>s'. my_sys_exit ts children orig s = Some (Inr (orig s')) \<and>
    my_sys_exit_group ts children orig s = Some (Inr (orig s')) \<and> kernel_inv s' \<and>
    (\<forall>c k r. c \<in> set children \<longrightarrow> ts c = Some k \<longrightarrow> ts2 c = Some (k\<lparr>tparent := Some i\<rparr>) \<longrightarrow>
       inherits ts (view s) (Some c) r \<longrightarrow> inherits ts2 (view s') (Some c) r)"
proof -
  obtain s' where s': "exit_loop ts children s = Some (Inr s')" "kernel_inv s'"
      "\<And>c k r. c \<in> set children \<Longrightarrow> ts c = Some k \<Longrightarrow> 1 < tpid k \<Longrightarrow> inherits ts (view s) (Some c) r \<Longrightarrow>
         own (view s') k = r"
    using exit_loop_ok [OF inv tree children] by blast
  have "inherits ts2 (view s') (Some c) r"
    if c: "c \<in> set children" "ts c = Some k" "ts2 c = Some (k\<lparr>tparent := Some i\<rparr>)" "inherits ts (view s) (Some c) r" for c k r
  proof (cases "1 < tpid k")
    case True
    then have "own (view s') (k\<lparr>tparent := Some i\<rparr>) = r" using s'(3) [OF c(1,2) _ c(4)] own_reparent by simp
    with True i c(3) show ?thesis by (cases r) (simp_all add: inherits_task)
  next
    case False
    with c(2-4) show ?thesis by (simp add: inherits_task)
  qed
  with s'(1,2) show ?thesis by (auto simp: my_sys_exit_def my_sys_exit_group_def)
qed

theorem exit_keeps_children_witness:
  "\<exists>s'. my_sys_exit demo_tasks [6] (\<lambda>s. s) demo_kernel = Some (Inr s') \<and> kernel_inv s' \<and>
     inherits (demo_tasks(5 := None, 6 \<mapsto> \<lparr>tpid = 3, tstart = 200, tparent = Some 0, tfs = 2, tcred = 1\<rparr>))
       (view s') (Some 6) (Some ''/os/sl6'')"
proof -
  let ?ts2 = "demo_tasks(5 := None, 6 \<mapsto> \<lparr>tpid = 3, tstart = 200, tparent = Some 0, tfs = 2, tcred = 1\<rparr>)"
  have inh: "inherits demo_tasks (view demo_kernel) (Some 6) (Some ''/os/sl6'')"
    using demo_shell_inherits inherits_task [of demo_tasks 6, OF demo_at(2)]
    by (simp add: own_def demo_kernel_link demo_view)
  have i: "?ts2 0 = Some \<lparr>tpid = 1, tstart = 1, tparent = None, tfs = 0, tcred = 0\<rparr>"
    by (simp add: demo_tasks_def)
  show ?thesis
    using exit_keeps_children [of demo_kernel demo_tasks "[6]" ?ts2 0, OF demo_kernel_inv demo_kernel_tree _ i, of "\<lambda>s. s"]
      demo_at(2) inh by fastforce
qed

text \<open>
  A forked child keeps the path it was born with: whatever the parent writes to \<^verbatim>\<open>setchos\<close> after the fork, a
  child of a parent that had a path still has that path.
\<close>

theorem fork_child_keeps_link:
  assumes inv: "kernel_inv s" and tree: "task_tree (length (procs s)) ts" and t: "ts current = Some t" "1 < tpid t"
    and fork: "\<And>s1. jumper s1 = (pid, ts(c \<mapsto> k), find_ns, s1)" "0 < pid" "find_ns pid = Some c"
    and c: "c \<noteq> current" "1 < tpid k" and tree2: "task_tree (length (procs s)) (ts(c \<mapsto> k))"
    and x: "inherits ts (view s) (Some current) (Some x)"
    and f: "finds (ts(c \<mapsto> k)) find_task" and km: "fresh_alloc kmt" "fresh_alloc km" and rd: "readable buf count"
  shows "\<exists>s1 ret s2. chos_do_fork ts current jumper s = Some (Inr (pid, ts(c \<mapsto> k), s1)) \<and>
    write_setchos (ts(c \<mapsto> k)) find_task current sc kmt km cp buf count s1 = Inr (ret, s2) \<and>
    kernel_inv s2 \<and> inherits (ts(c \<mapsto> k)) (view s2) (Some c) (Some x)"
proof -
  obtain s1 where s1: "chos_do_fork ts current jumper s = Some (Inr (pid, ts(c \<mapsto> k), s1))" "kernel_inv s1"
      "shrinks s s1" "own (view s1) k = Some x"
    using fork_child [OF inv tree t fork c tree2 x] by metis
  let ?ts = "ts(c \<mapsto> k)"
  have tree3: "task_tree (length (procs s1)) ?ts" using tree2 shrinksD(1) [OF s1(3)] by simp
  have tt: "?ts current = Some t" "?ts c = Some k" using t(1) c(1) by simp_all
  obtain ret s2 where s2: "write_setchos ?ts find_task current sc kmt km cp buf count s1 = Inr (ret, s2)" "kernel_inv s2"
      "own (view s2) k = own (view s1) k"
    using setchos_own [of s1 ?ts find_task current t kmt km c k buf count sc cp, OF s1(2) tree3 f tt(1) km tt(2) c(1) rd]
    by blast
  have "inherits ?ts (view s2) (Some c) (Some x)"
    using inherits.own [of ?ts c k "view s2" x] tt(2) c(2) s2(3) s1(4) by simp
  with s1 s2 show ?thesis by blast
qed

definition demo_find_fork :: "nat \<Rightarrow> tid option" where
  "demo_find_fork i = (if i = 4 then Some 7 else demo_find i)"

lemma demo_fork_finds: "finds (demo_tasks(7 \<mapsto> demo_child)) demo_find_fork"
  by (auto simp: finds_def demo_tasks_def demo_find_fork_def demo_find_def demo_child_def split: if_splits)

theorem fork_child_keeps_link_witness:
  "\<exists>s1 ret s2. chos_do_fork demo_tasks 5 demo_fork demo_kernel = Some (Inr (4, demo_tasks(7 \<mapsto> demo_child), s1)) \<and>
     write_setchos (demo_tasks(7 \<mapsto> demo_child)) demo_find_fork 5 (\<lambda>_ _ _ r. (0, r)) (demo_alloc 40) (demo_alloc 50)
       demo_copy (umem ''/'') 1 s1 = Inr (ret, s2) \<and>
     kernel_inv s2 \<and> inherits (demo_tasks(7 \<mapsto> demo_child)) (view s2) (Some 7) (Some ''/os/sl6'')"
  by (rule fork_child_keeps_link [OF demo_kernel_inv demo_kernel_tree demo_at(1) _ _ _ _ _ _ demo_fork_tree
        demo_shell_inherits demo_fork_finds demo_alloc_fresh demo_alloc_fresh])
    (simp_all add: demo_fork_def demo_child_def)

text \<open>
  A child of a parent without a path has no entry of its own after the fork, so it is not shielded in
  the same way: when the parent sets a path later, the child has that path too.
\<close>

theorem fork_unset_child_follows:
  assumes inv: "kernel_inv s" and tree: "task_tree (length (procs s)) ts" and t: "ts current = Some t" "1 < tpid t"
    and fork: "\<And>s1. jumper s1 = (pid, ts(c \<mapsto> k), find_ns, s1)" "0 < pid" "find_ns pid = Some c"
    and c: "c \<noteq> current" "1 < tpid k" "tparent k = Some current"
    and tree2: "task_tree (length (procs s)) (ts(c \<mapsto> k))"
    and none: "inherits ts (view s) (Some current) None"
    and f: "finds (ts(c \<mapsto> k)) find_task" and km: "fresh_alloc kmt" "fresh_alloc km"
    and mem: "text_memory kmt s" "link_memory km s"
    and x: "requested cp buf count = ''/'' \<or> requested cp buf count \<in> set (valid_strings s)" and rd: "readable buf count"
  shows "\<exists>s1 s2. chos_do_fork ts current jumper s = Some (Inr (pid, ts(c \<mapsto> k), s1)) \<and>
    write_setchos (ts(c \<mapsto> k)) find_task current sc kmt km cp buf count s1 = Inr (int count, s2) \<and>
    inherits (ts(c \<mapsto> k)) (view s2) (Some c) (Some (requested cp buf count))"
proof -
  obtain s1 where s1: "chos_do_fork ts current jumper s = Some (Inr (pid, ts(c \<mapsto> k), s1))" "kernel_inv s1"
      "shrinks s s1" "own (view s1) k = None"
    using fork_child [OF inv tree t fork c(1,2) tree2 none] by metis
  let ?ts = "ts(c \<mapsto> k)" and ?x = "requested cp buf count"
  have tree3: "task_tree (length (procs s1)) ?ts" using tree2 shrinksD(1) [OF s1(3)] by simp
  have tt: "?ts current = Some t" "?ts c = Some k" using t(1) c(1) by simp_all
  note mem1 = memory_shrinks [OF s1(3)]
  have x1: "?x = ''/'' \<or> ?x \<in> set (valid_strings s1)"
    using x shrinks_path(2) [OF s1(3)] inv by (simp add: kernel_inv_def)
  obtain s2 where s2: "write_setchos ?ts find_task current sc kmt km cp buf count s1 = Inr (int count, s2)"
      "\<forall>r. inherits ?ts (view s2) (Some current) r \<longleftrightarrow> r = Some ?x"
    using setchos_accepted [OF s1(2) tree3 f tt(1) t(2) km mem1(1) [OF mem(1)] mem1(2) [OF mem(2)] x1 rd, of sc] by blast
  have "own (view s2) k = own (view s1) k"
    using setchos_own [of s1 ?ts find_task current t kmt km c k buf count sc cp, OF s1(2) tree3 f tt(1) km tt(2) c(1) rd] s2(1)
    by simp
  with s1(4) s2(2) have "inherits ?ts (view s2) (Some c) (Some ?x)"
    using inherits.up [of ?ts c k "view s2" "Some ?x"] tt(2) c(2,3) by simp
  with s1(1) s2(1) show ?thesis by blast
qed

definition demo_idle :: kernel_state where
  "demo_idle = demo_kernel\<lparr>links := (\<lambda>_. None), procs := replicate 5 \<lparr>plink = None, pstart = - 1\<rparr>\<rparr>"

lemma demo_idle_inv: "kernel_inv demo_idle"
proof -
  have "refs demo_idle l = 0" for l by (simp add: refs_def demo_idle_def)
  moreover have "texts demo_idle = {}" by (simp add: texts_def demo_idle_def)
  ultimately show ?thesis
    unfolding kernel_inv_def link_inv_def path_inv_def orphans_def
    by (simp add: demo_idle_def demo_kernel_def demo_bufs_def)
qed

lemma demo_idle_fields:
  "length (procs demo_idle) = length (procs demo_kernel)" "valid_strings demo_idle = valid_strings demo_kernel"
  "bufs demo_idle = bufs demo_kernel" "links demo_idle l = None" "view demo_idle i = None"
  by (simp_all add: demo_idle_def demo_kernel_length valid_strings_def view_def)

lemma demo_idle_inherits: "inherits demo_tasks (view demo_idle) (Some 5) None"
proof (rule inherits.up [of demo_tasks 5, OF demo_at(1)])
  show "inherits demo_tasks (view demo_idle) (tparent \<lparr>tpid = 2, tstart = 100, tparent = Some 0, tfs = 1, tcred = 1\<rparr>) None"
    using inherits.init [of demo_tasks 0] by (simp add: demo_tasks_def)
qed (simp_all add: own_def demo_idle_fields)

theorem fork_unset_child_follows_witness:
  "\<exists>s1 s2. chos_do_fork demo_tasks 5 demo_fork demo_idle = Some (Inr (4, demo_tasks(7 \<mapsto> demo_child), s1)) \<and>
     write_setchos (demo_tasks(7 \<mapsto> demo_child)) demo_find_fork 5 (\<lambda>_ _ _ r. (0, r)) (demo_alloc 40) (demo_alloc 50)
       demo_copy (umem ''/os/sl6'') 7 s1 = Inr (7, s2) \<and>
     inherits (demo_tasks(7 \<mapsto> demo_child)) (view s2) (Some 7) (Some ''/os/sl6'')"
proof -
  let ?buf = "umem ''/os/sl6''"
  have line: "line_end ?buf 7 0 = 7" by (simp add: line_end.simps umem_def)
  have u: "ubytes ?buf 7 = ''/os/sl6''" by (simp add: ubytes_def umem_def upt_rec)
  have req: "requested demo_copy ?buf 7 = ''/os/sl6''" by (simp add: requested_def line u demo_copy_def)
  have "bufs demo_idle 40 = None" by (simp add: demo_idle_fields) (simp add: demo_kernel_def demo_bufs_def)
  then have mem: "text_memory (demo_alloc 40) demo_idle" "link_memory (demo_alloc 50) demo_idle"
    by (auto simp: text_memory_def link_memory_def demo_alloc_def demo_idle_fields(4))
  have tree: "task_tree (length (procs demo_idle)) demo_tasks"
      "task_tree (length (procs demo_idle)) (demo_tasks(7 \<mapsto> demo_child))"
    unfolding demo_idle_fields by (rule demo_kernel_tree demo_fork_tree)+
  have "\<exists>s1 s2. chos_do_fork demo_tasks 5 demo_fork demo_idle = Some (Inr (4, demo_tasks(7 \<mapsto> demo_child), s1)) \<and>
     write_setchos (demo_tasks(7 \<mapsto> demo_child)) demo_find_fork 5 (\<lambda>_ _ _ r. (0, r)) (demo_alloc 40) (demo_alloc 50)
       demo_copy ?buf 7 s1 = Inr (int 7, s2) \<and>
     inherits (demo_tasks(7 \<mapsto> demo_child)) (view s2) (Some 7) (Some (requested demo_copy ?buf 7))"
    by (rule fork_unset_child_follows [OF demo_idle_inv tree(1) demo_at(1) _ _ _ _ _ _ _ tree(2)
          demo_idle_inherits demo_fork_finds demo_alloc_fresh demo_alloc_fresh mem])
      (simp_all add: demo_fork_def demo_child_def req demo_idle_fields(2) demo_kernel_strings)
  then show ?thesis by (simp add: req)
qed

text \<open>
  The parent's part of a fork runs after the child may have: a path that the child set for itself before
  the parent came back from \<^verbatim>\<open>do_fork\<close> is overwritten by the parent's.
\<close>

theorem fork_race_overwrites:
  assumes look: "lookup_link ts (Some current) s = Some (Inr (Some l, s1))"
    and fork: "jumper s1 = (pid, ts2, find_ns, s2)" "0 < pid" "find_ns pid = Some c"
    and inv: "kernel_inv s2" and c: "ts2 c = Some k" "tpid k < length (procs s2)"
    and held: "j < length (procs s2)" "j \<noteq> tpid k" "plink (procs s2 ! j) = Some l"
  shows "\<exists>s3. chos_do_fork ts current jumper s = Some (Inr (pid, ts2, s3)) \<and> kernel_inv s3 \<and>
    own (view s3) k = Some (link_string s2 l)"
proof -
  have "\<exists>j < length (procs s2). j \<noteq> tpid k \<and> plink (procs s2 ! j) = Some l'" if "Some l = Some l'" for l'
    using held that by auto
  then obtain s3 where s3: "set_link ts2 (Some l) (Some c) s2 = Inr s3" "kernel_inv s3"
      "view s3 = (view s2)(tpid k := Some (link_string s2 l, tstart k))"
    using give_link [of s2 ts2 c k "Some l", OF inv c] by auto
  then have "own (view s3) k = Some (link_string s2 l)" by (simp add: own_def)
  with look fork s3 show ?thesis by (simp add: chos_do_fork_def)
qed

lemma demo_lookup: "lookup_link demo_tasks (Some 5) demo_kernel = Some (Inr (Some 10, demo_kernel))"
  by (simp add: lookup_link.simps [of demo_tasks "Some 5"] demo_at(1)) (simp add: demo_kernel_def demo_procs_def)

theorem fork_race_overwrites_witness:
  "\<exists>s2 s3. own (view s2) \<lparr>tpid = 3, tstart = 200, tparent = Some 5, tfs = 2, tcred = 1\<rparr> = Some ''/os/sl5'' \<and>
     chos_do_fork demo_tasks 5 (\<lambda>_. (3, demo_tasks, (\<lambda>_. Some 6), s2)) demo_kernel = Some (Inr (3, demo_tasks, s3)) \<and>
     own (view s3) \<lparr>tpid = 3, tstart = 200, tparent = Some 5, tfs = 2, tcred = 1\<rparr> = Some ''/os/sl6''"
proof -
  let ?k = "\<lparr>tpid = 3, tstart = 200, tparent = Some 5, tfs = 2, tcred = 1\<rparr>"
  have slots: "plink (procs demo_kernel ! 4) = Some 11" "plink (procs demo_kernel ! 2) = Some 10" "tpid ?k = 3"
    "link_string demo_kernel 11 = ''/os/sl5''" "link_string demo_kernel 10 = ''/os/sl6''"
    by (simp_all add: demo_kernel_def demo_procs_def link_string_def demo_links_def demo_bufs_def)
  have "\<exists>j < length (procs demo_kernel). j \<noteq> tpid ?k \<and> plink (procs demo_kernel ! j) = Some l" if "Some 11 = Some l" for l
    using slots that by (intro exI [of _ 4]) (simp add: demo_kernel_length)
  then obtain s2 where s2: "set_link demo_tasks (Some 11) (Some 6) demo_kernel = Inr s2" "kernel_inv s2" "shrinks demo_kernel s2"
      "view s2 = (view demo_kernel)(3 := Some (''/os/sl5'', 200))"
    using give_link [of demo_kernel demo_tasks 6 ?k "Some 11", OF demo_kernel_inv demo_at(2)]
    by (auto simp: demo_kernel_length slots)
  have len: "length (procs s2) = 5" using s2(3) by (simp add: shrinksD(1) demo_kernel_length)
  have s2eq: "s2 = demo_kernel\<lparr>links := (links demo_kernel)(11 \<mapsto> \<lparr>ltext = 21, lcount = 2\<rparr>),
      procs := (procs demo_kernel)[3 := \<lparr>plink = Some 11, pstart = 200\<rparr>]\<rparr>"
    using s2(1) by (simp add: set_link_def demo_at(2))
      (simp add: demo_kernel_def demo_procs_def atomic_add_def demo_links_def)
  have slot2: "plink (procs s2 ! 2) = Some 10" and text2: "link_string s2 10 = ''/os/sl6''"
    unfolding s2eq by (simp_all add: slots) (simp add: demo_kernel_def link_string_def demo_links_def demo_bufs_def)
  have before: "own (view s2) ?k = Some ''/os/sl5''" using s2(4) by (simp add: own_def)
  have "\<exists>s3. chos_do_fork demo_tasks 5 (\<lambda>_. (3, demo_tasks, (\<lambda>_. Some 6), s2)) demo_kernel =
      Some (Inr (3, demo_tasks, s3)) \<and> kernel_inv s3 \<and> own (view s3) ?k = Some (link_string s2 10)"
    by (rule fork_race_overwrites [where j = 2 and l = 10 and pid = 3 and ?ts2.0 = demo_tasks and c = 6, OF demo_lookup _ _ _ s2(2) demo_at(2)])
      (simp_all add: len slot2)
  with before text2 show ?thesis by auto
qed

text \<open>
  \<^verbatim>\<open>chos_do_fork\<close> keeps the parent's link across the call of \<^verbatim>\<open>do_fork\<close> without counting a reference. When
  the last counted reference goes away meanwhile, it uses the link after it has been freed.
\<close>

theorem fork_race_use_after_free:
  assumes look: "lookup_link ts (Some current) s = Some (Inr (Some l, s1))"
    and fork: "jumper s1 = (pid, ts2, find_ns, s2)" "0 < pid" "find_ns pid = Some c"
    and inv: "kernel_inv s2" and c: "ts2 c = Some k" "tpid k < length (procs s2)" and freed: "links s2 l = None"
  shows "chos_do_fork ts current jumper s = Some (Inl Use_After_Free)"
proof -
  have li: "link_inv s2" using inv by (simp add: kernel_inv_def)
  obtain s3 where s3: "reset_link (tpid k) s2 = Inr s3" "shrinks s2 s3"
    using reset_link_refines [OF li c(2)] by metis
  have "links s3 l = None" using shrinksD(4) [OF s3(2), of l] freed by blast
  then have "set_link ts2 (Some l) (Some c) s2 = Inl Use_After_Free"
    using c s3(1) freed link_invD(1) [OF li] by (simp add: set_link_def atomic_add_def)
  with look fork show ?thesis by (simp add: chos_do_fork_def)
qed

theorem fork_race_use_after_free_witness:
  "chos_do_fork demo_tasks 5 (\<lambda>_. (3, demo_tasks, (\<lambda>_. Some 6), demo_idle)) demo_kernel = Some (Inl Use_After_Free)"
  by (rule fork_race_use_after_free [where l = 10 and pid = 3 and ?ts2.0 = demo_tasks and c = 6, OF demo_lookup _ _ _ demo_idle_inv demo_at(2)])
    (simp_all add: demo_idle_fields demo_kernel_length)

end
