(* ===== verification/Fork_Trap.thy ===== *)
theory Fork_Trap
  imports Chos_Prelude
begin

unbundle bit_operations_syntax

text \<open>
  The trap on \<^verbatim>\<open>do_fork\<close> of \<^verbatim>\<open>kernel/chos_lkm.c\<close>: \<^verbatim>\<open>init_do_fork\<close> overwrites the first instructions of the
  kernel's \<^verbatim>\<open>do_fork\<close> by a jump to the module's \<^verbatim>\<open>chos_do_fork\<close> after it has copied them to \<^verbatim>\<open>jumper\<close>, followed
  by a jump back, and \<^verbatim>\<open>cleanup_do_fork\<close> copies them back. Memory is a function from 64-bit addresses
  to bytes; the page table entry of the patched page is kept beside it, and a store to the kernel's code through an entry
  without the writable bit is a fault. The patched bytes are taken to lie in the page of \<^verbatim>\<open>START_ADD\<close>, the only one whose
  entry the module changes; \<^verbatim>\<open>jumper\<close> is data of the module and writable. The addresses and the expected
  instructions, which the build puts into \<^verbatim>\<open>address.h\<close>, are a record of parameters. The platform is x86-64:
  \<^verbatim>\<open>long\<close> has eight bytes, stored little-endian.
\<close>

section \<open>Memory and parameters\<close>

type_synonym memory = "64 word \<Rightarrow> 8 word"

record trap_config =
  START_ADD :: "64 word"
  CODE_LENGTH :: nat
  opcode :: "8 word list"
  jumper :: "64 word"
  jumper_func :: "64 word"
  wrapper :: "64 word"
  SET_MEMORY_SUPPORT :: bool

text \<open>
  \<open>CODE_LENGTH\<close> is the macro \<^verbatim>\<open>LENGTH\<close>, \<open>wrapper\<close> the address of \<^verbatim>\<open>chos_do_fork\<close>, and \<open>SET_MEMORY_SUPPORT\<close> tells whether
  \<^verbatim>\<open>chos.h\<close> defines \<^verbatim>\<open>HAS_SET_MEMORY_SUPPORT\<close>. The kernel's \<^verbatim>\<open>set_memory_x\<close> is not part of the module: the state records the
  calls to it, an address and a number of pages each.
\<close>

definition END_ADD :: "trap_config \<Rightarrow> 64 word" where
  "END_ADD c = START_ADD c + of_nat (CODE_LENGTH c)"

record text_state =
  mem :: memory
  pte :: "64 word"
  set_x :: "(64 word \<times> nat) list"

text \<open>What C does with memory: \<^verbatim>\<open>memcpy\<close> and the assignment of a \<^verbatim>\<open>long\<close>.\<close>

definition memcpy :: "64 word \<Rightarrow> 64 word \<Rightarrow> nat \<Rightarrow> memory \<Rightarrow> memory" where
  "memcpy dst src n m = (\<lambda>a. if unat (a - dst) < n then m (src + (a - dst)) else m a)"

definition store_long :: "64 word \<Rightarrow> 64 word \<Rightarrow> memory \<Rightarrow> memory" where
  "store_long a v m = (\<lambda>x. if unat (x - a) < 8 then ucast (drop_bit (8 * unat (x - a)) v) else m x)"

section \<open>Operations\<close>

abbreviation PAGE_RW :: "64 word" where "PAGE_RW \<equiv> 2"

definition set_pteval :: "64 word \<Rightarrow> text_state \<Rightarrow> 64 word \<times> text_state" where
  "set_pteval pteval x =
     (let old_pte = pte x
      in if pteval = PAGE_RW then
           (old_pte, if pte x AND PAGE_RW = 0 then x\<lparr>pte := pte x OR PAGE_RW\<rparr> else x)
         else (old_pte, if pte x \<noteq> pteval then x\<lparr>pte := pteval\<rparr> else x))"

text \<open>
  The three loops: the comparison with \<^verbatim>\<open>opcode\<close> (which also runs out of the array when that is shorter
  than \<^verbatim>\<open>LENGTH\<close>), the copy to \<^verbatim>\<open>jumper\<close>, whose pointer is used afterwards, and the copy back.
\<close>

function match_loop :: "trap_config \<Rightarrow> nat \<Rightarrow> 64 word \<Rightarrow> memory \<Rightarrow> fault + bool" where
  "match_loop c i ptr m =
     (if i < CODE_LENGTH c then
        (if length (opcode c) \<le> i then Inl Out_Of_Bounds
         else if m ptr \<noteq> opcode c ! i then Inr False
         else match_loop c (Suc i) (ptr + 1) m)
      else Inr True)"
  by pat_completeness auto
termination
  by (relation "measure (\<lambda>(c, i, ptr, m). CODE_LENGTH c - i)") auto

lemma unat_step: "ptr < end' \<Longrightarrow> unat (ptr + 1) = Suc (unat ptr)" for ptr end' :: "64 word"
  using unsigned_less [of end', where ?'a = nat] by (simp add: unat_word_ariths word_less_nat_alt)

function copy_loop :: "64 word \<Rightarrow> 64 word \<Rightarrow> 64 word \<Rightarrow> memory \<Rightarrow> memory \<times> 64 word" where
  "copy_loop ptr end' newptr m =
     (if ptr < end' then copy_loop (ptr + 1) end' (newptr + 1) (m(newptr := m ptr)) else (m, newptr))"
  by pat_completeness auto
termination
  by (relation "measure (\<lambda>(ptr, end', newptr, m). unat end' - unat ptr)")
    (auto simp: unat_step word_less_nat_alt)

function restore_loop :: "64 word \<Rightarrow> 64 word \<Rightarrow> 64 word \<Rightarrow> text_state \<Rightarrow> fault + text_state" where
  "restore_loop ptr end' newptr x =
     (if ptr < end' then
        (if pte x AND PAGE_RW = 0 then Inl Write_Protected
         else restore_loop (ptr + 1) end' (newptr + 1) (x\<lparr>mem := (mem x)(ptr := mem x newptr)\<rparr>))
      else Inr x)"
  by pat_completeness auto
termination
  by (relation "measure (\<lambda>(ptr, end', newptr, x). unat end' - unat ptr)")
    (auto simp: unat_step word_less_nat_alt)

declare match_loop.simps [simp del] copy_loop.simps [simp del] restore_loop.simps [simp del]

text \<open>A store to the code of \<^verbatim>\<open>do_fork\<close>, and the number of pages \<^verbatim>\<open>PAGE_ALIGN(LENGTH) >> PAGE_SHIFT\<close>.\<close>

definition write_code :: "(memory \<Rightarrow> memory) \<Rightarrow> text_state \<Rightarrow> fault + text_state" where
  "write_code f x = (if pte x AND PAGE_RW = 0 then Inl Write_Protected else Inr (x\<lparr>mem := f (mem x)\<rparr>))"

definition code_pages :: "trap_config \<Rightarrow> nat" where
  "code_pages c = (CODE_LENGTH c + 4095) div 4096"

definition mark_jumper :: "trap_config \<Rightarrow> text_state \<Rightarrow> text_state" where
  "mark_jumper c x = (if SET_MEMORY_SUPPORT c then x\<lparr>set_x := set_x x @ [(jumper c, code_pages c)]\<rparr> else x)"

definition init_do_fork :: "trap_config \<Rightarrow> text_state \<Rightarrow> fault + int \<times> text_state" where
  "init_do_fork c x =
     ebind (match_loop c 0 (START_ADD c) (mem x)) (\<lambda>same.
     if \<not> same then Inr (- 1, x)
     else
       let m1 = memcpy (jumper c) (jumper_func c) (CODE_LENGTH c) (mem x);
           x0 = mark_jumper c (x\<lparr>mem := m1\<rparr>);
           (m2, newptr) = copy_loop (START_ADD c) (END_ADD c) (jumper c) (mem x0);
           (old_pteval, x1) = set_pteval PAGE_RW (x0\<lparr>mem := m2\<rparr>);
           m3 = (mem x1)(newptr := 0xe9);
           lptr = newptr + 1;
           newptr = lptr + 4;
           diff = END_ADD c - newptr
       in if sint diff < 0xffffff then
            let m4 = store_long lptr diff m3;
                ptr = START_ADD c
            in ebind (write_code (\<lambda>m. m(ptr := 0xe9)) (x1\<lparr>mem := m4\<rparr>)) (\<lambda>x2.
               let lptr = ptr + 1;
                   ptr = lptr + 4;
                   diff = wrapper c - ptr
               in ebind (write_code (store_long lptr diff) x2) (\<lambda>x3.
                  Inr (0, snd (set_pteval old_pteval x3))))
          else Inr (- 1, x1\<lparr>mem := m3\<rparr>))"

definition cleanup_do_fork :: "trap_config \<Rightarrow> text_state \<Rightarrow> fault + text_state" where
  "cleanup_do_fork c x =
     (let (old_pteval, x1) = set_pteval PAGE_RW x
      in ebind (restore_loop (START_ADD c) (END_ADD c) (jumper c) x1) (\<lambda>x2.
         Inr (snd (set_pteval old_pteval x2))))"

section \<open>The page table entry\<close>

lemma set_pteval_restore:
  "snd (set_pteval (fst (set_pteval PAGE_RW x)) ((snd (set_pteval PAGE_RW x))\<lparr>mem := m\<rparr>)) = x\<lparr>mem := m\<rparr>"
  by (cases x) (auto simp: set_pteval_def Let_def)

lemma set_pteval_mem [simp]: "mem (snd (set_pteval v x)) = mem x"
  by (simp add: set_pteval_def Let_def)

lemma set_pteval_set_x [simp]: "set_x (snd (set_pteval v x)) = set_x x"
  by (simp add: set_pteval_def Let_def)

text \<open>After \<^verbatim>\<open>set_pteval(_PAGE_RW)\<close> the page is writable.\<close>

lemma set_pteval_writable: "pte (snd (set_pteval PAGE_RW x)) AND PAGE_RW \<noteq> 0"
proof -
  have "(p OR PAGE_RW) AND PAGE_RW = PAGE_RW" for p :: "64 word"
    by (rule bit_word_eqI) (auto simp: bit_simps)
  then show ?thesis by (auto simp: set_pteval_def Let_def)
qed

lemma mark_jumper_fields [simp]: "mem (mark_jumper c x) = mem x" "pte (mark_jumper c x) = pte x"
  by (simp_all add: mark_jumper_def)

lemma mark_jumper_mem: "mark_jumper c (x\<lparr>mem := m\<rparr>) = (mark_jumper c x)\<lparr>mem := m\<rparr>"
  by (simp add: mark_jumper_def)

section \<open>Regions of memory\<close>

definition region :: "64 word \<Rightarrow> nat \<Rightarrow> 64 word set" where
  "region p n = {a. unat (a - p) < n}"

lemma region_start [simp]: "p \<in> region p n \<longleftrightarrow> 0 < n"
  by (simp add: region_def)

lemma region_nth: "i < n \<Longrightarrow> i < 2 ^ 64 \<Longrightarrow> p + of_nat i \<in> region p n"
  by (simp add: region_def unat_of_nat)

lemma region_elem:
  assumes "a \<in> region p n"
  obtains i where "i < n" "a = p + of_nat i"
proof
  show "unat (a - p) < n" using assms by (simp add: region_def)
  show "a = p + of_nat (unat (a - p))" by simp
qed

lemma region_mono: "n \<le> k \<Longrightarrow> region p n \<subseteq> region p k"
  by (auto simp: region_def)

lemma unat_sub_of_nat:
  fixes w :: "64 word"
  assumes "n < 2 ^ 64"
  shows "unat (w - of_nat n) = (if n \<le> unat w then unat w - n else 2 ^ 64 + unat w - n)"
proof -
  have n: "unat (of_nat n :: 64 word) = n" using assms by (simp add: unat_of_nat)
  show ?thesis
  proof (cases "n \<le> unat w")
    case True
    then have "(of_nat n :: 64 word) \<le> w" using n by (simp add: word_le_nat_alt)
    then show ?thesis using True n by (simp add: unat_sub)
  next
    case False
    then show ?thesis using unat_sub_if' [of w "of_nat n"] n by (simp add: word_le_nat_alt)
  qed
qed

lemma region_split:
  assumes "n + k \<le> 2 ^ 64" and "n < 2 ^ 64"
  shows "region p (n + k) = region p n \<union> region (p + of_nat n) k"
    and "region p n \<inter> region (p + of_nat n) k = {}"
proof -
  have "unat (a - (p + of_nat n)) = unat (a - p - of_nat n)" for a by (simp add: algebra_simps)
  then have off: "unat (a - (p + of_nat n)) =
      (if n \<le> unat (a - p) then unat (a - p) - n else 2 ^ 64 + unat (a - p) - n)" for a
    using unat_sub_of_nat [OF assms(2), of "a - p"] by simp
  show "region p (n + k) = region p n \<union> region (p + of_nat n) k"
    using assms unfolding region_def off by auto
  show "region p n \<inter> region (p + of_nat n) k = {}"
    using assms unfolding region_def off by auto
qed

lemma region_1: "region p 1 = {p}"
  by (auto simp: region_def unat_eq_zero)

lemma region_Suc:
  assumes "Suc n \<le> 2 ^ 64"
  shows "region p (Suc n) = insert p (region (p + 1) n)" and "p \<notin> region (p + 1) n"
  using region_split [of 1 n p] assms region_1 [of p] by auto

section \<open>The copies\<close>

lemma memcpy_Suc:
  assumes n: "Suc n \<le> 2 ^ 64" and dis: "dst \<notin> region src (Suc n)"
  shows "memcpy (dst + 1) (src + 1) n (m(dst := m src)) = memcpy dst src (Suc n) m"
proof
  fix a
  note in_iff = region_Suc [OF n, of dst]
  have src: "src + (a - dst) \<in> region src (Suc n)" if "a \<in> region dst (Suc n)"
    using that by (simp add: region_def)
  have shift: "src + 1 + (a - (dst + 1)) = src + (a - dst)" by simp
  show "memcpy (dst + 1) (src + 1) n (m(dst := m src)) a = memcpy dst src (Suc n) m a"
  proof (cases "a = dst")
    case True
    then show ?thesis using in_iff(2) by (simp add: memcpy_def region_def)
  next
    case False
    then have "unat (a - (dst + 1)) < n \<longleftrightarrow> unat (a - dst) < Suc n"
      using in_iff(1) by (auto simp: region_def)
    moreover have "src + (a - dst) \<noteq> dst" if "unat (a - dst) < Suc n"
      using src dis that by (metis region_def mem_Collect_eq)
    ultimately show ?thesis
      using False unfolding memcpy_def shift by (simp del: add_diff_eq)
  qed
qed

lemma end_less:
  "unat ptr + n < 2 ^ 64 \<Longrightarrow> ptr < ptr + of_nat n \<longleftrightarrow> 0 < n" for ptr :: "64 word"
  by (simp add: word_less_nat_alt unat_word_ariths unat_of_nat)

lemma copy_loop_memcpy:
  assumes "unat ptr + n < 2 ^ 64" and "region ptr n \<inter> region newptr n = {}"
  shows "copy_loop ptr (ptr + of_nat n) newptr m = (memcpy newptr ptr n m, newptr + of_nat n)"
  using assms
proof (induction n arbitrary: ptr newptr m)
  case 0
  then show ?case by (simp add: copy_loop.simps [of ptr] memcpy_def)
next
  case (Suc n)
  let ?e = "ptr + of_nat (Suc n)"
  have n: "Suc n \<le> 2 ^ 64" using Suc.prems(1) by simp
  have lt: "ptr < ?e" using end_less [of ptr "Suc n"] Suc.prems(1) by simp
  have up: "unat (ptr + 1) + n < 2 ^ 64" using unat_step [OF lt] Suc.prems(1) by simp
  have dis: "region (ptr + 1) n \<inter> region (newptr + 1) n = {}" "newptr \<notin> region ptr (Suc n)"
    using Suc.prems(2) region_Suc(1) [OF n] by auto
  have "copy_loop ptr ?e newptr m = copy_loop (ptr + 1) (ptr + 1 + of_nat n) (newptr + 1) (m(newptr := m ptr))"
    using lt by (simp add: copy_loop.simps [of ptr] add.assoc)
  also have "\<dots> = (memcpy (newptr + 1) (ptr + 1) n (m(newptr := m ptr)), newptr + 1 + of_nat n)"
    by (rule Suc.IH [OF up dis(1)])
  finally show ?case using memcpy_Suc [OF n dis(2)] by (simp add: add.assoc)
qed

lemma restore_loop_memcpy:
  assumes "unat ptr + n < 2 ^ 64" and "region ptr n \<inter> region newptr n = {}" and "pte x AND PAGE_RW \<noteq> 0"
  shows "restore_loop ptr (ptr + of_nat n) newptr x = Inr (x\<lparr>mem := memcpy ptr newptr n (mem x)\<rparr>)"
  using assms
proof (induction n arbitrary: ptr newptr x)
  case 0
  then show ?case by (simp add: restore_loop.simps [of ptr] memcpy_def)
next
  case (Suc n)
  let ?e = "ptr + of_nat (Suc n)" and ?x = "x\<lparr>mem := (mem x)(ptr := mem x newptr)\<rparr>"
  have n: "Suc n \<le> 2 ^ 64" using Suc.prems(1) by simp
  have lt: "ptr < ?e" using end_less [of ptr "Suc n"] Suc.prems(1) by simp
  have up: "unat (ptr + 1) + n < 2 ^ 64" using unat_step [OF lt] Suc.prems(1) by simp
  have dis: "region (ptr + 1) n \<inter> region (newptr + 1) n = {}" "ptr \<notin> region newptr (Suc n)"
    using Suc.prems(2) region_Suc(1) [OF n] by auto
  have rw: "pte ?x AND PAGE_RW \<noteq> 0" using Suc.prems(3) by simp
  have "restore_loop ptr ?e newptr x = restore_loop (ptr + 1) (ptr + 1 + of_nat n) (newptr + 1) ?x"
    using lt Suc.prems(3) by (simp add: restore_loop.simps [of ptr] add.assoc)
  also have "\<dots> = Inr (?x\<lparr>mem := memcpy (ptr + 1) (newptr + 1) n (mem ?x)\<rparr>)"
    by (rule Suc.IH [OF up dis(1) rw])
  finally show ?case using memcpy_Suc [OF n dis(2), of "mem x"] by simp
qed

section \<open>Jumps\<close>

text \<open>
  What the processor does at an address that holds the opcode \<^verbatim>\<open>0xe9\<close>: it jumps to the end of the
  five-byte instruction plus the signed 32-bit displacement in it.
\<close>

definition load32 :: "memory \<Rightarrow> 64 word \<Rightarrow> 32 word" where
  "load32 m a =
     ucast (m a) OR push_bit 8 (ucast (m (a + 1))) OR push_bit 16 (ucast (m (a + 2))) OR
     push_bit 24 (ucast (m (a + 3)))"

definition jump_at :: "memory \<Rightarrow> 64 word \<Rightarrow> 64 word option" where
  "jump_at m a = (if m a = 0xe9 then Some (a + 5 + scast (load32 m (a + 1))) else None)"

text \<open>A displacement that fits the instruction.\<close>

definition near :: "64 word \<Rightarrow> bool" where
  "near d \<longleftrightarrow> - (2 ^ 31) \<le> sint d \<and> sint d < 2 ^ 31"

text \<open>The instruction as the module writes it, with its eight-byte store.\<close>

definition put_jump :: "64 word \<Rightarrow> 64 word \<Rightarrow> memory \<Rightarrow> memory" where
  "put_jump p d m = store_long (p + 1) d (m(p := 0xe9))"

lemma store_long_other: "a \<notin> region p 8 \<Longrightarrow> store_long p v m a = m a"
  by (simp add: store_long_def region_def)

lemma load32_store_long: "load32 (store_long a v m) a = ucast v"
proof (rule bit_eqI)
  fix n assume "possible_bit TYPE(32 word) n"
  then have n: "n < 32" by simp
  have "unat (1 :: 64 word) = 1" "unat (2 :: 64 word) = 2" "unat (3 :: 64 word) = 3" by simp_all
  then have load: "load32 (store_long a v m) a = ucast (ucast v :: 8 word) OR
      push_bit 8 (ucast (ucast (drop_bit 8 v) :: 8 word)) OR
      push_bit 16 (ucast (ucast (drop_bit 16 v) :: 8 word)) OR
      push_bit 24 (ucast (ucast (drop_bit 24 v) :: 8 word))"
    by (simp add: load32_def store_long_def)
  have "n < 8 \<or> (8 \<le> n \<and> n < 16) \<or> (16 \<le> n \<and> n < 24) \<or> (24 \<le> n \<and> n < 32)"
    using n by linarith
  then show "bit (load32 (store_long a v m) a) n \<longleftrightarrow> bit (ucast v :: 32 word) n"
    unfolding load using n by (auto simp: bit_simps)
qed

lemma scast_ucast_near: "near d \<Longrightarrow> scast (ucast d :: 32 word) = d"
proof -
  assume "near d"
  then have "signed_take_bit 31 (sint d) = sint d"
    by (intro signed_take_bit_int_eq_self) (simp_all add: near_def)
  moreover have "sint (ucast d :: 32 word) = signed_take_bit 31 (sint d)"
    by (simp add: signed_ucast_eq uint_sint [of d] signed_take_bit_take_bit)
  ultimately have "sint (ucast d :: 32 word) = sint d" by simp
  then show ?thesis by (simp add: scast_eq)
qed

lemma put_jump_other: "a \<notin> region p 9 \<Longrightarrow> put_jump p d m a = m a"
  using region_Suc(1) [of 8 p] store_long_other [of a "p + 1"] by (simp add: put_jump_def)

lemma put_jump_at:
  assumes "near d"
  shows "jump_at (put_jump p d m) p = Some (p + 5 + d)"
proof -
  have "p \<notin> region (p + 1) 8" using region_Suc(2) [of 8 p] by simp
  then show ?thesis
    using scast_ucast_near [OF assms]
    by (simp add: jump_at_def put_jump_def store_long_other load32_store_long)
qed

lemma jump_at_cong:
  assumes "\<And>a. a \<in> region p 9 \<Longrightarrow> m' a = m a"
  shows "jump_at m' p = jump_at m p"
proof -
  have "p + of_nat i \<in> region p 9" if "i < 9" for i using that by (intro region_nth) simp_all
  from this [of 0] this [of 1] this [of 2] this [of 3] this [of 4]
  show ?thesis using assms by (simp add: jump_at_def load32_def add.assoc)
qed

section \<open>Installing and removing the trap\<close>

text \<open>
  What the build provides: enough instructions to hold what the module writes, an \<^verbatim>\<open>opcode\<close> array of that
  length, and a \<^verbatim>\<open>jumper\<close> that lies elsewhere in the address space.
\<close>

definition trap_layout :: "trap_config \<Rightarrow> bool" where
  "trap_layout c \<longleftrightarrow>
     9 \<le> CODE_LENGTH c \<and> CODE_LENGTH c \<le> length (opcode c) \<and> CODE_LENGTH c + 9 \<le> 2 ^ 64 \<and>
     unat (START_ADD c) + CODE_LENGTH c < 2 ^ 64 \<and>
     region (START_ADD c) (CODE_LENGTH c) \<inter> region (jumper c) (CODE_LENGTH c + 9) = {}"

lemma trap_layoutD:
  assumes "trap_layout c"
  shows "unat (START_ADD c) + CODE_LENGTH c < 2 ^ 64"
    and "region (START_ADD c) (CODE_LENGTH c) \<inter> region (jumper c) (CODE_LENGTH c) = {}"
    and "region (START_ADD c) 9 \<subseteq> region (START_ADD c) (CODE_LENGTH c)"
    and "region (jumper c) (CODE_LENGTH c) \<inter> region (jumper c + of_nat (CODE_LENGTH c)) 9 = {}"
    and "region (jumper c) (CODE_LENGTH c + 9) =
      region (jumper c) (CODE_LENGTH c) \<union> region (jumper c + of_nat (CODE_LENGTH c)) 9"
    and "region (START_ADD c) (CODE_LENGTH c) \<inter> region (jumper c + of_nat (CODE_LENGTH c)) 9 = {}"
proof -
  have n: "CODE_LENGTH c + 9 \<le> 2 ^ 64" "CODE_LENGTH c < 2 ^ 64" using assms by (auto simp: trap_layout_def)
  note split = region_split [OF n, of "jumper c"]
  show "unat (START_ADD c) + CODE_LENGTH c < 2 ^ 64"
    "region (START_ADD c) 9 \<subseteq> region (START_ADD c) (CODE_LENGTH c)"
    using assms region_mono by (auto simp: trap_layout_def)
  show "region (START_ADD c) (CODE_LENGTH c) \<inter> region (jumper c) (CODE_LENGTH c) = {}"
    "region (START_ADD c) (CODE_LENGTH c) \<inter> region (jumper c + of_nat (CODE_LENGTH c)) 9 = {}"
    using assms split by (auto simp: trap_layout_def)
  show "region (jumper c) (CODE_LENGTH c) \<inter> region (jumper c + of_nat (CODE_LENGTH c)) 9 = {}"
    "region (jumper c) (CODE_LENGTH c + 9) =
      region (jumper c) (CODE_LENGTH c) \<union> region (jumper c + of_nat (CODE_LENGTH c)) 9"
    by (rule split)+
qed

text \<open>The kernel's code is the expected one.\<close>

definition expected_code :: "trap_config \<Rightarrow> memory \<Rightarrow> bool" where
  "expected_code c m \<longleftrightarrow> (\<forall>i < CODE_LENGTH c. m (START_ADD c + of_nat i) = opcode c ! i)"

lemma match_loop_iff:
  assumes "CODE_LENGTH c \<le> length (opcode c)" and "i \<le> CODE_LENGTH c"
  shows "match_loop c i (p + of_nat i) m = Inr (\<forall>j. i \<le> j \<longrightarrow> j < CODE_LENGTH c \<longrightarrow> m (p + of_nat j) = opcode c ! j)"
  using assms(2)
proof (induction "CODE_LENGTH c - i" arbitrary: i)
  case 0
  then show ?case by (subst match_loop.simps) simp
next
  case (Suc k)
  then have i: "i < CODE_LENGTH c" "k = CODE_LENGTH c - Suc i" by simp_all
  have "match_loop c i (p + of_nat i) m =
      (if m (p + of_nat i) \<noteq> opcode c ! i then Inr False else match_loop c (Suc i) (p + of_nat (Suc i)) m)"
    using i(1) assms(1) by (subst match_loop.simps) (simp add: ac_simps)
  with Suc.hyps(1) [OF i(2)] i(1) show ?case by (auto simp: Suc_le_eq intro: le_neq_implies_less)
qed

lemma memcpy_twice:
  assumes "region src n \<inter> region dst n = {}"
  shows "memcpy dst src n (memcpy dst other n m) = memcpy dst src n m"
proof
  fix a
  have "unat (src + (a - dst) - src) < n \<Longrightarrow> \<not> unat (src + (a - dst) - dst) < n"
    using assms unfolding region_def by blast
  then show "memcpy dst src n (memcpy dst other n m) a = memcpy dst src n m a" by (simp add: memcpy_def)
qed

text \<open>The memory after a successful \<^verbatim>\<open>init_do_fork\<close>.\<close>

definition back_disp :: "trap_config \<Rightarrow> 64 word" where
  "back_disp c = END_ADD c - (jumper c + of_nat (CODE_LENGTH c) + 5)"

definition away_disp :: "trap_config \<Rightarrow> 64 word" where
  "away_disp c = wrapper c - (START_ADD c + 5)"

definition trapped :: "trap_config \<Rightarrow> memory \<Rightarrow> memory" where
  "trapped c m =
     put_jump (START_ADD c) (away_disp c)
       (put_jump (jumper c + of_nat (CODE_LENGTH c)) (back_disp c)
          (memcpy (jumper c) (START_ADD c) (CODE_LENGTH c) m))"

lemma init_do_fork_cases:
  assumes lay: "trap_layout c"
  shows "init_do_fork c x =
    (if \<not> expected_code c (mem x) then Inr (- 1, x)
     else if sint (back_disp c) < 0xffffff then Inr (0, (mark_jumper c x)\<lparr>mem := trapped c (mem x)\<rparr>)
     else Inr (- 1, (snd (set_pteval PAGE_RW (mark_jumper c x)))\<lparr>mem :=
       (memcpy (jumper c) (START_ADD c) (CODE_LENGTH c) (mem x))(jumper c + of_nat (CODE_LENGTH c) := 0xe9)\<rparr>))"
proof -
  let ?n = "CODE_LENGTH c" and ?x = "mark_jumper c x"
  note d = trap_layoutD [OF lay]
  have same: "match_loop c 0 (START_ADD c) (mem x) = Inr (expected_code c (mem x))"
    using match_loop_iff [of c 0 "START_ADD c" "mem x"] lay by (simp add: trap_layout_def expected_code_def)
  have copy: "copy_loop (START_ADD c) (END_ADD c) (jumper c) m = (memcpy (jumper c) (START_ADD c) ?n m, jumper c + of_nat ?n)" for m
    unfolding END_ADD_def by (rule copy_loop_memcpy [OF d(1,2)])
  have set: "set_pteval PAGE_RW (y\<lparr>mem := m\<rparr>) = (fst (set_pteval PAGE_RW y), (snd (set_pteval PAGE_RW y))\<lparr>mem := m\<rparr>)" for y m
    by (simp add: set_pteval_def Let_def)
  have disp: "END_ADD c - (jumper c + of_nat ?n + 1 + 4) = back_disp c" "wrapper c - (START_ADD c + 1 + 4) = away_disp c"
    by (simp_all add: back_disp_def away_disp_def add.assoc)
  have store: "write_code f ((snd (set_pteval PAGE_RW ?x))\<lparr>mem := m\<rparr>) = Inr ((snd (set_pteval PAGE_RW ?x))\<lparr>mem := f m\<rparr>)" for f m
    using set_pteval_writable [of ?x] by (simp add: write_code_def)
  have mem: "mem (?x\<lparr>mem := m\<rparr>) = m" "?x\<lparr>mem := m, mem := m'\<rparr> = ?x\<lparr>mem := m'\<rparr>" for m m' by simp_all
  show ?thesis
    unfolding init_do_fork_def same Let_def mark_jumper_mem mem copy case_prod_conv set ebind_simps disp
    using set_pteval_restore [of ?x]
    by (simp add: memcpy_twice [OF d(2)] trapped_def put_jump_def store)
qed

lemma trapped_parts:
  assumes lay: "trap_layout c"
  shows "i < CODE_LENGTH c \<Longrightarrow> trapped c m (jumper c + of_nat i) = m (START_ADD c + of_nat i)"
    and "near (away_disp c) \<Longrightarrow> jump_at (trapped c m) (START_ADD c) = Some (wrapper c)"
    and "near (back_disp c) \<Longrightarrow> jump_at (trapped c m) (jumper c + of_nat (CODE_LENGTH c)) = Some (END_ADD c)"
    and "a \<notin> region (START_ADD c) 9 \<Longrightarrow> a \<notin> region (jumper c) (CODE_LENGTH c + 9) \<Longrightarrow> trapped c m a = m a"
proof -
  let ?n = "CODE_LENGTH c" and ?j = "jumper c + of_nat (CODE_LENGTH c)"
  note d = trap_layoutD [OF lay]
  show "trapped c m (jumper c + of_nat i) = m (START_ADD c + of_nat i)" if "i < ?n"
  proof -
    have i: "i < 2 ^ 64" using that d(1) by simp
    have "jumper c + of_nat i \<in> region (jumper c) ?n" by (rule region_nth [OF that i])
    then have "jumper c + of_nat i \<notin> region (START_ADD c) 9" "jumper c + of_nat i \<notin> region ?j 9"
      using d by blast+
    then show ?thesis
      using that i by (simp add: trapped_def put_jump_other memcpy_def unat_of_nat)
  qed
  show "jump_at (trapped c m) (START_ADD c) = Some (wrapper c)" if "near (away_disp c)"
    unfolding trapped_def put_jump_at [OF that] by (simp add: away_disp_def)
  show "jump_at (trapped c m) ?j = Some (END_ADD c)" if "near (back_disp c)"
  proof -
    have "jump_at (trapped c m) ?j = jump_at (put_jump ?j (back_disp c) (memcpy (jumper c) (START_ADD c) ?n m)) ?j"
      unfolding trapped_def using d(3,6) by (intro jump_at_cong put_jump_other) blast
    then show ?thesis using put_jump_at [OF that] by (simp add: back_disp_def)
  qed
  show "trapped c m a = m a" if "a \<notin> region (START_ADD c) 9" "a \<notin> region (jumper c) (?n + 9)"
    using that unfolding d(5) by (simp add: trapped_def put_jump_other memcpy_def region_def)
qed

text \<open>Whatever the addresses, the copy back does not store through a read-only entry.\<close>

lemma restore_loop_total:
  "pte x AND PAGE_RW \<noteq> 0 \<Longrightarrow> \<exists>y. restore_loop ptr end' newptr x = Inr y"
proof (induction ptr end' newptr x rule: restore_loop.induct)
  case (1 ptr end' newptr x)
  then show ?case by (subst restore_loop.simps) simp
qed

lemma cleanup_do_fork_total:
  obtains x2 where "cleanup_do_fork c x = Inr x2"
  using restore_loop_total [OF set_pteval_writable [of x], of "START_ADD c" "END_ADD c" "jumper c"]
  by (auto simp: cleanup_do_fork_def case_prod_unfold)

lemma cleanup_do_fork_mem:
  assumes "trap_layout c"
  shows "cleanup_do_fork c x = Inr (x\<lparr>mem := memcpy (START_ADD c) (jumper c) (CODE_LENGTH c) (mem x)\<rparr>)"
  using set_pteval_restore [of x] restore_loop_memcpy [OF trap_layoutD(1,2) [OF assms] set_pteval_writable [of x]]
  by (simp add: cleanup_do_fork_def Let_def END_ADD_def case_prod_unfold)

lemma trap_undone:
  assumes lay: "trap_layout c" and init: "init_do_fork c x = Inr (0, x1)"
  obtains x2 where "cleanup_do_fork c x1 = Inr x2" "pte x2 = pte x"
    "\<And>a. a \<notin> region (jumper c) (CODE_LENGTH c + 9) \<Longrightarrow> mem x2 a = mem x a"
proof
  have x1: "x1 = (mark_jumper c x)\<lparr>mem := trapped c (mem x)\<rparr>"
    using init init_do_fork_cases [OF lay, of x] by (auto split: if_splits)
  let ?x2 = "x1\<lparr>mem := memcpy (START_ADD c) (jumper c) (CODE_LENGTH c) (mem x1)\<rparr>"
  note d = trap_layoutD [OF lay]
  show "cleanup_do_fork c x1 = Inr ?x2" by (rule cleanup_do_fork_mem [OF lay])
  show "pte ?x2 = pte x" by (simp add: x1)
  show "mem ?x2 a = mem x a" if a: "a \<notin> region (jumper c) (CODE_LENGTH c + 9)" for a
  proof (cases "a \<in> region (START_ADD c) (CODE_LENGTH c)")
    case True
    then obtain i where i: "i < CODE_LENGTH c" "a = START_ADD c + of_nat i" by (rule region_elem)
    then show ?thesis
      using trapped_parts(1) [OF lay i(1)] d(1) by (simp add: x1 memcpy_def unat_of_nat)
  next
    case False
    then show ?thesis
      using trapped_parts(4) [OF lay _ a] d(3) by (auto simp: x1 memcpy_def region_def)
  qed
qed

text \<open>Without success, nothing but \<^verbatim>\<open>jumper\<close> has been written to.\<close>

lemma untrapped:
  assumes lay: "trap_layout c" and init: "init_do_fork c x = Inr (r, x1)" "r \<noteq> 0"
    and a: "a \<notin> region (jumper c) (CODE_LENGTH c + 9)"
  shows "mem x1 a = mem x a"
proof -
  let ?n = "CODE_LENGTH c"
  have "unat (a - jumper c) \<ge> ?n + 9" using a by (simp add: region_def)
  then have "\<not> unat (a - jumper c) < ?n" "a \<noteq> jumper c + of_nat ?n"
    using trap_layoutD(1) [OF lay] by (auto simp: unat_of_nat)
  then show ?thesis
    using init init_do_fork_cases [OF lay, of x] by (auto simp: memcpy_def split: if_splits)
qed

lemma trap_installed:
  assumes lay: "trap_layout c" and code: "expected_code c (mem x)"
    and disp: "near (back_disp c)" "sint (back_disp c) < 0xffffff" "near (away_disp c)"
  shows "\<exists>x'. init_do_fork c x = Inr (0, x') \<and> pte x' = pte x \<and>
    set_x x' = set_x x @ (if SET_MEMORY_SUPPORT c then [(jumper c, code_pages c)] else []) \<and>
    jump_at (mem x') (START_ADD c) = Some (wrapper c) \<and>
    (\<forall>i < CODE_LENGTH c. mem x' (jumper c + of_nat i) = opcode c ! i) \<and>
    jump_at (mem x') (jumper c + of_nat (CODE_LENGTH c)) = Some (END_ADD c) \<and>
    (\<forall>a. a \<notin> region (START_ADD c) 9 \<longrightarrow> a \<notin> region (jumper c) (CODE_LENGTH c + 9) \<longrightarrow> mem x' a = mem x a)"
proof -
  have "init_do_fork c x = Inr (0, (mark_jumper c x)\<lparr>mem := trapped c (mem x)\<rparr>)"
    using init_do_fork_cases [OF lay, of x] code disp(2) by simp
  moreover have "\<forall>i < CODE_LENGTH c. trapped c (mem x) (jumper c + of_nat i) = opcode c ! i"
    using trapped_parts(1) [OF lay] code by (simp add: expected_code_def)
  ultimately show ?thesis
    using trapped_parts(2) [OF lay disp(3)] trapped_parts(3) [OF lay disp(1)] trapped_parts(4) [OF lay]
    by (simp add: mark_jumper_def)
qed

section \<open>A concrete trap\<close>

text \<open>The twelve instructions bytes of the EL5 kernel at address \<open>0x1000\<close>, in a read-only page.\<close>

definition demo_opcode :: "8 word list" where
  "demo_opcode = [0x41, 0x57, 0x49, 0x89, 0xd7, 0x41, 0x56, 0x49, 0x89, 0xce, 0x41, 0x55]"

definition demo_trap :: trap_config where
  "demo_trap =
     \<lparr>START_ADD = 0x1000, CODE_LENGTH = 12, opcode = demo_opcode, jumper = 0x2000, jumper_func = 0x4000,
      wrapper = 0x3000, SET_MEMORY_SUPPORT = True\<rparr>"

definition demo_text :: text_state where
  "demo_text =
     \<lparr>mem = (\<lambda>a. if unat (a - 0x1000) < 12 then demo_opcode ! unat (a - 0x1000) else 0), pte = 0x161, set_x = []\<rparr>"

lemma demo_layout: "trap_layout demo_trap"
proof -
  have "a \<notin> region 0x2000 21" if a: "a \<in> region 0x1000 12" for a
  proof -
    have eq: "a - 0x2000 = (a - 0x1000) - of_nat 0x1000" by simp
    have "unat (a - 0x2000) = 2 ^ 64 + unat (a - 0x1000) - 0x1000"
      unfolding eq by (subst unat_sub_of_nat) (use a in \<open>simp_all add: region_def\<close>)
    then show ?thesis by (simp add: region_def)
  qed
  then show ?thesis by (auto simp: trap_layout_def demo_trap_def demo_opcode_def)
qed

lemma demo_expected: "expected_code demo_trap (mem demo_text)"
  by (simp add: expected_code_def demo_trap_def demo_text_def unat_of_nat)

lemma demo_near: "near (back_disp demo_trap)" "near (away_disp demo_trap)" "sint (back_disp demo_trap) < 0xffffff"
  by (simp_all add: near_def back_disp_def away_disp_def END_ADD_def demo_trap_def)

section \<open>Properties\<close>

text \<open>
  When the running kernel's code is the expected one and the displacements fit, \<^verbatim>\<open>init_do_fork\<close> returns 0
  and installs the trap: \<^verbatim>\<open>do_fork\<close> now jumps to \<^verbatim>\<open>chos_do_fork\<close>, \<^verbatim>\<open>jumper\<close> holds the replaced instructions followed
  by a jump to the instruction after them, the page is as writable as before, no other byte of
  memory has changed, and \<^verbatim>\<open>set_memory_x\<close> has been called for \<^verbatim>\<open>jumper\<close> where the kernel has it.
\<close>

theorem trap_installs:
  assumes lay: "trap_layout c" and code: "expected_code c (mem x)"
    and disp: "near (back_disp c)" "sint (back_disp c) < 0xffffff" "near (away_disp c)"
  shows "\<exists>x'. init_do_fork c x = Inr (0, x') \<and> pte x' = pte x \<and>
    set_x x' = set_x x @ (if SET_MEMORY_SUPPORT c then [(jumper c, code_pages c)] else []) \<and>
    jump_at (mem x') (START_ADD c) = Some (wrapper c) \<and>
    (\<forall>i < CODE_LENGTH c. mem x' (jumper c + of_nat i) = opcode c ! i) \<and>
    jump_at (mem x') (jumper c + of_nat (CODE_LENGTH c)) = Some (END_ADD c) \<and>
    (\<forall>a. a \<notin> region (START_ADD c) 9 \<longrightarrow> a \<notin> region (jumper c) (CODE_LENGTH c + 9) \<longrightarrow> mem x' a = mem x a)"
  by (rule trap_installed [OF assms])

theorem trap_installs_witness:
  "\<exists>x'. init_do_fork demo_trap demo_text = Inr (0, x') \<and> pte x' = 0x161 \<and> set_x x' = [(0x2000, 1)] \<and>
     jump_at (mem x') 0x1000 = Some 0x3000 \<and> jump_at (mem x') 0x200c = Some 0x100c"
  using trap_installs [OF demo_layout demo_expected demo_near(1,3,2)]
  by (auto simp: demo_trap_def demo_text_def END_ADD_def code_pages_def)

text \<open>
  On a kernel whose code differs from the expected code in any byte, \<^verbatim>\<open>init_do_fork\<close> changes nothing and
  returns -1, and it never returns 0 unless the code matches.
\<close>

theorem trap_only_on_match:
  assumes lay: "trap_layout c"
  shows "((\<exists>i < CODE_LENGTH c. mem x (START_ADD c + of_nat i) \<noteq> opcode c ! i) \<longrightarrow> init_do_fork c x = Inr (- 1, x)) \<and>
    (\<forall>x'. init_do_fork c x = Inr (0, x') \<longrightarrow> (\<forall>i < CODE_LENGTH c. mem x (START_ADD c + of_nat i) = opcode c ! i))"
  using init_do_fork_cases [OF lay, of x] by (auto simp: expected_code_def split: if_splits)

theorem trap_only_on_match_witness:
  "init_do_fork demo_trap (demo_text\<lparr>mem := \<lambda>_. 0\<rparr>) = Inr (- 1, demo_text\<lparr>mem := \<lambda>_. 0\<rparr>)"
proof -
  have "\<exists>i < CODE_LENGTH demo_trap. mem (demo_text\<lparr>mem := \<lambda>_. 0\<rparr>) (START_ADD demo_trap + of_nat i) \<noteq> opcode demo_trap ! i"
    by (rule exI [of _ 0]) (simp add: demo_trap_def demo_opcode_def)
  then show ?thesis using trap_only_on_match [OF demo_layout, of "demo_text\<lparr>mem := \<lambda>_. 0\<rparr>"] by blast
qed

text \<open>
  C30. Removing the trap undoes installing it: \<^verbatim>\<open>cleanup_do_fork\<close> never stores through a read-only page table entry, and after it
  every byte outside \<^verbatim>\<open>jumper\<close> and the page table entry are what they were before \<^verbatim>\<open>init_do_fork\<close>.
\<close>

theorem trap_roundtrip:
  assumes lay: "trap_layout c" and init: "init_do_fork c x = Inr (0, x1)"
  shows "\<exists>x2. cleanup_do_fork c x1 = Inr x2 \<and> pte x2 = pte x \<and>
    (\<forall>a. a \<notin> region (jumper c) (CODE_LENGTH c + 9) \<longrightarrow> mem x2 a = mem x a)"
  using trap_undone [OF assms] by metis

theorem trap_roundtrip_witness:
  "\<exists>x1 x2. init_do_fork demo_trap demo_text = Inr (0, x1) \<and> cleanup_do_fork demo_trap x1 = Inr x2 \<and> mem x2 0x1000 = 0x41"
proof -
  have init: "init_do_fork demo_trap demo_text = Inr (0, (mark_jumper demo_trap demo_text)\<lparr>mem := trapped demo_trap (mem demo_text)\<rparr>)"
    using init_do_fork_cases [OF demo_layout, of demo_text] demo_expected demo_near by simp
  have "mem demo_text 0x1000 = 0x41" by (simp add: demo_text_def demo_opcode_def)
  with trap_roundtrip [OF demo_layout init] init show ?thesis
    by (auto simp: demo_trap_def region_def)
qed

text \<open>
  When the way back from \<^verbatim>\<open>jumper\<close> is too long, \<^verbatim>\<open>init_do_fork\<close> returns -1 without having touched \<^verbatim>\<open>do_fork\<close>,
  but it returns between the two calls of \<^verbatim>\<open>set_pteval\<close>: the page of kernel code stays writable.
\<close>

theorem trap_failure_page_writable:
  assumes lay: "trap_layout c" and code: "expected_code c (mem x)" and far: "0xffffff \<le> sint (back_disp c)"
  shows "\<exists>x'. init_do_fork c x = Inr (- 1, x') \<and>
    pte x' = (if pte x AND PAGE_RW = 0 then pte x OR PAGE_RW else pte x) \<and>
    (\<forall>a \<in> region (START_ADD c) (CODE_LENGTH c). mem x' a = mem x a)"
proof -
  note d = trap_layoutD [OF lay]
  have "mem x a = ((memcpy (jumper c) (START_ADD c) (CODE_LENGTH c) (mem x))
      (jumper c + of_nat (CODE_LENGTH c) := 0xe9)) a" if "a \<in> region (START_ADD c) (CODE_LENGTH c)" for a
  proof -
    have "jumper c + of_nat (CODE_LENGTH c) \<in> region (jumper c + of_nat (CODE_LENGTH c)) 9" by simp
    with that d(2,6) show ?thesis by (auto simp: memcpy_def region_def)
  qed
  moreover have "pte (snd (set_pteval PAGE_RW (mark_jumper c x))) = (if pte x AND PAGE_RW = 0 then pte x OR PAGE_RW else pte x)"
    by (simp add: set_pteval_def Let_def)
  ultimately show ?thesis
    using init_do_fork_cases [OF lay, of x] code far by simp
qed

theorem trap_failure_page_writable_witness:
  "\<exists>x'. init_do_fork (demo_trap\<lparr>jumper := 0 - 0x80000000\<rparr>) demo_text = Inr (- 1, x') \<and> pte x' = 0x163"
proof -
  have dis: "a \<notin> region (0 - 0x80000000) 21" if a: "a \<in> region 0x1000 12" for a
  proof -
    have "a - (0 - 0x80000000) = of_nat (unat (a - 0x1000) + 0x80001000)"
      by (simp add: algebra_simps)
    moreover have "unat (of_nat (unat (a - 0x1000) + 0x80001000) :: 64 word) = unat (a - 0x1000) + 0x80001000"
      using a by (subst unat_of_nat) (simp add: region_def)
    ultimately show ?thesis by (simp add: region_def add.commute)
  qed
  have lay: "trap_layout (demo_trap\<lparr>jumper := 0 - 0x80000000\<rparr>)"
    using dis by (auto simp: trap_layout_def demo_trap_def demo_opcode_def)
  have code: "expected_code (demo_trap\<lparr>jumper := 0 - 0x80000000\<rparr>) (mem demo_text)"
    using demo_expected by (simp add: expected_code_def)
  have far: "0xffffff \<le> sint (back_disp (demo_trap\<lparr>jumper := 0 - 0x80000000\<rparr>))"
    by (simp add: back_disp_def END_ADD_def demo_trap_def)
  show ?thesis
    using trap_failure_page_writable [OF lay code far] by (auto simp: demo_text_def)
qed

end
