(* ===== verification/Kernel_Config.thy ===== *)
theory Kernel_Config
  imports Kernel_State
begin

text \<open>
  The build configuration of the kernel module: the conditional definitions of \<^verbatim>\<open>kernel/chos.h\<close>, which choose the code of
  \<^verbatim>\<open>kernel/chos_lkm.c\<close> by the version of the kernel that the module is built for. A macro that is only tested with
  \<^verbatim>\<open>#ifdef\<close> is a truth value; those that name types (\<^verbatim>\<open>TIDPTR_T\<close>, \<^verbatim>\<open>PID_T\<close>, \<^verbatim>\<open>DO_FORK_RET\<close>, \<^verbatim>\<open>KERNEL_CAP_T\<close>) are
  left out.
\<close>

section \<open>Versions\<close>

text \<open>The kernel's \<^verbatim>\<open>KERNEL_VERSION(a,b,c)\<close>.\<close>

definition KERNEL_VERSION :: "nat \<Rightarrow> nat \<Rightarrow> nat \<Rightarrow> nat" where
  "KERNEL_VERSION a b c = a * 2 ^ 16 + b * 2 ^ 8 + c"

record features =
  KERN26 :: bool
  PARENT_is_parent :: bool
  KUID_T_IS_STRUCT :: bool
  HAS_PATH_LOOKUP :: bool
  HAS_PROC_CREATE :: bool
  HAS_PROC_DIR_ENTRY_DEF :: bool
  HAS_SET_MEMORY_SUPPORT :: bool
  TASK_PID_NR :: bool
  PID_NS :: bool
  STRUCT_PATH :: bool
  USE_CRED :: bool
  PATH_PUT :: bool
  HAS_LOOKUP_NOALT :: bool

text \<open>\<open>v\<close> is \<^verbatim>\<open>LINUX_VERSION_CODE\<close>, and \<open>pid_max_default\<close> is whether the kernel defines \<^verbatim>\<open>PID_MAX_DEFAULT\<close>.\<close>

definition features_of :: "nat \<Rightarrow> bool \<Rightarrow> features" where
  "features_of v pid_max_default =
     \<lparr>KERN26 = (KERNEL_VERSION 2 4 99 \<le> v),
      PARENT_is_parent = (KERNEL_VERSION 2 4 99 \<le> v \<or> pid_max_default),
      KUID_T_IS_STRUCT = (KERNEL_VERSION 3 5 0 \<le> v),
      HAS_PATH_LOOKUP = (v < KERNEL_VERSION 3 4 0),
      HAS_PROC_CREATE = (KERNEL_VERSION 3 10 0 \<le> v),
      HAS_PROC_DIR_ENTRY_DEF = (\<not> KERNEL_VERSION 3 10 0 \<le> v),
      HAS_SET_MEMORY_SUPPORT = (KERNEL_VERSION 2 6 25 \<le> v),
      TASK_PID_NR = (KERNEL_VERSION 2 6 18 < v),
      PID_NS = (KERNEL_VERSION 2 6 18 < v),
      STRUCT_PATH = (KERNEL_VERSION 2 6 18 < v),
      USE_CRED = (KERNEL_VERSION 2 6 18 < v),
      PATH_PUT = (KERNEL_VERSION 2 6 18 < v),
      HAS_LOOKUP_NOALT = (\<not> KERNEL_VERSION 2 6 18 < v)\<rparr>"

text \<open>The three families of kernels that the module is meant for.\<close>

abbreviation EL5 :: nat where "EL5 \<equiv> KERNEL_VERSION 2 6 18"
abbreviation EL6 :: nat where "EL6 \<equiv> KERNEL_VERSION 2 6 32"
abbreviation EL7 :: nat where "EL7 \<equiv> KERNEL_VERSION 3 10 0"

section \<open>Looking up the two root directories\<close>

text \<open>
  The lookups of \<^verbatim>\<open>init_chos\<close>. \<open>path_lookup\<close> returns its status and the path; \<open>path_lookupat\<close> is the function
  that newer kernels have in its place; \<open>before\<close> is what the freshly allocated \<^verbatim>\<open>nochroot\<close> holds. The result is
  \<^verbatim>\<open>retval\<close>, which the code does not look at, \<^verbatim>\<open>named\<close> and \<^verbatim>\<open>nochroot\<close>.
\<close>

definition lookup_roots :: "features \<Rightarrow> (string \<Rightarrow> int \<times> kpath) \<Rightarrow> (string \<Rightarrow> int \<times> kpath) \<Rightarrow> string \<Rightarrow> kpath \<Rightarrow>
    int \<times> kpath \<times> kpath" where
  "lookup_roots f path_lookup path_lookupat root before =
     (if HAS_LOOKUP_NOALT f \<and> HAS_PATH_LOOKUP f then
        let (retval, named) = path_lookup root
        in (retval, named, before)
      else if HAS_PATH_LOOKUP f then
        let (retval, named) = path_lookup root;
            (retval, nochroot) = path_lookup ''/''
        in (retval, named, nochroot)
      else
        let (retval, named) = path_lookupat root;
            (retval, nochroot) = path_lookupat ''/''
        in (retval, named, nochroot))"

lemma features_EL6:
  "features_of EL6 d = \<lparr>KERN26 = True, PARENT_is_parent = True, KUID_T_IS_STRUCT = False, HAS_PATH_LOOKUP = True,
     HAS_PROC_CREATE = False, HAS_PROC_DIR_ENTRY_DEF = True, HAS_SET_MEMORY_SUPPORT = True, TASK_PID_NR = True,
     PID_NS = True, STRUCT_PATH = True, USE_CRED = True, PATH_PUT = True, HAS_LOOKUP_NOALT = False\<rparr>"
  by (simp add: features_of_def KERNEL_VERSION_def)

text \<open>The root directory is looked up exactly on kernels after 2.6.18.\<close>

lemma lookup_roots_new:
  assumes "EL5 < v"
  shows "snd (snd (lookup_roots (features_of v d) pl pla root before)) = snd ((if v < KERNEL_VERSION 3 4 0 then pl else pla) ''/'')"
    and "fst (snd (lookup_roots (features_of v d) pl pla root before)) = snd ((if v < KERNEL_VERSION 3 4 0 then pl else pla) root)"
  using assms by (auto simp: lookup_roots_def features_of_def Let_def case_prod_unfold)

lemma lookup_roots_old:
  assumes "v \<le> EL5"
  shows "lookup_roots (features_of v d) pl pla root before = (fst (pl root), snd (pl root), before)"
proof -
  have "v < KERNEL_VERSION 3 4 0" using assms by (simp add: KERNEL_VERSION_def)
  with assms show ?thesis by (simp add: lookup_roots_def features_of_def Let_def case_prod_unfold)
qed

end
