(* ===== verification/Module_Init.thy ===== *)
theory Module_Init
  imports Proc_Files Fork_Trap Kernel_Config
begin

text \<open>
  Loading and unloading the module: \<^verbatim>\<open>init_chos\<close>, \<^verbatim>\<open>recover_chos\<close>, \<^verbatim>\<open>chos_make_proc_entry\<close>, \<^verbatim>\<open>init_module\<close> and
  \<^verbatim>\<open>cleanup_module\<close> of \<^verbatim>\<open>kernel/chos_lkm.c\<close>. A host is the kernel state of the loaded module together with
  what outlives it: the \<^verbatim>\<open>struct chos\<close> objects left behind by a save of the state, the patched kernel code, the entries
  under \<^verbatim>\<open>/proc\<close>, and the system call table with the two variables in which the module keeps its old entries. The
  services of the kernel that loading calls, and the module's parameters, are a record.
\<close>

section \<open>Data\<close>

record chos =
  magic :: int
  version :: int
  cpid_max :: "64 word"
  cprocs :: "chos_proc list"
  named :: kpath
  nochroot :: kpath
  fork_wrapped :: int

datatype fops = setchos_fops | resetchos_fops | savestate_fops | version_fops | valid_fops | link_inode_operations

record host =
  kern :: kernel_state
  ch :: "addr option"
  saved :: "addr \<Rightarrow> chos option"
  ktext :: text_state
  proc_root :: "string list"
  proc_dir :: "(string \<times> nat \<times> fops) list"
  sys_call_table :: "nat \<Rightarrow> 64 word"
  orig_sys_exit :: "64 word"
  orig_sys_exit_group :: "64 word"

text \<open>
  \<open>vmalloc\<close> returns the array that fits into the bytes asked for, with whatever it contains; \<open>path_lookup\<close> returns
  its status, which the code does not look at, and the path, as does \<open>path_lookupat\<close>, which newer kernels have instead; \<open>ch_memory\<close> is what
  the memory of a new \<^verbatim>\<open>struct chos\<close> holds in the place of \<^verbatim>\<open>nochroot\<close>; \<open>SCT\<close> is the build option, followed by the numbers of
  the two system calls and the addresses of the module's functions for them; the next three are whether \<^verbatim>\<open>proc_mkdir\<close>,
  \<^verbatim>\<open>create_proc_entry\<close> and \<^verbatim>\<open>proc_symlink\<close> succeed, and the last two what \<^verbatim>\<open>remove_proc_entry\<close> makes of the entries of
  \<^verbatim>\<open>/proc/chos\<close> and of the names in \<^verbatim>\<open>/proc\<close>.
\<close>

record boot =
  trap :: trap_config
  kmalloc_ch :: kmalloc
  vmalloc :: "64 word \<Rightarrow> chos_proc list option"
  feat :: features
  path_lookup :: "string \<Rightarrow> int \<times> kpath"
  path_lookupat :: "string \<Rightarrow> int \<times> kpath"
  ch_memory :: kpath
  sizeof_chos_proc :: "64 word"
  PID_MAX :: "64 word"
  max_param :: "64 word"
  table_param :: "64 word"
  SCT :: bool
  NR_exit :: nat
  NR_exit_group :: nat
  addr_sys_exit :: "64 word"
  addr_sys_exit_group :: "64 word"
  proc_mkdir :: bool
  create_proc_entry :: "string \<Rightarrow> bool"
  proc_symlink :: bool
  remove_proc_entry :: "string \<Rightarrow> (string \<times> nat \<times> fops) list \<Rightarrow> (string \<times> nat \<times> fops) list"
  remove_proc_root :: "string \<Rightarrow> string list \<Rightarrow> string list"

text \<open>The kernel's \<^verbatim>\<open>remove_proc_entry\<close>: it takes the entry that has the name out of the directory and leaves the others.\<close>

definition proc_law :: "boot \<Rightarrow> bool" where
  "proc_law b \<longleftrightarrow>
     (\<forall>name e xs ys. name \<notin> fst ` set xs \<longrightarrow> name \<notin> fst ` set ys \<longrightarrow>
        remove_proc_entry b name (xs @ (name, e) # ys) = xs @ ys) \<and>
     (\<forall>name xs ys. name \<notin> set xs \<longrightarrow> name \<notin> set ys \<longrightarrow> remove_proc_root b name (xs @ name # ys) = xs @ ys)"

abbreviation CDSV :: int where "CDSV \<equiv> 1"

section \<open>Operations\<close>

definition pid_max_of :: "boot \<Rightarrow> 64 word" where
  "pid_max_of b = (if 0 < sint (max_param b) then max_param b else PID_MAX b)"

text \<open>
  The loop that initialises the array; its counter is an \<^verbatim>\<open>int\<close>.
\<close>

function init_procs :: "64 word \<Rightarrow> nat \<Rightarrow> chos_proc list \<Rightarrow> fault + chos_proc list" where
  "init_procs n i ps =
     (if 2 ^ 31 \<le> i then Inl Signed_Overflow
      else if i < unat n then
        (if i < length ps then init_procs n (Suc i) (ps[i := \<lparr>plink = None, pstart = - 1\<rparr>])
         else Inl Out_Of_Bounds)
      else Inr ps)"
  by pat_completeness auto
termination
  by (relation "measure (\<lambda>(n, i, ps). unat n - i)") auto

declare init_procs.simps [simp del]

text \<open>The two hooks in the system call table: setting them at the end of \<^verbatim>\<open>init_chos\<close>, and taking them back.\<close>

definition hook_exit :: "boot \<Rightarrow> host \<Rightarrow> host" where
  "hook_exit b h =
     (if SCT b then
        let h1 = h\<lparr>orig_sys_exit := sys_call_table h (NR_exit b)\<rparr>;
            h2 = h1\<lparr>orig_sys_exit_group := sys_call_table h1 (NR_exit_group b)\<rparr>;
            h3 = h2\<lparr>sys_call_table := (sys_call_table h2)(NR_exit b := addr_sys_exit b)\<rparr>
        in h3\<lparr>sys_call_table := (sys_call_table h3)(NR_exit_group b := addr_sys_exit_group b)\<rparr>
      else h)"

definition unhook_exit :: "boot \<Rightarrow> host \<Rightarrow> host" where
  "unhook_exit b h =
     (if SCT b then
        let h1 = h\<lparr>sys_call_table := (sys_call_table h)(NR_exit b := orig_sys_exit h)\<rparr>
        in h1\<lparr>sys_call_table := (sys_call_table h1)(NR_exit_group b := orig_sys_exit_group h1)\<rparr>
      else h)"

definition init_chos :: "boot \<Rightarrow> host \<Rightarrow> fault + int \<times> host" where
  "init_chos b h =
     (case kmalloc_ch b (\<lambda>a. saved h a \<noteq> None) of
        None \<Rightarrow> Inr (- 1, h\<lparr>ch := None\<rparr>)
      | Some p \<Rightarrow>
         let (retval, named, nochroot) =
               lookup_roots (feat b) (path_lookup b) (path_lookupat b) CHOSROOT (ch_memory b);
             n = pid_max_of b;
             psize = n * sizeof_chos_proc b
         in (case vmalloc b psize of
               None \<Rightarrow> Inr (- 1, h\<lparr>ch := Some p\<rparr>)
             | Some arr \<Rightarrow>
                 ebind (init_procs n 0 arr) (\<lambda>ps.
                 let k = (kern h)\<lparr>pid_max := n, procs := ps, ch_magic := 0x1234, ch_version := 1,
                           ch_named := named, ch_nochroot := nochroot, ch_fork_wrapped := 0\<rparr>
                 in ebind (init_do_fork (trap b) (ktext h)) (\<lambda>(r, x).
                    Inr (0, hook_exit b (h\<lparr>kern := (if r = 0 then k\<lparr>ch_fork_wrapped := 1\<rparr> else k), ch := Some p, ktext := x\<rparr>))))))"

definition recover_chos :: "64 word \<Rightarrow> host \<Rightarrow> fault + int \<times> host" where
  "recover_chos table h =
     (case saved h (unat table) of
        None \<Rightarrow> Inl Use_After_Free
      | Some ptr \<Rightarrow>
         if magic ptr \<noteq> 0x1234 then Inr (- 1, h)
         else if version ptr = CDSV then
           Inr (0, h\<lparr>ch := Some (unat table), saved := (saved h)(unat table := None),
             kern := (kern h)\<lparr>pid_max := cpid_max ptr, procs := cprocs ptr, ch_magic := magic ptr,
               ch_version := version ptr, ch_named := named ptr, ch_nochroot := nochroot ptr,
               ch_fork_wrapped := fork_wrapped ptr\<rparr>\<rparr>)
         else Inr (- 1, h))"

abbreviation MODULE_NAME :: string where "MODULE_NAME \<equiv> ''chos''"

definition handle_proc_entry_failure :: "boot \<Rightarrow> host \<Rightarrow> host" where
  "handle_proc_entry_failure b h = h\<lparr>proc_root := remove_proc_root b MODULE_NAME (proc_root h)\<rparr>"

definition chos_make_proc_entry :: "boot \<Rightarrow> string \<Rightarrow> nat \<Rightarrow> fops \<Rightarrow> host \<Rightarrow> host" where
  "chos_make_proc_entry b name mode f h =
     (if create_proc_entry b name then h\<lparr>proc_dir := proc_dir h @ [(name, mode, f)]\<rparr>
      else handle_proc_entry_failure b h)"

text \<open>A file mode, which the source writes in octal.\<close>

definition octal :: "nat \<Rightarrow> nat \<Rightarrow> nat \<Rightarrow> nat" where
  "octal u g o' = 64 * u + 8 * g + o'"

definition init_module :: "boot \<Rightarrow> host \<Rightarrow> fault + int \<times> host" where
  "init_module b h =
     ebind (if table_param b \<noteq> 0 then recover_chos (table_param b) h else init_chos b h) (\<lambda>(r, h1).
     if r \<noteq> 0 then Inr (- 1, h1)
     else if \<not> proc_mkdir b then Inr (- 1, h1)
     else
       let h2 = h1\<lparr>proc_root := proc_root h1 @ [MODULE_NAME]\<rparr>;
           h3 = chos_make_proc_entry b ''setchos'' (octal 6 6 6) setchos_fops h2;
           h4 = chos_make_proc_entry b ''resetchos'' (octal 6 6 6) resetchos_fops h3;
           h5 = chos_make_proc_entry b ''savestate'' (octal 6 0 0) savestate_fops h4;
           h6 = chos_make_proc_entry b ''version'' (octal 4 4 4) version_fops h5;
           h7 = chos_make_proc_entry b ''valid'' (octal 6 0 0) valid_fops h6
       in if \<not> proc_symlink b then Inl Null_Deref
          else Inr (0, h7\<lparr>proc_dir := proc_dir h7 @ [(''link'', (octal 7 7 7), link_inode_operations)]\<rparr>))"

text \<open>The six calls of \<^verbatim>\<open>remove_proc_entry\<close> when the module is unloaded.\<close>

definition remove_entries :: "boot \<Rightarrow> (string \<times> nat \<times> fops) list \<Rightarrow> (string \<times> nat \<times> fops) list" where
  "remove_entries b es =
     (let rm = remove_proc_entry b
      in rm ''valid'' (rm ''link'' (rm ''savestate'' (rm ''version'' (rm ''resetchos'' (rm ''setchos'' es))))))"

text \<open>The \<^verbatim>\<open>struct chos\<close> that \<^verbatim>\<open>ch\<close> points to, whose fields the kernel state holds.\<close>

definition chos_struct :: "kernel_state \<Rightarrow> chos" where
  "chos_struct k =
     \<lparr>magic = ch_magic k, version = ch_version k, cpid_max = pid_max k, cprocs = procs k, named = ch_named k,
      nochroot = ch_nochroot k, fork_wrapped = ch_fork_wrapped k\<rparr>"

definition cleanup_module :: "boot \<Rightarrow> host \<Rightarrow> fault + host" where
  "cleanup_module b h =
     (case ch h of
        None \<Rightarrow> Inl Null_Deref
      | Some p \<Rightarrow>
         ebind (if ch_fork_wrapped (kern h) \<noteq> 0 then cleanup_do_fork (trap b) (ktext h) else Inr (ktext h)) (\<lambda>x.
         let h1 = h\<lparr>ktext := x\<rparr>;
             hs = unhook_exit b h1;
             h2 = hs\<lparr>proc_dir := remove_entries b (proc_dir hs)\<rparr>;
             h3 = h2\<lparr>proc_root := remove_proc_root b MODULE_NAME (proc_root h2)\<rparr>
         in if save_state (kern h3) = 0 then Inr (h3\<lparr>kern := (kern h3)\<lparr>procs := []\<rparr>\<rparr>)
            else Inr (h3\<lparr>saved := (saved h3)(p \<mapsto> chos_struct (kern h3))\<rparr>)))"

text \<open>
  What loading the module's image does: its variables have their initial values, an empty list of valid paths, no saved state,
  a null \<^verbatim>\<open>ch\<close>, null \<^verbatim>\<open>orig_sys_exit\<close> and \<^verbatim>\<open>orig_sys_exit_group\<close>, and a zeroed \<^verbatim>\<open>jumper\<close> of \<^verbatim>\<open>PAGE_ALIGN(LENGTH)\<close> words.
\<close>

definition page_align :: "nat \<Rightarrow> nat" where
  "page_align n = (n + 4095) div 4096 * 4096"

definition load_image :: "trap_config \<Rightarrow> host \<Rightarrow> host" where
  "load_image c h =
     h\<lparr>kern := (kern h)\<lparr>valid_paths := [], save_state := 0\<rparr>, ch := None, orig_sys_exit := 0, orig_sys_exit_group := 0,
       ktext := (ktext h)\<lparr>mem := (\<lambda>a. if unat (a - jumper c) < 8 * page_align (CODE_LENGTH c) then 0 else mem (ktext h) a)\<rparr>\<rparr>"

section \<open>The array\<close>

lemma init_procs_ok:
  assumes "length ps = unat n" and "unat n < 2 ^ 31" and "i \<le> unat n"
    and "\<forall>j < i. ps ! j = \<lparr>plink = None, pstart = - 1\<rparr>"
  shows "init_procs n i ps = Inr (replicate (unat n) \<lparr>plink = None, pstart = - 1\<rparr>)"
  using assms
proof (induction n i ps rule: init_procs.induct)
  case (1 n i ps)
  show ?case
  proof (cases "i < unat n")
    case True
    then have "init_procs n i ps = init_procs n (Suc i) (ps[i := \<lparr>plink = None, pstart = - 1\<rparr>])"
      using "1.prems" by (simp add: init_procs.simps [of n i])
    also have "\<dots> = Inr (replicate (unat n) \<lparr>plink = None, pstart = - 1\<rparr>)"
      using True "1.prems" by (intro "1.IH") (auto simp: nth_list_update less_Suc_eq)
    finally show ?thesis .
  next
    case False
    then have "init_procs n i ps = Inr ps" using "1.prems" by (subst init_procs.simps) simp
    moreover have "ps = replicate (unat n) \<lparr>plink = None, pstart = - 1\<rparr>"
      using False "1.prems" by (intro nth_equalityI) auto
    ultimately show ?thesis by simp
  qed
qed

lemma init_procs_short:
  assumes "i \<le> length ps" and "length ps < unat n" and "length ps < 2 ^ 31"
  shows "init_procs n i ps = Inl Out_Of_Bounds"
  using assms
proof (induction n i ps rule: init_procs.induct)
  case (1 n i ps)
  then show ?case by (subst init_procs.simps) (auto simp: not_less)
qed

section \<open>Loading\<close>

text \<open>
  What loading without a saved table relies on: the array fits into the address space and the counter, and the
  kernel gives the memory that is asked for.
\<close>

definition boot_ok :: "boot \<Rightarrow> host \<Rightarrow> bool" where
  "boot_ok b h \<longleftrightarrow>
     trap_layout (trap b) \<and> kmalloc_ch b (\<lambda>a. saved h a \<noteq> None) \<noteq> None \<and> unat (pid_max_of b) < 2 ^ 31 \<and>
     (\<exists>arr. vmalloc b (pid_max_of b * sizeof_chos_proc b) = Some arr \<and> length arr = unat (pid_max_of b))"

text \<open>The kernel state of a module whose \<^verbatim>\<open>init_do_fork\<close> has returned \<open>r\<close>.\<close>

definition fresh_kernel :: "boot \<Rightarrow> int \<Rightarrow> kernel_state \<Rightarrow> kernel_state" where
  "fresh_kernel b r k =
     (let (_, named, nochroot) = lookup_roots (feat b) (path_lookup b) (path_lookupat b) CHOSROOT (ch_memory b)
      in k\<lparr>pid_max := pid_max_of b, procs := replicate (unat (pid_max_of b)) \<lparr>plink = None, pstart = - 1\<rparr>,
           ch_magic := 0x1234, ch_version := 1, ch_named := named, ch_nochroot := nochroot,
           ch_fork_wrapped := (if r = 0 then 1 else 0)\<rparr>)"

lemma fresh_kernel_fields [simp]:
  "links (fresh_kernel b r k) = links k" "bufs (fresh_kernel b r k) = bufs k"
  "valid_paths (fresh_kernel b r k) = valid_paths k" "save_state (fresh_kernel b r k) = save_state k"
  "pid_max (fresh_kernel b r k) = pid_max_of b" "ch_magic (fresh_kernel b r k) = 0x1234" "ch_version (fresh_kernel b r k) = 1"
  "procs (fresh_kernel b r k) = replicate (unat (pid_max_of b)) \<lparr>plink = None, pstart = - 1\<rparr>"
  "ch_fork_wrapped (fresh_kernel b r k) = (if r = 0 then 1 else 0)"
  "ch_nochroot (fresh_kernel b r k) = snd (snd (lookup_roots (feat b) (path_lookup b) (path_lookupat b) CHOSROOT (ch_memory b)))"
  "ch_named (fresh_kernel b r k) = fst (snd (lookup_roots (feat b) (path_lookup b) (path_lookupat b) CHOSROOT (ch_memory b)))"
  by (simp_all add: fresh_kernel_def Let_def case_prod_unfold)

lemma hook_exit_fields [simp]:
  "kern (hook_exit b h) = kern h" "ch (hook_exit b h) = ch h" "saved (hook_exit b h) = saved h" "ktext (hook_exit b h) = ktext h"
  "proc_root (hook_exit b h) = proc_root h" "proc_dir (hook_exit b h) = proc_dir h"
  "kern (unhook_exit b h) = kern h" "ch (unhook_exit b h) = ch h" "saved (unhook_exit b h) = saved h"
  "ktext (unhook_exit b h) = ktext h" "proc_root (unhook_exit b h) = proc_root h" "proc_dir (unhook_exit b h) = proc_dir h"
  by (simp_all add: hook_exit_def unhook_exit_def Let_def)

lemma init_chos_ok:
  assumes "boot_ok b h"
  obtains p r x where "kmalloc_ch b (\<lambda>a. saved h a \<noteq> None) = Some p"
    "init_do_fork (trap b) (ktext h) = Inr (r, x)"
    "init_chos b h = Inr (0, hook_exit b (h\<lparr>kern := fresh_kernel b r (kern h), ch := Some p, ktext := x\<rparr>))"
proof -
  obtain p where p: "kmalloc_ch b (\<lambda>a. saved h a \<noteq> None) = Some p" using assms by (auto simp: boot_ok_def)
  obtain arr where arr: "vmalloc b (pid_max_of b * sizeof_chos_proc b) = Some arr" "length arr = unat (pid_max_of b)"
    using assms by (auto simp: boot_ok_def)
  have ps: "init_procs (pid_max_of b) 0 arr = Inr (replicate (unat (pid_max_of b)) \<lparr>plink = None, pstart = - 1\<rparr>)"
    using arr(2) assms by (intro init_procs_ok) (simp_all add: boot_ok_def)
  have lay: "trap_layout (trap b)" using assms by (simp add: boot_ok_def)
  obtain r x where r: "init_do_fork (trap b) (ktext h) = Inr (r, x)"
    using init_do_fork_cases [OF lay, of "ktext h"] by (metis (full_types))
  have "init_chos b h = Inr (0, hook_exit b (h\<lparr>kern := fresh_kernel b r (kern h), ch := Some p, ktext := x\<rparr>))"
    unfolding init_chos_def p option.case Let_def case_prod_unfold arr(1) ps ebind_simps r prod.sel fresh_kernel_def
    by (cases "r = 0") simp_all
  with that p r show ?thesis by blast
qed

text \<open>A module without links is well formed, and nobody has a path.\<close>

lemma empty_kernel:
  assumes "\<And>l. links k l = None" and "procs k = replicate (unat (pid_max k)) \<lparr>plink = None, pstart = - 1\<rparr>"
    and "unat (pid_max k) < 2 ^ 31" and "valid_paths k = []"
  shows "kernel_inv k" and "view k i = None"
proof -
  have refs: "refs k l = 0" for l using assms(2) by (simp add: refs_def)
  have tx: "texts k = {}" using assms(1) by (auto simp: texts_iff)
  show "kernel_inv k"
    unfolding kernel_inv_def link_inv_def path_inv_def orphans_def path_bufs_def
    using assms refs tx by auto
  show "view k i = None" using assms(2) by (simp add: view_def)
qed

section \<open>Saving and resuming\<close>

lemma make_proc_entry_fields [simp]:
  "kern (chos_make_proc_entry b name mode f h) = kern h" "ch (chos_make_proc_entry b name mode f h) = ch h"
  "ktext (chos_make_proc_entry b name mode f h) = ktext h"
  "sys_call_table (chos_make_proc_entry b name mode f h) = sys_call_table h"
  "orig_sys_exit (chos_make_proc_entry b name mode f h) = orig_sys_exit h"
  "orig_sys_exit_group (chos_make_proc_entry b name mode f h) = orig_sys_exit_group h"
  by (simp_all add: chos_make_proc_entry_def handle_proc_entry_failure_def)

text \<open>The kernel code after unloading.\<close>

definition unloads_text :: "boot \<Rightarrow> host \<Rightarrow> text_state \<Rightarrow> bool" where
  "unloads_text b h x \<longleftrightarrow>
     (if ch_fork_wrapped (kern h) \<noteq> 0 then cleanup_do_fork (trap b) (ktext h) else Inr (ktext h)) = Inr x"

lemma unloads_text_total:
  obtains x where "unloads_text b h x"
  by (cases "ch_fork_wrapped (kern h) = 0"; rule cleanup_do_fork_total [of "trap b" "ktext h"])
    (simp_all add: unloads_text_def)

lemma unhook_exit_text: "sys_call_table (unhook_exit b (h\<lparr>ktext := x\<rparr>)) = sys_call_table (unhook_exit b h)"
  by (simp add: unhook_exit_def Let_def)

lemma cleanup_module_saves:
  assumes "ch h = Some p" and "save_state (kern h) \<noteq> 0"
  obtains h1 where "cleanup_module b h = Inr h1" "kern h1 = kern h" "saved h1 p = Some (chos_struct (kern h))"
    "unloads_text b h (ktext h1)"
proof -
  obtain x where "unloads_text b h x" by (rule unloads_text_total)
  then have "\<exists>h1. cleanup_module b h = Inr h1 \<and> kern h1 = kern h \<and> saved h1 p = Some (chos_struct (kern h)) \<and>
      unloads_text b h (ktext h1)"
    using assms by (simp add: cleanup_module_def Let_def unloads_text_def)
  with that show ?thesis by blast
qed

text \<open>\<open>b\<close> is the build that is unloaded and \<open>b'\<close> the one that is loaded in its place.\<close>

lemma save_resume:
  assumes p: "ch h = Some p" "p \<noteq> 0" "p < 2 ^ 64"
    and save: "save_state (kern h) \<noteq> 0" and struct: "ch_magic (kern h) = 0x1234" "ch_version (kern h) = 1"
    and b: "table_param b' = of_nat p" "proc_mkdir b'" "proc_symlink b'"
  obtains h1 h2 where "cleanup_module b h = Inr h1" "init_module b' (load_image c h1) = Inr (0, h2)"
    "kern h2 = (kern h)\<lparr>valid_paths := [], save_state := 0\<rparr>" "ch h2 = Some p" "ktext h2 = ktext (load_image c h1)"
    "orig_sys_exit h2 = 0" "orig_sys_exit_group h2 = 0" "sys_call_table h2 = sys_call_table h1"
proof -
  obtain h1 where h1: "cleanup_module b h = Inr h1" "kern h1 = kern h" "saved h1 p = Some (chos_struct (kern h))"
    using cleanup_module_saves [OF p(1) save] by metis
  have tab: "unat (of_nat p :: 64 word) = p" using p(3) by (simp add: unat_of_nat)
  then have nz: "(of_nat p :: 64 word) \<noteq> 0" using p(2) by (metis unat_0)
  let ?k = "(kern h)\<lparr>valid_paths := [], save_state := 0\<rparr>"
  have rec: "recover_chos (of_nat p) (load_image c h1) =
      Inr (0, (load_image c h1)\<lparr>ch := Some p, saved := (saved h1)(p := None), kern := ?k\<rparr>)"
    using h1(2,3) struct tab by (simp add: recover_chos_def load_image_def chos_struct_def)
  have "\<exists>h2. init_module b' (load_image c h1) = Inr (0, h2) \<and> kern h2 = ?k \<and> ch h2 = Some p \<and>
      ktext h2 = ktext (load_image c h1) \<and> orig_sys_exit h2 = 0 \<and> orig_sys_exit_group h2 = 0 \<and>
      sys_call_table h2 = sys_call_table h1"
    using b nz by (simp add: init_module_def rec Let_def) (simp add: load_image_def)
  with that h1(1) show ?thesis by blast
qed

abbreviation proc_names :: "string set" where
  "proc_names \<equiv> {''setchos'', ''resetchos'', ''version'', ''savestate'', ''link'', ''valid''}"

lemma proc_law_once:
  assumes law: "proc_law b" and once: "filter (\<lambda>e. fst e = name) es = [x]"
  shows "remove_proc_entry b name es = filter (\<lambda>e. fst e \<noteq> name) es"
proof -
  obtain us vs where es: "es = us @ x # vs" "\<forall>e \<in> set us. fst e \<noteq> name" "fst x = name" "filter (\<lambda>e. fst e = name) vs = []"
    using once unfolding filter_eq_Cons_iff by auto
  have vs: "\<forall>e \<in> set vs. fst e \<noteq> name" using es(4) by (simp add: filter_empty_conv)
  have "name \<notin> fst ` set us" "name \<notin> fst ` set vs" using es(2) vs by auto
  then have "remove_proc_entry b name (us @ (name, snd x) # vs) = us @ vs"
    by (rule law [unfolded proc_law_def, THEN conjunct1, rule_format])
  moreover have "(name, snd x) = x" using es(3) by auto
  moreover have "filter (\<lambda>e. fst e \<noteq> name) us = us" "filter (\<lambda>e. fst e \<noteq> name) vs = vs"
    using es(2) vs by (simp_all add: filter_id_conv)
  ultimately show ?thesis using es(1,3) by simp
qed

lemma cleanup_module_text:
  assumes "ch h = Some p"
  obtains h1 where "cleanup_module b h = Inr h1" "unloads_text b h (ktext h1)"
    "sys_call_table h1 = sys_call_table (unhook_exit b h)" "proc_root h1 = remove_proc_root b MODULE_NAME (proc_root h)"
    "proc_dir h1 = remove_entries b (proc_dir h)"
    "links (kern h1) = links (kern h)" "bufs (kern h1) = bufs (kern h)" "valid_paths (kern h1) = valid_paths (kern h)"
    "save_state (kern h) = 0 \<Longrightarrow> procs (kern h1) = []"
proof -
  obtain x where "unloads_text b h x" by (rule unloads_text_total)
  then have "\<exists>h1. cleanup_module b h = Inr h1 \<and> unloads_text b h (ktext h1) \<and>
      sys_call_table h1 = sys_call_table (unhook_exit b h) \<and> proc_root h1 = remove_proc_root b MODULE_NAME (proc_root h) \<and>
      proc_dir h1 = remove_entries b (proc_dir h) \<and>
      links (kern h1) = links (kern h) \<and> bufs (kern h1) = bufs (kern h) \<and> valid_paths (kern h1) = valid_paths (kern h) \<and>
      (save_state (kern h) = 0 \<longrightarrow> procs (kern h1) = [])"
    using assms by (cases "save_state (kern h) = 0")
      (simp_all add: cleanup_module_def Let_def unhook_exit_text unloads_text_def)
  with that show ?thesis by blast
qed

lemma le_page_align: "n \<le> page_align n"
  using div_mult_mod_eq [of "n + 4095" 4096] mod_less_divisor [of 4096 "n + 4095"] unfolding page_align_def by linarith

lemma drop_paths:
  assumes "kernel_inv k"
  shows "kernel_inv (k\<lparr>valid_paths := [], save_state := 0\<rparr>)"
    and "view (k\<lparr>valid_paths := [], save_state := 0\<rparr>) = view k"
proof -
  let ?k = "k\<lparr>valid_paths := [], save_state := 0\<rparr>"
  have part: "link_inv ?k \<longleftrightarrow> link_inv k" "view ?k = view k" "orphans ?k = orphans k"
    by (rule link_part_cong; simp)+
  then show "view ?k = view k" by blast
  have "path_inv ?k" by (simp add: path_inv_def path_bufs_def)
  with part assms show "kernel_inv ?k" by (simp add: kernel_inv_def)
qed

section \<open>Properties\<close>

text \<open>
  C31. Loading the module without a saved table, when the kernel grants every request, returns 0 and leaves a
  well-formed state in which no process has a path; the trap is recorded exactly when \<^verbatim>\<open>init_do_fork\<close> installed it; and
  \<^verbatim>\<open>/proc/chos\<close> has its six entries, of which \<^verbatim>\<open>valid\<close> and \<^verbatim>\<open>savestate\<close> are the owner's only.
\<close>

theorem init_module_starts:
  assumes boot: "boot_ok b h" and table: "table_param b = 0"
    and image: "\<And>l. links (kern h) l = None" "valid_paths (kern h) = []" "proc_dir h = []"
    and proc: "proc_mkdir b" "\<And>name. create_proc_entry b name" "proc_symlink b"
  shows "\<exists>h'. init_module b h = Inr (0, h') \<and> kernel_inv (kern h') \<and> (\<forall>i. view (kern h') i = None) \<and>
    pid_max (kern h') = (if 0 < sint (max_param b) then max_param b else PID_MAX b) \<and>
    (ch_fork_wrapped (kern h') = 1 \<longleftrightarrow> init_do_fork (trap b) (ktext h) = Inr (0, ktext h')) \<and>
    proc_dir h' = [(''setchos'', octal 6 6 6, setchos_fops), (''resetchos'', octal 6 6 6, resetchos_fops),
      (''savestate'', octal 6 0 0, savestate_fops), (''version'', octal 4 4 4, version_fops),
      (''valid'', octal 6 0 0, valid_fops), (''link'', octal 7 7 7, link_inode_operations)]"
proof -
  obtain p r x where init: "init_do_fork (trap b) (ktext h) = Inr (r, x)"
      "init_chos b h = Inr (0, hook_exit b (h\<lparr>kern := fresh_kernel b r (kern h), ch := Some p, ktext := x\<rparr>))"
    by (rule init_chos_ok [OF boot])
  have k: "kernel_inv (fresh_kernel b r (kern h))" "view (fresh_kernel b r (kern h)) i = None" for i
    using boot image(1,2) by (intro empty_kernel; simp add: boot_ok_def)+
  show ?thesis
    using init(1) table proc image(3) k
    by (simp add: init_module_def init(2) chos_make_proc_entry_def Let_def pid_max_of_def)
qed

definition demo_boot :: boot where
  "demo_boot =
     \<lparr>trap = demo_trap, kmalloc_ch = demo_alloc 60,
      vmalloc = (\<lambda>size. if size = 120 then Some (replicate 5 \<lparr>plink = Some 99, pstart = 3\<rparr>) else None),
      feat = features_of EL6 True, path_lookup = (\<lambda>x. (0, \<lparr>mnt = 1, d_inode = (if x = ''/'' then 2 else 77)\<rparr>)),
      path_lookupat = (\<lambda>_. (- 1, \<lparr>mnt = 0, d_inode = 0\<rparr>)), ch_memory = \<lparr>mnt = 13, d_inode = 13\<rparr>,
      sizeof_chos_proc = 24, PID_MAX = 0x8000, max_param = 5, table_param = 0,
      SCT = True, NR_exit = 60, NR_exit_group = 231, addr_sys_exit = 0x3100, addr_sys_exit_group = 0x3200,
      proc_mkdir = True, create_proc_entry = (\<lambda>_. True), proc_symlink = True,
      remove_proc_entry = (\<lambda>name. filter (\<lambda>e. fst e \<noteq> name)), remove_proc_root = remove1\<rparr>"

definition demo_host :: host where
  "demo_host =
     \<lparr>kern = demo_kernel\<lparr>links := (\<lambda>_. None), bufs := (\<lambda>_. None), procs := [], pid_max := 0, valid_paths := []\<rparr>,
      ch = None, saved = (\<lambda>_. None), ktext = demo_text, proc_root = [], proc_dir = [],
      sys_call_table = (\<lambda>n. 0x8000 + of_nat n), orig_sys_exit = 0, orig_sys_exit_group = 0\<rparr>"

abbreviation demo_reboot :: boot where "demo_reboot \<equiv> demo_boot\<lparr>table_param := 60\<rparr>"

lemma demo_reboot_trap [simp]: "trap demo_reboot = demo_trap" "trap demo_boot = demo_trap"
  by (simp_all add: demo_boot_def)

lemma demo_proc_law: "proc_law demo_boot"
proof -
  have "filter (\<lambda>e. fst e \<noteq> name) xs = xs" if "name \<notin> fst ` set xs" for name and xs :: "(string \<times> nat \<times> fops) list"
    using that by (auto simp: filter_id_conv)
  then show ?thesis by (auto simp: proc_law_def demo_boot_def remove1_append)
qed

lemma demo_boot_ok: "boot_ok demo_boot demo_host"
  using demo_layout by (simp add: boot_ok_def demo_boot_def demo_host_def pid_max_of_def demo_alloc_def)

theorem init_module_starts_witness:
  "\<exists>h'. init_module demo_boot demo_host = Inr (0, h') \<and> kernel_inv (kern h') \<and> pid_max (kern h') = 5 \<and>
     (''valid'', 384, valid_fops) \<in> set (proc_dir h')"
  using init_module_starts [OF demo_boot_ok] by (auto simp: demo_boot_def demo_host_def octal_def)

text \<open>
  C32. A module that is unloaded with the save flag set and loaded again with the address of its table resumes
  with the same links: it returns 0, every process has what it had, and the table is well formed. Of what the
  old module had, the list of valid paths is lost.
\<close>

theorem save_restore:
  assumes inv: "kernel_inv (kern h)" and p: "ch h = Some p" "p \<noteq> 0" "p < 2 ^ 64"
    and save: "save_state (kern h) \<noteq> 0" and struct: "ch_magic (kern h) = 0x1234" "ch_version (kern h) = 1"
    and b: "table_param b' = of_nat p" "proc_mkdir b'" "proc_symlink b'"
  shows "\<exists>h1 h2. cleanup_module b h = Inr h1 \<and> init_module b' (load_image (trap b') h1) = Inr (0, h2) \<and>
    kernel_inv (kern h2) \<and> view (kern h2) = view (kern h) \<and> ch h2 = Some p \<and>
    ch_named (kern h2) = ch_named (kern h) \<and> ch_fork_wrapped (kern h2) = ch_fork_wrapped (kern h) \<and>
    valid_strings (kern h2) = []"
proof -
  obtain h1 h2 where h: "cleanup_module b h = Inr h1" "init_module b' (load_image (trap b') h1) = Inr (0, h2)"
      "kern h2 = (kern h)\<lparr>valid_paths := [], save_state := 0\<rparr>" "ch h2 = Some p"
    by (rule save_resume [OF p save struct b])
  have "kernel_inv (kern h2)" "view (kern h2) = view (kern h)"
    unfolding h(3) using drop_paths [OF inv] by simp_all
  with h show ?thesis by (simp add: valid_strings_def)
qed

definition demo_loaded :: host where
  "demo_loaded =
     \<lparr>kern = demo_kernel\<lparr>save_state := 1\<rparr>, ch = Some 60, saved = (\<lambda>_. None), ktext = demo_text,
      proc_root = [''chos''], proc_dir = [], sys_call_table = (\<lambda>n. 0x8000 + of_nat n),
      orig_sys_exit = 0x803c, orig_sys_exit_group = 0x80e7\<rparr>"

lemma demo_loaded_inv: "kernel_inv (kern demo_loaded)"
  using kernel_cong(1) [of "kern demo_loaded" demo_kernel] demo_kernel_inv by (simp add: demo_loaded_def)

theorem save_restore_witness:
  "\<exists>h1 h2. cleanup_module demo_boot demo_loaded = Inr h1 \<and>
     init_module demo_reboot (load_image demo_trap h1) = Inr (0, h2) \<and>
     view (kern h2) 2 = Some (''/os/sl6'', 100)"
proof -
  have "view (kern demo_loaded) = view demo_kernel"
    by (rule kernel_cong(2)) (simp_all add: demo_loaded_def)
  then have v: "view (kern demo_loaded) 2 = Some (''/os/sl6'', 100)" by (simp add: demo_kernel_link demo_view)
  have "\<exists>h1 h2. cleanup_module demo_boot demo_loaded = Inr h1 \<and>
      init_module demo_reboot (load_image demo_trap h1) = Inr (0, h2) \<and>
      kernel_inv (kern h2) \<and> view (kern h2) = view (kern demo_loaded) \<and> ch h2 = Some 60 \<and>
      ch_named (kern h2) = ch_named (kern demo_loaded) \<and> ch_fork_wrapped (kern h2) = ch_fork_wrapped (kern demo_loaded) \<and>
      valid_strings (kern h2) = []"
    by (rule save_restore [where b' = demo_reboot and b = demo_boot, OF demo_loaded_inv, unfolded demo_reboot_trap]) (simp_all add: demo_loaded_def demo_kernel_def demo_boot_def)
  with v show ?thesis by auto
qed

text \<open>
  Saving the state of a module that has trapped \<^verbatim>\<open>do_fork\<close> is not safe: unloading removes the trap, but the saved
  table still says that there is one and resuming does not install it again. The next unloading then
  copies the new module's \<^verbatim>\<open>jumper\<close>, which is still zero, over the first instructions of \<^verbatim>\<open>do_fork\<close>.
\<close>

theorem resumed_unload_overwrites:
  assumes lay: "trap_layout (trap b')" and p: "ch h = Some p" "p \<noteq> 0" "p < 2 ^ 64"
    and save: "save_state (kern h) \<noteq> 0" and wrapped: "ch_fork_wrapped (kern h) = 1"
    and struct: "ch_magic (kern h) = 0x1234" "ch_version (kern h) = 1"
    and b: "table_param b' = of_nat p" "proc_mkdir b'" "proc_symlink b'"
  shows "\<exists>h1 h2 h3. cleanup_module b h = Inr h1 \<and> init_module b' (load_image (trap b') h1) = Inr (0, h2) \<and>
    cleanup_module b' h2 = Inr h3 \<and>
    (\<forall>i < CODE_LENGTH (trap b'). mem (ktext h3) (START_ADD (trap b') + of_nat i) = 0)"
proof -
  obtain h1 h2 where h: "cleanup_module b h = Inr h1" "init_module b' (load_image (trap b') h1) = Inr (0, h2)"
      "kern h2 = (kern h)\<lparr>valid_paths := [], save_state := 0\<rparr>" "ch h2 = Some p" "ktext h2 = ktext (load_image (trap b') h1)"
    by (rule save_resume [OF p save struct b])
  have "ch_fork_wrapped (kern h2) \<noteq> 0" using wrapped h(3) by simp
  then obtain h3 where h3: "cleanup_module b' h2 = Inr h3" "cleanup_do_fork (trap b') (ktext h2) = Inr (ktext h3)"
    using cleanup_module_text [OF h(4), of b'] unfolding unloads_text_def by metis
  then have t3: "ktext h3 = (ktext h2)\<lparr>mem := memcpy (START_ADD (trap b')) (jumper (trap b')) (CODE_LENGTH (trap b')) (mem (ktext h2))\<rparr>"
    using cleanup_do_fork_mem [OF lay, of "ktext h2"] by simp
  have "mem (ktext h3) (START_ADD (trap b') + of_nat i) = 0" if i: "i < CODE_LENGTH (trap b')" for i
  proof -
    have "i < 2 ^ 64" using i trap_layoutD(1) [OF lay] by simp
    then have off: "unat (of_nat i :: 64 word) = i" by (simp add: unat_of_nat)
    then have "mem (ktext h3) (START_ADD (trap b') + of_nat i) = mem (ktext h2) (jumper (trap b') + of_nat i)"
      using i by (simp add: t3 memcpy_def)
    also have "\<dots> = 0"
      using i off le_page_align [of "CODE_LENGTH (trap b')"] by (simp add: h(5) load_image_def)
    finally show ?thesis .
  qed
  with h(1,2) h3(1) show ?thesis by blast
qed

theorem resumed_unload_overwrites_witness:
  "\<exists>h1 h2 h3. cleanup_module demo_boot demo_loaded = Inr h1 \<and>
     init_module demo_reboot (load_image demo_trap h1) = Inr (0, h2) \<and>
     cleanup_module demo_reboot h2 = Inr h3 \<and> mem (ktext h3) 0x1000 = 0 \<and> mem (ktext demo_loaded) 0x1000 = 0x41"
proof -
  have "\<exists>h1 h2 h3. cleanup_module demo_boot demo_loaded = Inr h1 \<and>
      init_module demo_reboot (load_image demo_trap h1) = Inr (0, h2) \<and>
      cleanup_module demo_reboot h2 = Inr h3 \<and>
      (\<forall>i < CODE_LENGTH demo_trap. mem (ktext h3) (START_ADD demo_trap + of_nat i) = 0)"
    by (rule resumed_unload_overwrites [where b' = demo_reboot and b = demo_boot and h = demo_loaded and p = 60, unfolded demo_reboot_trap, OF demo_layout])
      (simp_all add: demo_loaded_def demo_kernel_def demo_boot_def)
  then obtain h1 h2 h3 where h: "cleanup_module demo_boot demo_loaded = Inr h1"
      "init_module demo_reboot (load_image demo_trap h1) = Inr (0, h2)"
      "cleanup_module demo_reboot h2 = Inr h3" "\<forall>i < 12. mem (ktext h3) (0x1000 + of_nat i) = 0"
    by (auto simp: demo_trap_def)
  have "mem (ktext h3) 0x1000 = 0" using h(4) [rule_format, of 0] by simp
  moreover have "mem (ktext demo_loaded) 0x1000 = 0x41" by (simp add: demo_loaded_def demo_text_def demo_opcode_def)
  ultimately show ?thesis using h by blast
qed

text \<open>
  C33. Loading the module and unloading it again leaves the kernel as it was: outside the module's own \<^verbatim>\<open>jumper\<close> every
  byte of memory, the system call table and the entries under \<^verbatim>\<open>/proc\<close> are what they were, and so is the page table
  entry unless the trap failed half-way. While the module is loaded and built with \<^verbatim>\<open>SCT\<close>, both exit calls go to the
  module's functions.
\<close>

theorem module_roundtrip:
  assumes boot: "boot_ok b h" and table: "table_param b = 0"
    and host: "proc_dir h = []" "MODULE_NAME \<notin> set (proc_root h)"
    and proc: "proc_mkdir b" "\<And>name. create_proc_entry b name" "proc_symlink b" "proc_law b"
  shows "\<exists>h1 h2. init_module b h = Inr (0, h1) \<and> cleanup_module b h1 = Inr h2 \<and>
    (SCT b \<and> NR_exit b \<noteq> NR_exit_group b \<longrightarrow> sys_call_table h1 (NR_exit b) = addr_sys_exit b \<and>
      sys_call_table h1 (NR_exit_group b) = addr_sys_exit_group b) \<and>
    sys_call_table h2 = sys_call_table h \<and> proc_root h2 = proc_root h \<and> proc_dir h2 = [] \<and>
    (\<forall>a. a \<notin> region (jumper (trap b)) (CODE_LENGTH (trap b) + 9) \<longrightarrow> mem (ktext h2) a = mem (ktext h) a) \<and>
    (ch_fork_wrapped (kern h1) = 1 \<longrightarrow> pte (ktext h2) = pte (ktext h))"
proof -
  have lay: "trap_layout (trap b)" using boot by (simp add: boot_ok_def)
  obtain p r x where init: "init_do_fork (trap b) (ktext h) = Inr (r, x)"
      "init_chos b h = Inr (0, hook_exit b (h\<lparr>kern := fresh_kernel b r (kern h), ch := Some p, ktext := x\<rparr>))"
    by (rule init_chos_ok [OF boot])
  obtain h1 where h1: "init_module b h = Inr (0, h1)" "kern h1 = fresh_kernel b r (kern h)" "ch h1 = Some p" "ktext h1 = x"
      "proc_root h1 = proc_root h @ [MODULE_NAME]"
      "proc_dir h1 = [(''setchos'', octal 6 6 6, setchos_fops), (''resetchos'', octal 6 6 6, resetchos_fops),
        (''savestate'', octal 6 0 0, savestate_fops), (''version'', octal 4 4 4, version_fops),
        (''valid'', octal 6 0 0, valid_fops), (''link'', octal 7 7 7, link_inode_operations)]"
      "sys_call_table h1 = sys_call_table (hook_exit b h)"
      "sys_call_table (unhook_exit b h1) = sys_call_table (unhook_exit b (hook_exit b h))"
    using table proc(1-3) host(1)
    by (simp add: init_module_def init(2) chos_make_proc_entry_def Let_def)
      (simp add: hook_exit_def unhook_exit_def Let_def)
  obtain h2 where h2: "cleanup_module b h1 = Inr h2"
      "unloads_text b h1 (ktext h2)"
      "sys_call_table h2 = sys_call_table (unhook_exit b h1)" "proc_root h2 = remove_proc_root b MODULE_NAME (proc_root h1)"
      "proc_dir h2 = remove_entries b (proc_dir h1)"
    using cleanup_module_text [OF h1(3), of b] by metis
  have sct: "sys_call_table (unhook_exit b (hook_exit b h)) = sys_call_table h"
    by (auto simp: hook_exit_def unhook_exit_def Let_def fun_eq_iff)
  have hooked: "SCT b \<and> NR_exit b \<noteq> NR_exit_group b \<longrightarrow> sys_call_table h1 (NR_exit b) = addr_sys_exit b \<and>
      sys_call_table h1 (NR_exit_group b) = addr_sys_exit_group b"
    by (simp add: h1(7) hook_exit_def Let_def)
  have dir: "proc_dir h2 = []" unfolding h2(5) h1(6) by (simp add: remove_entries_def Let_def proc_law_once [OF proc(4)])
  have root: "proc_root h2 = proc_root h" using h2(4) h1(5) host(2) proc(4) by (simp add: proc_law_def)
  have ktext: "(\<forall>a. a \<notin> region (jumper (trap b)) (CODE_LENGTH (trap b) + 9) \<longrightarrow> mem (ktext h2) a = mem (ktext h) a) \<and>
      (ch_fork_wrapped (kern h1) = 1 \<longrightarrow> pte (ktext h2) = pte (ktext h))"
  proof (cases "r = 0")
    case True
    then obtain x2 where "cleanup_do_fork (trap b) x = Inr x2" "pte x2 = pte (ktext h)"
        "\<And>a. a \<notin> region (jumper (trap b)) (CODE_LENGTH (trap b) + 9) \<Longrightarrow> mem x2 a = mem (ktext h) a"
      using trap_undone [OF lay] init(1) by metis
    with True h2(2) h1(2,4) show ?thesis by (simp add: unloads_text_def)
  next
    case False
    then have "ktext h2 = x" using h2(2) h1(2,4) by (simp add: unloads_text_def)
    with False untrapped [OF lay init(1)] h1(2) show ?thesis by simp
  qed
  then show ?thesis using h1(1) h2(1,3) h1(8) sct hooked dir root by (intro exI [of _ h1] exI [of _ h2]) simp
qed

theorem module_roundtrip_witness:
  "\<exists>h1 h2. init_module demo_boot demo_host = Inr (0, h1) \<and> cleanup_module demo_boot h1 = Inr h2 \<and>
     sys_call_table h1 60 = 0x3100 \<and> sys_call_table h2 60 = 0x803c \<and> mem (ktext h2) 0x1000 = 0x41"
proof -
  obtain h1 h2 where h: "init_module demo_boot demo_host = Inr (0, h1)" "cleanup_module demo_boot h1 = Inr h2"
      "sys_call_table h1 60 = 0x3100" "sys_call_table h2 = sys_call_table demo_host"
      "\<forall>a. a \<notin> region (jumper demo_trap) (CODE_LENGTH demo_trap + 9) \<longrightarrow> mem (ktext h2) a = mem (ktext demo_host) a"
    using module_roundtrip [OF demo_boot_ok] demo_proc_law by (auto simp: demo_boot_def demo_host_def)
  have "mem (ktext h2) 0x1000 = 0x41"
    using h(5) [rule_format, of "0x1000"] by (simp add: region_def demo_trap_def demo_host_def demo_text_def demo_opcode_def)
  with h show ?thesis by (auto simp: demo_host_def)
qed

text \<open>
  With \<^verbatim>\<open>SCT\<close>, saving the state is not safe either: a resumed module does not hook the exit calls, its variables for the old
  entries are null, and unloading it writes these into the system call table, so that the next exit of any process
  jumps to address 0.
\<close>

theorem resumed_unload_null_exit:
  assumes p: "ch h = Some p" "p \<noteq> 0" "p < 2 ^ 64"
    and save: "save_state (kern h) \<noteq> 0" and struct: "ch_magic (kern h) = 0x1234" "ch_version (kern h) = 1"
    and b: "table_param b' = of_nat p" "proc_mkdir b'" "proc_symlink b'" and sct: "SCT b'"
  shows "\<exists>h1 h2 h3. cleanup_module b h = Inr h1 \<and> init_module b' (load_image (trap b') h1) = Inr (0, h2) \<and>
    sys_call_table h2 = sys_call_table h1 \<and> cleanup_module b' h2 = Inr h3 \<and>
    sys_call_table h3 = (sys_call_table h1)(NR_exit b' := 0, NR_exit_group b' := 0)"
proof -
  obtain h1 h2 where h: "cleanup_module b h = Inr h1" "init_module b' (load_image (trap b') h1) = Inr (0, h2)"
      "ch h2 = Some p" "orig_sys_exit h2 = 0" "orig_sys_exit_group h2 = 0" "sys_call_table h2 = sys_call_table h1"
    by (rule save_resume [OF p save struct b])
  obtain h3 where "cleanup_module b' h2 = Inr h3" "sys_call_table h3 = sys_call_table (unhook_exit b' h2)"
    using cleanup_module_text [OF h(3), of b'] by metis
  with h sct show ?thesis by (auto simp: unhook_exit_def Let_def)
qed

theorem resumed_unload_null_exit_witness:
  "\<exists>h1 h2 h3. cleanup_module demo_boot demo_loaded = Inr h1 \<and>
     init_module demo_reboot (load_image demo_trap h1) = Inr (0, h2) \<and>
     cleanup_module demo_reboot h2 = Inr h3 \<and> sys_call_table h1 60 = 0x803c \<and> sys_call_table h3 60 = 0"
proof -
  obtain h1 h2 h3 where h: "cleanup_module demo_boot demo_loaded = Inr h1"
      "init_module demo_reboot (load_image demo_trap h1) = Inr (0, h2)" "cleanup_module demo_reboot h2 = Inr h3"
      "sys_call_table h3 = (sys_call_table h1)(60 := 0, 231 := 0)"
    using resumed_unload_null_exit [where b' = demo_reboot and b = demo_boot and h = demo_loaded and p = 60]
    by (auto simp: demo_loaded_def demo_kernel_def demo_boot_def)
  moreover have "sys_call_table h1 60 = 0x803c"
  proof -
    have "ch demo_loaded = Some 60" by (simp add: demo_loaded_def)
    then obtain h' where "cleanup_module demo_boot demo_loaded = Inr h'"
        "sys_call_table h' = sys_call_table (unhook_exit demo_boot demo_loaded)"
      using cleanup_module_text by metis
    with h(1) show ?thesis by (simp add: unhook_exit_def Let_def demo_loaded_def demo_boot_def)
  qed
  ultimately show ?thesis by auto
qed

text \<open>
  Where writing \<^verbatim>\<open>/\<close> to \<^verbatim>\<open>setchos\<close> leads depends on the kernel the module was built for. After 2.6.18 the caller gets the
  root directory that the kernel had when the module was loaded; up to 2.6.18, the EL5 family, the module never looks it
  up, and the caller's root becomes whatever the memory of the new \<^verbatim>\<open>struct chos\<close> contained.
\<close>

theorem slash_sets_root:
  assumes boot: "boot_ok b h" and table: "table_param b = 0" and feat: "feat b = features_of v d"
    and image: "\<And>l. links (kern h) l = None" "valid_paths (kern h) = []"
    and proc: "proc_mkdir b" "proc_symlink b"
    and tree: "task_tree (unat (pid_max_of b)) ts" and f: "finds ts find_task" and t: "ts current = Some t"
    and mem: "fresh_alloc kmt" "fresh_alloc km" "kmt (\<lambda>a. bufs (kern h) a \<noteq> None) \<noteq> None"
    and req: "requested cp buf count = ''/''" and rd: "readable buf count"
  shows "\<exists>h' s'. init_module b h = Inr (0, h') \<and>
    write_setchos ts find_task current sc kmt km cp buf count (kern h') = Inr (int count, s') \<and>
    fs_root s' (tfs t) =
      (if v \<le> EL5 then ch_memory b
       else if v < KERNEL_VERSION 3 4 0 then snd (path_lookup b ''/'') else snd (path_lookupat b ''/''))"
proof -
  obtain p r x where init: "init_chos b h = Inr (0, hook_exit b (h\<lparr>kern := fresh_kernel b r (kern h), ch := Some p, ktext := x\<rparr>))"
    by (rule init_chos_ok [OF boot])
  let ?k = "fresh_kernel b r (kern h)"
  obtain h' where h': "init_module b h = Inr (0, h')" "kern h' = ?k"
    using table proc by (simp add: init_module_def init Let_def)
  have inv: "kernel_inv ?k" using boot image by (intro empty_kernel; simp add: boot_ok_def)
  have tree': "task_tree (length (procs ?k)) ts" using tree by simp
  have mem': "kmt (\<lambda>a. bufs ?k a \<noteq> None) \<noteq> None" using mem(3) by simp
  obtain s' where s': "write_setchos ts find_task current sc kmt km cp buf count ?k = Inr (int count, s')"
      "fs_root s' = (fs_root ?k)(tfs t := ch_nochroot ?k)"
    using setchos_back [OF inv tree' f t mem(1,2) mem' req rd] by blast
  have "ch_nochroot ?k = (if v \<le> EL5 then ch_memory b
      else if v < KERNEL_VERSION 3 4 0 then snd (path_lookup b ''/'') else snd (path_lookupat b ''/''))"
    by (simp add: feat lookup_roots_old lookup_roots_new not_le)
  with h' s' show ?thesis by auto
qed

theorem slash_sets_root_witness:
  "\<exists>h' s'. init_module (demo_boot\<lparr>feat := features_of EL5 True\<rparr>) demo_host = Inr (0, h') \<and>
     write_setchos demo_tasks demo_find 6 (\<lambda>_ _ _ r. (0, r)) (demo_alloc 40) (demo_alloc 50) demo_copy (umem ''/'') 1 (kern h') =
       Inr (1, s') \<and> fs_root s' 2 = \<lparr>mnt = 13, d_inode = 13\<rparr>"
proof -
  let ?b = "demo_boot\<lparr>feat := features_of EL5 True\<rparr>"
  have boot: "boot_ok ?b demo_host"
    using demo_layout by (simp add: boot_ok_def demo_boot_def demo_host_def pid_max_of_def demo_alloc_def)
  have n: "unat (pid_max_of ?b) = 5" by (simp add: pid_max_of_def demo_boot_def)
  have tree: "task_tree (unat (pid_max_of ?b)) demo_tasks" unfolding n by (rule demo_tree)
  have req: "requested demo_copy (umem ''/'') 1 = ''/''"
    using umem_line [of "''/''"] by (simp add: requested_def demo_copy_def)
  have "\<exists>h' s'. init_module ?b demo_host = Inr (0, h') \<and>
      write_setchos demo_tasks demo_find 6 (\<lambda>_ _ _ r. (0, r)) (demo_alloc 40) (demo_alloc 50) demo_copy (umem ''/'') 1 (kern h') =
        Inr (int 1, s') \<and> fs_root s' 2 = (if EL5 \<le> EL5 then ch_memory ?b
          else if EL5 < KERNEL_VERSION 3 4 0 then snd (path_lookup ?b ''/'') else snd (path_lookupat ?b ''/''))"
    using slash_sets_root [where v = EL5 and d = True and kmt = "demo_alloc 40" and km = "demo_alloc 50" and
        sc = "\<lambda>_ _ _ r. (0, r)", OF boot _ _ _ _ _ _ tree demo_finds demo_at(2) demo_alloc_fresh demo_alloc_fresh _ req readable_umem]
    by (simp add: demo_boot_def demo_host_def demo_alloc_def)
  then show ?thesis by (simp add: demo_boot_def)
qed

text \<open>
  Unloading without saving frees the array and the \<^verbatim>\<open>struct chos\<close>, but no link, no text and no entry of the list of valid paths:
  every link that a process had stays allocated with nothing that leads to it.
\<close>

theorem unload_leaks:
  assumes "ch h = Some p" and "save_state (kern h) = 0"
  shows "\<exists>h1. cleanup_module b h = Inr h1 \<and> procs (kern h1) = [] \<and>
    (\<forall>l. links (kern h) l \<noteq> None \<longrightarrow> l \<in> orphans (kern h1)) \<and> bufs (kern h1) = bufs (kern h)"
proof -
  obtain h1 where "cleanup_module b h = Inr h1" "procs (kern h1) = []" "links (kern h1) = links (kern h)"
      "bufs (kern h1) = bufs (kern h)"
    using cleanup_module_text [OF assms(1), of b] assms(2) by metis
  then show ?thesis by (auto simp: orphans_def refs_def)
qed

theorem unload_leaks_witness:
  "\<exists>h1. cleanup_module demo_boot (demo_loaded\<lparr>kern := demo_kernel\<rparr>) = Inr h1 \<and> 10 \<in> orphans (kern h1)"
proof -
  have "links demo_kernel 10 \<noteq> None" by (simp add: demo_kernel_part demo_table_def demo_links_def)
  moreover have "ch (demo_loaded\<lparr>kern := demo_kernel\<rparr>) = Some 60" "save_state (kern (demo_loaded\<lparr>kern := demo_kernel\<rparr>)) = 0"
    by (simp_all add: demo_loaded_def demo_kernel_def)
  ultimately show ?thesis using unload_leaks [of "demo_loaded\<lparr>kern := demo_kernel\<rparr>" 60 demo_boot] by auto
qed

text \<open>
  When \<^verbatim>\<open>/proc/chos\<close> cannot be created, \<^verbatim>\<open>init_module\<close> returns -1, so that the kernel drops the module, but \<^verbatim>\<open>do_fork\<close> still
  jumps into it.
\<close>

theorem failed_load_leaves_trap:
  assumes boot: "boot_ok b h" and table: "table_param b = 0" and proc: "\<not> proc_mkdir b"
    and code: "expected_code (trap b) (mem (ktext h))"
    and disp: "sint (back_disp (trap b)) < 0xffffff" "near (away_disp (trap b))"
  shows "\<exists>h'. init_module b h = Inr (- 1, h') \<and>
    jump_at (mem (ktext h')) (START_ADD (trap b)) = Some (wrapper (trap b))"
proof -
  have lay: "trap_layout (trap b)" using boot by (simp add: boot_ok_def)
  have fork: "init_do_fork (trap b) (ktext h) = Inr (0, (mark_jumper (trap b) (ktext h))\<lparr>mem := trapped (trap b) (mem (ktext h))\<rparr>)"
    using init_do_fork_cases [OF lay, of "ktext h"] code disp(1) by simp
  obtain r x h1 where init: "init_do_fork (trap b) (ktext h) = Inr (r, x)" "init_chos b h = Inr (0, h1)" "ktext h1 = x"
    by (rule init_chos_ok [OF boot]) simp
  have "x = (mark_jumper (trap b) (ktext h))\<lparr>mem := trapped (trap b) (mem (ktext h))\<rparr>" using init(1) fork by simp
  then have "jump_at (mem (ktext h1)) (START_ADD (trap b)) = Some (wrapper (trap b))"
    using trapped_parts(2) [OF lay disp(2)] init(3) by simp
  with init(2) table proc show ?thesis by (simp add: init_module_def)
qed

theorem failed_load_leaves_trap_witness:
  "\<exists>h'. init_module (demo_boot\<lparr>proc_mkdir := False\<rparr>) demo_host = Inr (- 1, h') \<and>
     jump_at (mem (ktext h')) 0x1000 = Some 0x3000"
proof -
  have boot: "boot_ok (demo_boot\<lparr>proc_mkdir := False\<rparr>) demo_host"
    using demo_layout by (simp add: boot_ok_def demo_boot_def demo_host_def pid_max_of_def demo_alloc_def)
  have trap: "trap (demo_boot\<lparr>proc_mkdir := False\<rparr>) = demo_trap" "ktext demo_host = demo_text"
    "START_ADD demo_trap = 0x1000" "wrapper demo_trap = 0x3000"
    by (simp_all add: demo_boot_def demo_host_def demo_trap_def)
  show ?thesis
    using failed_load_leaves_trap [OF boot] demo_expected demo_near(2,3) unfolding trap
    by (simp add: demo_boot_def)
qed

text \<open>
  The size of the array is computed without a check: for a module parameter \<^verbatim>\<open>max\<close> whose size wraps around, so
  that a shorter array is allocated, the initialisation runs past its end.
\<close>

theorem init_chos_overflow:
  assumes "kmalloc_ch b (\<lambda>a. saved h a \<noteq> None) \<noteq> None"
    and "vmalloc b (pid_max_of b * sizeof_chos_proc b) = Some arr"
    and "length arr < unat (pid_max_of b)" and "length arr < 2 ^ 31"
  shows "init_chos b h = Inl Out_Of_Bounds"
  using assms init_procs_short [of 0 arr "pid_max_of b"] by (auto simp: init_chos_def Let_def)

theorem init_chos_overflow_witness:
  "init_chos (demo_boot\<lparr>max_param := 0x4000000000000005\<rparr>) demo_host = Inl Out_Of_Bounds"
  by (rule init_chos_overflow [where arr = "replicate 5 \<lparr>plink = Some 99, pstart = 3\<rparr>"])
    (simp_all add: demo_boot_def demo_host_def demo_alloc_def pid_max_of_def)

end
