(* ===== verification/Kernel_Machine.thy ===== *)
theory Kernel_Machine
  imports Fork_Wrapper Module_Init
begin

text \<open>
  The module as a machine: the handlers of \<^verbatim>\<open>/proc/chos\<close>, the fork wrapper and the exit wrapper as the steps of
  one transition relation, interleaved in any order by any processes, with the task list, the credentials and
  the root directories changing between them in any way that keeps the task list a tree. The state
  carries, as history, the paths that callers with effective uid 0 have written to \<^verbatim>\<open>/proc/chos/valid\<close>. Each handler runs
  to its end before the next begins; what goes wrong when two of them overlap is shown for the fork
  wrapper beside its definition, and for the operations of the slots in \<^verbatim>\<open>Slot_Races\<close>.
\<close>

section \<open>Steps\<close>

record world =
  wtasks :: tasks
  wkern :: kernel_state
  granted :: "string set"

text \<open>Who does what: the label of a step. The label of a fork names the parent and the task that is found under the new pid.\<close>

datatype action =
    Tasks
  | Kernel
  | Setchos tid
  | Resetchos tid
  | Valid tid
  | Savestate
  | Readlink tid
  | Follow tid
  | Fork tid "tid option"
  | Exit "tid list"

inductive kact :: "action \<Rightarrow> world \<Rightarrow> world \<Rightarrow> bool" where
  tasks: "task_tree (length (procs (wkern w))) ts \<Longrightarrow> kact Tasks w (w\<lparr>wtasks := ts\<rparr>)"
| kernel: "kact Kernel w (w\<lparr>wkern := (wkern w)\<lparr>fs_root := r, creds := c, addr_limit := l\<rparr>\<rparr>)"
| setchos: "wtasks w current \<noteq> None \<Longrightarrow> finds (wtasks w) find_task \<Longrightarrow> fresh_alloc kmt \<Longrightarrow> fresh_alloc km \<Longrightarrow>
    write_setchos (wtasks w) find_task current sc kmt km cp buf count (wkern w) = Inr (ret, s') \<Longrightarrow>
    kact (Setchos current) w (w\<lparr>wkern := s'\<rparr>)"
| resetchos: "wtasks w current \<noteq> None \<Longrightarrow> finds (wtasks w) find_task \<Longrightarrow>
    write_resetchos (wtasks w) find_task current count (wkern w) = Inr (ret, s') \<Longrightarrow>
    kact (Resetchos current) w (w\<lparr>wkern := s'\<rparr>)"
| valid: "wtasks w current = Some t \<Longrightarrow> fresh_alloc km \<Longrightarrow>
    write_valid (wtasks w) current km m cp buf count (wkern w) = Inr (ret, s') \<Longrightarrow>
    g = (if euid (creds (wkern w) (tcred t)) = 0 then insert (requested cp buf count) (granted w) else granted w) \<Longrightarrow>
    kact (Valid current) w (w\<lparr>wkern := s', granted := g\<rparr>)"
| savestate: "write_savestate buf count (wkern w) = Inr (ret, s') \<Longrightarrow> kact Savestate w (w\<lparr>wkern := s'\<rparr>)"
| readlink: "wtasks w current \<noteq> None \<Longrightarrow>
    link_readlink (wtasks w) current vfs (wkern w) = Some (Inr (ret :: int, s')) \<Longrightarrow>
    kact (Readlink current) w (w\<lparr>wkern := s'\<rparr>)"
| follow: "wtasks w current \<noteq> None \<Longrightarrow>
    link_follow_link (wtasks w) current vfs (wkern w) = Some (Inr (ret :: int, s')) \<Longrightarrow>
    kact (Follow current) w (w\<lparr>wkern := s'\<rparr>)"
| fork: "wtasks w current = Some t \<Longrightarrow> ts current = Some t \<Longrightarrow> task_tree (length (procs (wkern w))) ts \<Longrightarrow>
    find_ns pid \<noteq> Some current \<Longrightarrow> (\<And>c. find_ns pid = Some c \<Longrightarrow> ts c \<noteq> None) \<Longrightarrow>
    chos_do_fork (wtasks w) current (\<lambda>s. (pid, ts, find_ns, s)) (wkern w) = Some (Inr (pid, ts, s')) \<Longrightarrow>
    kact (Fork current (find_ns pid)) w (w\<lparr>wtasks := ts, wkern := s'\<rparr>)"
| exit: "\<forall>c \<in> set children. wtasks w c \<noteq> None \<Longrightarrow>
    my_sys_exit (wtasks w) children (\<lambda>s. s) (wkern w) = Some (Inr s') \<Longrightarrow>
    kact (Exit children) w (w\<lparr>wkern := s'\<rparr>)"

abbreviation kstep :: "world \<Rightarrow> world \<Rightarrow> bool" where "kstep \<equiv> \<lambda>w w'. \<exists>a. kact a w w'"

text \<open>A freshly loaded module.\<close>

definition kinit :: "world \<Rightarrow> bool" where
  "kinit w \<longleftrightarrow>
     task_tree (length (procs (wkern w))) (wtasks w) \<and> (\<forall>l. links (wkern w) l = None) \<and>
     procs (wkern w) = replicate (unat (pid_max (wkern w))) \<lparr>plink = None, pstart = - 1\<rparr> \<and>
     unat (pid_max (wkern w)) < 2 ^ 31 \<and> valid_paths (wkern w) = [] \<and> granted w = {}"

definition kinv :: "world \<Rightarrow> bool" where
  "kinv w \<longleftrightarrow>
     kernel_inv (wkern w) \<and> task_tree (length (procs (wkern w))) (wtasks w) \<and>
     set (valid_strings (wkern w)) \<subseteq> granted w \<and> link_strings (wkern w) \<subseteq> insert ''/'' (granted w)"

section \<open>What every handler keeps\<close>

definition keeps :: "kernel_state \<Rightarrow> kernel_state \<Rightarrow> bool" where
  "keeps s s' \<longleftrightarrow>
     kernel_inv s' \<and> length (procs s') = length (procs s) \<and> set (valid_strings s') \<subseteq> set (valid_strings s) \<and>
     link_strings s' \<subseteq> insert ''/'' (link_strings s \<union> set (valid_strings s))"

lemma keeps_kinv: "kinv w \<Longrightarrow> keeps (wkern w) s' \<Longrightarrow> kinv (w\<lparr>wkern := s'\<rparr>)"
  by (auto simp: kinv_def keeps_def)

lemma shrinks_keeps: "kernel_inv s \<Longrightarrow> kernel_inv s' \<Longrightarrow> shrinks s s' \<Longrightarrow> keeps s s'"
  using shrinks_link_strings [of s s'] shrinks_path(2) [of s s']
  by (auto simp: keeps_def kernel_inv_def shrinksD(1))

lemma same_keeps:
  assumes "kernel_inv s" "links s' = links s" "procs s' = procs s" "pid_max s' = pid_max s" "bufs s' = bufs s"
    and "valid_paths s' = valid_paths s"
  shows "keeps s s'"
  using assms kernel_cong(1,3) [OF assms(2-6)] link_strings_cong [of s' s] by (auto simp: keeps_def)

lemma keeps_trans:
  assumes "keeps s s'" and "keeps s' s''"
  shows "keeps s s''"
  using assms by (auto simp: keeps_def subset_iff)

lemma setchos_keeps:
  assumes inv: "kernel_inv s" and tree: "task_tree (length (procs s)) ts" and f: "finds ts find_task"
    and t: "ts current \<noteq> None" and kmt: "fresh_alloc kmt" and km: "fresh_alloc km" and rd: "readable buf count"
  shows "\<exists>ret s'. write_setchos ts find_task current sc kmt km cp buf count s = Inr (ret, s') \<and> keeps s s'"
proof -
  obtain t where t: "ts current = Some t" using t by blast
  show ?thesis
    using inv f t task_treeD(1) [OF tree t] kmt km rd
  proof (cases rule: write_setchos_cases [where sc = sc and cp = cp and buf = buf and count = count])
    case nomem
    with same_keeps [OF inv] show ?thesis by simp
  next
    case (invalid a)
    have "link_strings (s\<lparr>bufs := (bufs s)(a \<mapsto> b)\<rparr>) = link_strings s" for b
      using fresh_buf(1) [OF inv invalid(1)] by (intro link_strings_cong) auto
    with invalid new_buf [OF inv invalid(1)] show ?thesis by (auto simp: keeps_def)
  next
    case (root s0 s')
    then have "keeps s s'" by (auto simp: keeps_def installed_def)
    with root(10) show ?thesis by simp
  next
    case (valid s0 s')
    then have k: "keeps s s'" by (auto simp: keeps_def installed_def)
    then have "kernel_inv s'" by (simp add: keeps_def)
    then have "keeps s' (snd (my_chroot current t sc CHOSROOT s'))"
      by (rule same_keeps) (simp_all add: my_chroot_state)
    then have "keeps s (snd (my_chroot current t sc CHOSROOT s'))" by (rule keeps_trans [OF k])
    with k valid(11) show ?thesis by simp
  qed
qed

lemma resetchos_keeps:
  assumes "kernel_inv s" and "task_tree (length (procs s)) ts" and "finds ts find_task" and "ts current \<noteq> None"
  shows "\<exists>ret s'. write_resetchos ts find_task current count s = Inr (ret, s') \<and> keeps s s'"
proof -
  obtain t where t: "ts current = Some t" using assms(4) by blast
  obtain s' where s': "write_resetchos ts find_task current count s = Inr (int count, s')" "kernel_inv s'" "shrinks s s'"
    using write_resetchos_ok [OF assms(1-3) t] by metis
  with shrinks_keeps [OF assms(1) s'(2,3)] show ?thesis by blast
qed

lemma lookup_keeps:
  assumes "kernel_inv s" and "task_tree (length (procs s)) ts" and "ts current \<noteq> None"
  obtains lk s' x where "lookup_link ts (Some current) s = Some (Inr (lk, s'))" "keeps s s'" "kernel_inv s'"
    "walk_ok ts s (Some current) lk s'" "link_target lk s' = Inr x" "x = ''/'' \<or> x \<in> link_strings s"
proof -
  obtain lk s' r where s': "lookup_link ts (Some current) s = Some (Inr (lk, s'))" "walk_ok ts s (Some current) lk s'"
      "link_target lk s' = Inr (case r of None \<Rightarrow> DEFAULT | Some x \<Rightarrow> x)"
    using lookup_target [OF assms] by metis
  have sh: "shrinks s s'" using s'(2) by (simp add: walk_ok_def)
  note inv' = walk_ok_kernel(1) [OF s'(2) assms(1)]
  have "x = ''/'' \<or> x \<in> link_strings s" if x: "link_target lk s' = Inr x" for x
  proof (cases lk)
    case None
    with x show ?thesis by (simp add: link_target_def)
  next
    case (Some l)
    with x have "links s' l \<noteq> None" "x = link_string s' l"
      by (auto simp: link_target_def link_string_def split: option.splits)
    then show ?thesis using shrinks_link_strings [OF sh] by (auto simp: link_strings_def)
  qed
  with that s' inv' shrinks_keeps [OF assms(1) inv' sh] show ?thesis by blast
qed

lemma readlink_keeps:
  assumes "kernel_inv s" and "task_tree (length (procs s)) ts" and "ts current \<noteq> None"
  shows "\<exists>x s'. link_readlink ts current vfs s = Some (Inr (vfs x, s')) \<and>
      link_follow_link ts current vfs s = Some (Inr (vfs x, s')) \<and> keeps s s' \<and> (x = ''/'' \<or> x \<in> link_strings s)"
proof -
  obtain lk s' x where "lookup_link ts (Some current) s = Some (Inr (lk, s'))" "keeps s s'"
      "link_target lk s' = Inr x" "x = ''/'' \<or> x \<in> link_strings s"
    using lookup_keeps [OF assms] by metis
  then show ?thesis by (auto simp: link_readlink_def link_follow_link_def)
qed

lemma exit_keeps:
  assumes "kernel_inv s" and "task_tree (length (procs s)) ts" and "\<forall>c \<in> set children. ts c \<noteq> None"
  shows "\<exists>s'. exit_loop ts children s = Some (Inr s') \<and> keeps s s'"
  using assms
proof (induction children arbitrary: s)
  case Nil
  then show ?case using same_keeps [OF Nil(1)] by simp
next
  case (Cons c cs)
  obtain lk s1 where s1: "lookup_link ts (Some c) s = Some (Inr (lk, s1))" "keeps s s1" "kernel_inv s1"
    using lookup_keeps [OF Cons.prems(1,2), of c] Cons.prems(3) by (metis list.set_intros(1))
  have "task_tree (length (procs s1)) ts" using s1(2) Cons.prems(2) by (simp add: keeps_def)
  then obtain s' where "exit_loop ts cs s1 = Some (Inr s')" "keeps s1 s'"
    using Cons.IH [OF s1(3)] Cons.prems(3) by auto
  with s1(1,2) keeps_trans show ?case by auto
qed

text \<open>
  Besides, a fork leaves the entries of all tasks but the child alone, except that it may cache what they inherit.
\<close>

definition spares :: "tasks \<Rightarrow> tid option \<Rightarrow> kernel_state \<Rightarrow> kernel_state \<Rightarrow> bool" where
  "spares ts child s s' \<longleftrightarrow>
     (\<forall>c k x. ts c = Some k \<longrightarrow> 1 < tpid k \<longrightarrow> child \<noteq> Some c \<longrightarrow> own (view s) k = Some x \<longrightarrow> own (view s') k = Some x)"

lemma caches_spares: "caches ts (view s) (view s') \<Longrightarrow> spares ts child s s'"
  by (auto simp: spares_def intro: caches_own)

lemma fork_keeps:
  assumes inv: "kernel_inv s" and tree: "task_tree (length (procs s)) ts" and t: "ts current = Some t"
    and t2: "ts2 current = Some t" and tree2: "task_tree (length (procs s)) ts2"
    and c: "find_ns pid \<noteq> Some current" "\<And>c. find_ns pid = Some c \<Longrightarrow> ts2 c \<noteq> None"
  shows "\<exists>s' s1. chos_do_fork ts current (\<lambda>s. (pid, ts2, find_ns, s)) s = Some (Inr (pid, ts2, s')) \<and> keeps s s' \<and>
    spares ts None s s1 \<and> spares ts2 (find_ns pid) s1 s' \<and>
    (\<forall>c k. find_ns pid = Some c \<longrightarrow> ts2 c = Some k \<longrightarrow> 1 < tpid k \<longrightarrow>
      (\<forall>x. own (view s1) k = Some x \<longrightarrow> own (view s') k = Some x) \<or>
      inherits ts (view s) (Some current) (own (view s') k))"
proof -
  obtain lk s1 where s1: "lookup_link ts (Some current) s = Some (Inr (lk, s1))" "keeps s s1" "kernel_inv s1"
      "walk_ok ts s (Some current) lk s1"
    using lookup_keeps [OF inv tree, of current] t by (metis option.distinct(1))
  have len: "length (procs s1) = length (procs s)" using s1(2) by (simp add: keeps_def)
  have sp: "spares ts None s s1" using s1(4) by (intro caches_spares) (simp add: walk_ok_def)
  consider (failed) "\<not> 0 < pid" | (hidden) "0 < pid" "find_ns pid = None" | (child) a where "0 < pid" "find_ns pid = Some a"
    by blast
  then show ?thesis
  proof cases
    case failed
    obtain lk2 s2 where s2: "lookup_link ts2 (Some current) s1 = Some (Inr (lk2, s2))" "keeps s1 s2"
        "walk_ok ts2 s1 (Some current) lk2 s2"
      using lookup_keeps [OF s1(3), of ts2 current] tree2 t2 len by (metis option.distinct(1))
    have ca: "caches ts2 (view s1) (view s2)" using s2(3) by (simp add: walk_ok_def)
    with failed s1(1) s2(1) sp keeps_trans [OF s1(2) s2(2)] caches_spares [OF ca, of "find_ns pid"] caches_own [OF ca] show ?thesis
      by (auto simp: chos_do_fork_def)
  next
    case hidden
    with s1(1,2) sp caches_spares [of ts2 s1 s1] show ?thesis by (auto simp: chos_do_fork_def)
  next
    case (child a)
    then obtain k where k: "ts2 a = Some k" using c(2) by blast
    have pk: "tpid k < length (procs s1)" using task_treeD(1) [OF tree2 k] len by simp
    have "tpid t \<noteq> tpid k" using task_treeD(2) [OF tree2 t2 k] child(2) c(1) by auto
    moreover have "lk = Some l \<Longrightarrow> 1 < tpid t" for l
      using s1(4) t inherits_task [of ts current t "view s"] by (cases "tpid t \<le> 1") (auto simp: walk_ok_def)
    ultimately have held: "\<exists>j < length (procs s1). j \<noteq> tpid k \<and> plink (procs s1 ! j) = Some l" if "lk = Some l" for l
      using s1(4) t that task_treeD(1) [OF tree t] len by (intro exI [of _ "tpid t"]) (auto simp: walk_ok_def)
    obtain s2 where s2: "set_link ts2 lk (Some a) s1 = Inr s2" "kernel_inv s2" "shrinks s1 s2"
        "view s2 = (view s1)(tpid k := map_option (\<lambda>l. (link_string s1 l, tstart k)) lk)"
      using give_link [of s1 ts2 a k lk, OF s1(3) k pk held] by metis
    have "spares ts2 (find_ns pid) s1 s2"
      using task_treeD(2) [OF tree2 _ k] child(2) by (auto simp: spares_def own_def s2(4))
    moreover have "inherits ts (view s) (Some current) (own (view s2) k)"
      using s1(4) by (cases lk) (simp_all add: walk_ok_def own_def s2(4))
    ultimately show ?thesis
      using child s1(1) s2(1) sp keeps_trans [OF s1(2) shrinks_keeps [OF s1(3) s2(2,3)]] k by (auto simp: chos_do_fork_def)
  qed
qed

lemma valid_step:
  assumes inv: "kernel_inv s" and t: "ts current = Some t" and km: "fresh_alloc km"
    and rd: "euid (creds s (tcred t)) = 0 \<Longrightarrow> valid_readable buf count"
  shows "\<exists>ret s'. write_valid ts current km m cp buf count s = Inr (ret, s') \<and> kernel_inv s' \<and>
    length (procs s') = length (procs s) \<and> link_strings s' = link_strings s \<and> view s' = view s \<and>
    set (valid_strings s') \<subseteq>
      (if euid (creds s (tcred t)) = 0 then insert (requested cp buf count) (set (valid_strings s)) else set (valid_strings s))"
proof -
  consider (other) "euid (creds s (tcred t)) \<noteq> 0" | (reset) "euid (creds s (tcred t)) = 0" "buf 0 = Some (CHR ''-'')"
    | (nomem) c where "euid (creds s (tcred t)) = 0" "buf 0 = Some c" "c \<noteq> CHR ''-''" "readable buf count" "km (\<lambda>a. bufs s a \<noteq> None) = None"
    | (add) c a where "euid (creds s (tcred t)) = 0" "buf 0 = Some c" "c \<noteq> CHR ''-''" "readable buf count" "km (\<lambda>a. bufs s a \<noteq> None) = Some a"
    using rd by (cases "km (\<lambda>a. bufs s a \<noteq> None)"; cases "buf 0") (auto simp: valid_readable_def)
  then show ?thesis
  proof cases
    case other
    with inv t show ?thesis by (simp add: write_valid_def)
  next
    case reset
    obtain s' where s': "resetvalid s = Inr s'" "kernel_inv s'" "valid_paths s' = []" "view s' = view s"
        "s' = s\<lparr>valid_paths := [], bufs := (\<lambda>b. if b \<in> vpath ` set (valid_paths s) then None else bufs s b)\<rparr>"
      using resetvalid_loop_ok [OF inv refl] unfolding resetvalid_def by blast
    have "path_bufs s \<inter> texts s = {}" using inv by (simp add: kernel_inv_def path_inv_def)
    then have "link_strings s' = link_strings s"
      by (intro link_strings_cong) (auto simp: s'(5) path_bufs_def)
    moreover have "procs s' = procs s" by (simp add: s'(5))
    ultimately show ?thesis using s' reset t by (simp add: write_valid_def valid_strings_def)
  next
    case nomem
    with inv t show ?thesis by (auto simp: write_valid_def scan_line_iff)
  next
    case (add c a)
    let ?i = "line_end buf count 0" and ?cs = "snd (cp (ubytes buf (line_end buf count 0)))"
    have a: "bufs s a = None" using fresh_allocD [OF km add(5)] by simp
    note fresh = fresh_buf(1) [OF inv a]
    have run: "write_valid ts current km m cp buf count s =
        Inr (int count, add_valid_path m a (int ?i) (s\<lparr>bufs := (bufs s)(a \<mapsto> ?cs @ [NUL])\<rparr>))"
      using t add by (simp add: write_valid_def scan_line_iff)
    have strs: "link_strings (add_valid_path m a (int ?i) (s\<lparr>bufs := (bufs s)(a \<mapsto> ?cs @ [NUL])\<rparr>)) = link_strings s"
      using fresh by (intro link_strings_cong) (auto simp: add_valid_path_def)
    show ?thesis
    proof (cases m)
      case True
      note add' = add_path_inv [OF inv a refl, of "int ?i" ?cs]
      show ?thesis using run strs add' add(1) True by (auto simp: add_valid_path_def requested_def)
    next
      case False
      note nb = new_buf [OF inv a, of "?cs @ [NUL]"]
      show ?thesis using run strs nb False by (auto simp: add_valid_path_def)
    qed
  qed
qed

text \<open>The results of the two handlers that may refuse, and what is left when they do.\<close>

lemma setchos_result:
  assumes inv: "kernel_inv s" and tree: "task_tree (length (procs s)) ts" and f: "finds ts find_task"
    and t: "ts current \<noteq> None" and km: "fresh_alloc kmt" "fresh_alloc km" and rd: "readable buf count"
  shows "\<exists>ret s'. write_setchos ts find_task current sc kmt km cp buf count s = Inr (ret, s') \<and> ret \<in> {int count, - ENOENT, - ENOMEM} \<and>
    (ret \<noteq> int count \<longrightarrow> view s' = view s \<and> valid_strings s' = valid_strings s)"
proof -
  obtain t where t: "ts current = Some t" using t by blast
  show ?thesis
    using inv f t task_treeD(1) [OF tree t] km rd
  proof (cases rule: write_setchos_cases [where sc = sc and cp = cp and buf = buf and count = count])
    case (invalid a)
    with new_buf(2,3) [OF inv invalid(1)] show ?thesis by simp
  qed simp_all
qed

lemma valid_unreadable:
  "ts current = Some t \<Longrightarrow> euid (creds s (tcred t)) = 0 \<Longrightarrow> \<not> valid_readable buf count \<Longrightarrow>
    write_valid ts current km m cp buf count s = Inl Bad_Address"
  by (cases "buf 0") (auto simp: write_valid_def valid_readable_def scan_line_iff)

lemma valid_written:
  assumes "write_valid ts current km m cp buf count s = Inr y" and "ts current = Some t" and "euid (creds s (tcred t)) = 0"
  shows "valid_readable buf count"
  using assms valid_unreadable [of ts current t s buf count km m cp] by (cases "valid_readable buf count") auto

lemma valid_result:
  assumes inv: "kernel_inv s" and t: "ts current = Some t" and km: "fresh_alloc km"
    and rd: "euid (creds s (tcred t)) = 0 \<Longrightarrow> valid_readable buf count"
  shows "\<exists>ret s'. write_valid ts current km m cp buf count s = Inr (ret, s') \<and> ret \<in> {int count, 0, - EPERM} \<and>
    (ret \<noteq> int count \<longrightarrow> s' = s)"
proof -
  obtain ret s' where "write_valid ts current km m cp buf count s = Inr (ret, s')"
    using valid_step [of s ts current t km buf count m cp, OF inv t km rd] by blast
  with t show ?thesis
    by (auto simp: write_valid_def ebind_def split: if_splits option.splits sum.splits)
qed

text \<open>A handler that reads the user's buffer returns when the bytes that it reads are mapped, and faults on the first that is not.\<close>

definition reads :: "bool \<Rightarrow> fault + 'a \<Rightarrow> bool" where
  "reads mapped r \<longleftrightarrow> (if mapped then \<exists>y. r = Inr y else r = Inl Bad_Address)"

lemma valid_reads:
  assumes inv: "kernel_inv s" and t: "ts current = Some t" and km: "fresh_alloc km"
  shows "reads (euid (creds s (tcred t)) = 0 \<longrightarrow> valid_readable buf count) (write_valid ts current km m cp buf count s)"
proof (cases "euid (creds s (tcred t)) = 0 \<longrightarrow> valid_readable buf count")
  case True
  then show ?thesis using valid_result [of s ts current t km buf count m cp, OF inv t km] by (auto simp: reads_def)
next
  case False
  with valid_unreadable [of ts current t s buf count km m cp] t show ?thesis by (simp add: reads_def)
qed

lemma savestate_reads: "reads (1 < count \<longrightarrow> buf 0 \<noteq> None) (write_savestate buf count s)"
  by (cases "buf 0") (auto simp: reads_def write_savestate_def)

lemma savestate_result:
  "buf 0 = None \<and> write_savestate buf count s = Inl Bad_Address \<or>
   (\<exists>s'. write_savestate buf count s = Inr (int count, s') \<and> view s' = view s \<and> valid_strings s' = valid_strings s)"
proof -
  have "view (s\<lparr>save_state := b\<rparr>) = view s" "valid_strings (s\<lparr>save_state := b\<rparr>) = valid_strings s" for b
    by (intro kernel_cong; simp)+
  then show ?thesis by (cases "buf 0") (simp_all add: write_savestate_def)
qed

lemma exit_returns:
  assumes "kernel_inv s" and "task_tree (length (procs s)) ts"
  shows "\<forall>children. (\<forall>c \<in> set children. ts c \<noteq> None) \<longrightarrow>
    (\<exists>s'. my_sys_exit ts children (\<lambda>s. s) s = Some (Inr s') \<and> my_sys_exit_group ts children (\<lambda>s. s) s = Some (Inr s'))"
  using exit_keeps [OF assms] by (fastforce simp: my_sys_exit_def my_sys_exit_group_def)

section \<open>The invariant of the machine\<close>

lemma kinvD:
  assumes "kinv w"
  shows "kernel_inv (wkern w)" "task_tree (length (procs (wkern w))) (wtasks w)"
    "set (valid_strings (wkern w)) \<subseteq> granted w" "link_strings (wkern w) \<subseteq> insert ''/'' (granted w)"
  using assms by (simp_all add: kinv_def)

lemma kact_kinv:
  assumes "kact a w w'" and inv: "kinv w"
  shows "kinv w'"
  using assms(1)
proof (cases rule: kact.cases)
  case (tasks ts)
  with inv show ?thesis by (simp add: kinv_def)
next
  case (kernel l c r)
  have "keeps (wkern w) ((wkern w)\<lparr>fs_root := r, creds := c, addr_limit := l\<rparr>)"
    by (rule same_keeps [OF kinvD(1) [OF inv]]) simp_all
  with kernel keeps_kinv [OF inv] show ?thesis by simp
next
  case (setchos current find_task kmt km sc cp buf count ret s')
  with setchos_keeps [OF kinvD(1,2) [OF inv] setchos(4,3,5,6) write_setchos_readable [OF setchos(7)], of sc cp] keeps_kinv [OF inv]
  show ?thesis by auto
next
  case (resetchos current find_task count ret s')
  with resetchos_keeps [OF kinvD(1,2) [OF inv]] keeps_kinv [OF inv] show ?thesis by (metis Pair_inject sum.inject(2))
next
  case (valid current t km m cp buf count ret s' g)
  obtain ret' s1 where "write_valid (wtasks w) current km m cp buf count (wkern w) = Inr (ret', s1)" "kernel_inv s1"
      "length (procs s1) = length (procs (wkern w))" "link_strings s1 = link_strings (wkern w)" "view s1 = view (wkern w)"
      "set (valid_strings s1) \<subseteq> (if euid (creds (wkern w) (tcred t)) = 0
         then insert (requested cp buf count) (set (valid_strings (wkern w))) else set (valid_strings (wkern w)))"
    using valid_step [of "wkern w" "wtasks w" current t km buf count m cp, OF kinvD(1) [OF inv] valid(3,4) valid_written [OF valid(5,3)]] by blast
  with valid inv show ?thesis by (auto simp: kinv_def split: if_splits)
next
  case (savestate buf count ret s')
  have "keeps (wkern w) s'"
    by (rule same_keeps [OF kinvD(1) [OF inv]]) (use savestate(3) in \<open>auto simp: write_savestate_def split: if_splits option.splits\<close>)
  with savestate(2) keeps_kinv [OF inv] show ?thesis by simp
next
  case (readlink current vfs ret s')
  with readlink_keeps [OF kinvD(1,2) [OF inv] readlink(3), of vfs] keeps_kinv [OF inv] show ?thesis by auto
next
  case (follow current vfs ret s')
  with readlink_keeps [OF kinvD(1,2) [OF inv] follow(3), of vfs] keeps_kinv [OF inv] show ?thesis by auto
next
  case (fork current t ts find_ns pid s')
  have "keeps (wkern w) s'"
    using fork_keeps [of "wkern w" "wtasks w" current t ts find_ns pid, OF kinvD(1,2) [OF inv] fork(3-7)] fork(8) by auto
  with keeps_kinv [OF inv] fork(2,5) show ?thesis by (auto simp: kinv_def keeps_def)
next
  case (exit children s')
  then have "keeps (wkern w) s'"
    using exit_keeps [OF kinvD(1,2) [OF inv] exit(3)] by (auto simp: my_sys_exit_def)
  with exit(2) keeps_kinv [OF inv] show ?thesis by simp
qed

lemma kinit_kinv: "kinit w \<Longrightarrow> kinv w"
proof -
  assume w: "kinit w"
  have "kernel_inv (wkern w)" by (rule empty_kernel) (use w in \<open>simp_all add: kinit_def\<close>)
  moreover have "task_tree (length (procs (wkern w))) (wtasks w)" using w unfolding kinit_def by blast
  ultimately show ?thesis using w by (simp add: kinit_def kinv_def valid_strings_def link_strings_def)
qed

interpretation kernel: invariant_machine kinit kstep kinv
  by unfold_locales (blast intro: kinit_kinv kact_kinv)+

section \<open>Properties\<close>

text \<open>
  C6. From loading on, in every state that any interleaving of handlers, forks, exits and changes of the task
  list can reach, the state is well formed, and whatever a process of the task list calls returns
  without a fault, with a single exception: no \<^verbatim>\<open>BUG_ON\<close>, no null pointer, no access outside the table, no use of freed memory and no
  endless walk in the handlers of the files, in the special link, in \<^verbatim>\<open>chos_do_fork\<close> with any other task as its child, a hidden child or none, when \<^verbatim>\<open>do_fork\<close> itself lets nobody change the table, and in
  the two exit calls with any children. The exception is a buffer that is not mapped: the handlers that read the user's buffer directly fault on it, and
  exactly then. The pids are those of the initial namespace, as \<open>finds\<close> says.
\<close>

theorem kernel_never_faults:
  assumes "kinit w0" and "kstep\<^sup>*\<^sup>* w0 w" and t: "wtasks w current = Some t" and f: "finds (wtasks w) find_task"
    and km: "fresh_alloc kmt" "fresh_alloc km"
  shows "kernel_inv (wkern w) \<and>
    reads (readable buf count) (write_setchos (wtasks w) find_task current sc kmt km cp buf count (wkern w)) \<and>
    reads (euid (creds (wkern w) (tcred t)) = 0 \<longrightarrow> valid_readable buf count) (write_valid (wtasks w) current kmt m cp buf count (wkern w)) \<and>
    reads (1 < count \<longrightarrow> buf 0 \<noteq> None) (write_savestate buf count (wkern w)) \<and>
    (\<exists>ret s'. write_resetchos (wtasks w) find_task current count (wkern w) = Inr (ret, s')) \<and>
    (\<exists>out. print_valid (wkern w) = Inr out) \<and>
    (\<exists>ret s'. link_readlink (wtasks w) current vfs (wkern w) = Some (Inr (ret, s'))) \<and>
    (\<exists>ret s'. link_follow_link (wtasks w) current vfs (wkern w) = Some (Inr (ret, s'))) \<and>
    (\<forall>pid ts find_ns. ts current = Some t \<longrightarrow> task_tree (length (procs (wkern w))) ts \<longrightarrow> find_ns pid \<noteq> Some current \<longrightarrow>
      (\<forall>c. find_ns pid = Some c \<longrightarrow> ts c \<noteq> None) \<longrightarrow>
      (\<exists>s'. chos_do_fork (wtasks w) current (\<lambda>s. (pid, ts, find_ns, s)) (wkern w) = Some (Inr (pid, ts, s')))) \<and>
    (\<forall>children. (\<forall>c \<in> set children. wtasks w c \<noteq> None) \<longrightarrow>
      (\<exists>s'. my_sys_exit (wtasks w) children (\<lambda>s. s) (wkern w) = Some (Inr s') \<and>
        my_sys_exit_group (wtasks w) children (\<lambda>s. s) (wkern w) = Some (Inr s')))"
proof -
  have inv: "kinv w" by (rule kernel.inv_reachable [OF assms(1,2)])
  note k = kinvD(1,2) [OF inv]
  have t': "wtasks w current \<noteq> None" using t by simp
  have print: "\<exists>out. print_valid (wkern w) = Inr out"
    using k(1) print_valid_strings [of "wkern w"] by (simp add: kernel_inv_def)
  have setchos: "reads (readable buf count) (write_setchos (wtasks w) find_task current sc kmt km cp buf count (wkern w))"
    using setchos_keeps [OF k f t' km, of buf count sc cp] write_setchos_unreadable [of "wtasks w" current buf count] t'
    by (auto simp: reads_def)
  have fork: "\<exists>s'. chos_do_fork (wtasks w) current (\<lambda>s. (pid, ts, find_ns, s)) (wkern w) = Some (Inr (pid, ts, s'))"
    if "ts current = Some t" "task_tree (length (procs (wkern w))) ts" "find_ns pid \<noteq> Some current"
      "\<forall>c. find_ns pid = Some c \<longrightarrow> ts c \<noteq> None" for pid ts find_ns
    using fork_keeps [of "wkern w" "wtasks w" current t ts find_ns pid, OF k t that(1-3)] that(4) by blast
  show ?thesis
    using k(1) setchos valid_reads [of "wkern w" "wtasks w" current t kmt buf count m cp, OF k(1) t km(1)] savestate_reads
      resetchos_keeps [OF k f t', of count] print readlink_keeps [OF k t', of vfs] fork exit_returns [OF k]
    by (intro conjI) blast+
qed

text \<open>
  C12. What the handlers of the writable files return has the type that \<^verbatim>\<open>write\<close> needs: from loading on, in every reachable state and for every
  buffer that does not make them fault by being unmapped, the result is the number of bytes given or one of the handler's own errors, and a handler that reports an error has
  changed no entry of the table and no valid path.
\<close>

theorem handler_results:
  assumes "kinit w0" and "kstep\<^sup>*\<^sup>* w0 w" and t: "wtasks w current \<noteq> None" and f: "finds (wtasks w) find_task"
    and km: "fresh_alloc kmt" "fresh_alloc km"
  shows "(\<not> readable buf count \<and> write_setchos (wtasks w) find_task current sc kmt km cp buf count (wkern w) = Inl Bad_Address \<or>
      (\<exists>ret s'. write_setchos (wtasks w) find_task current sc kmt km cp buf count (wkern w) = Inr (ret, s') \<and>
        ret \<in> {int count, - ENOENT, - ENOMEM} \<and> (ret \<noteq> int count \<longrightarrow> view s' = view (wkern w) \<and> valid_strings s' = valid_strings (wkern w)))) \<and>
    (\<exists>s'. write_resetchos (wtasks w) find_task current count (wkern w) = Inr (int count, s')) \<and>
    (\<not> valid_readable buf count \<and> write_valid (wtasks w) current kmt m cp buf count (wkern w) = Inl Bad_Address \<or>
      (\<exists>ret s'. write_valid (wtasks w) current kmt m cp buf count (wkern w) = Inr (ret, s') \<and>
        ret \<in> {int count, 0, - EPERM} \<and> (ret \<noteq> int count \<longrightarrow> s' = wkern w))) \<and>
    (buf 0 = None \<and> write_savestate buf count (wkern w) = Inl Bad_Address \<or>
      (\<exists>s'. write_savestate buf count (wkern w) = Inr (int count, s') \<and> view s' = view (wkern w) \<and> valid_strings s' = valid_strings (wkern w)))"
proof -
  have inv: "kinv w" by (rule kernel.inv_reachable [OF assms(1,2)])
  note k = kinvD(1,2) [OF inv]
  obtain k' where k': "wtasks w current = Some k'" using t by blast
  have "\<exists>s'. write_resetchos (wtasks w) find_task current count (wkern w) = Inr (int count, s')"
    using write_resetchos_ok [OF k f k'] by metis
  moreover have "\<not> valid_readable buf count \<and> write_valid (wtasks w) current kmt m cp buf count (wkern w) = Inl Bad_Address \<or>
      (\<exists>ret s'. write_valid (wtasks w) current kmt m cp buf count (wkern w) = Inr (ret, s') \<and>
        ret \<in> {int count, 0, - EPERM} \<and> (ret \<noteq> int count \<longrightarrow> s' = wkern w))"
    using valid_result [of "wkern w" "wtasks w" current k' kmt buf count m cp, OF k(1) k' km(1)]
      valid_unreadable [of "wtasks w" current k' "wkern w" buf count kmt m cp] k' by blast
  ultimately show ?thesis
    using setchos_result [OF k f t km, of buf count sc cp] write_setchos_unreadable [of "wtasks w" current buf count, OF t]
      savestate_result [of buf count "wkern w"] by blast
qed

text \<open>
  C7. From loading on, the path that a process reads from the special link is \<^verbatim>\<open>/\<close> or one that a caller with
  effective uid 0 has written to \<^verbatim>\<open>/proc/chos/valid\<close>, whatever unprivileged processes have written where.
\<close>

theorem only_granted_paths:
  assumes "kinit w0" and "kstep\<^sup>*\<^sup>* w0 w" and t: "wtasks w current \<noteq> None"
  shows "\<exists>x s'. link_readlink (wtasks w) current (\<lambda>x. x) (wkern w) = Some (Inr (x, s')) \<and>
    link_follow_link (wtasks w) current (\<lambda>x. x) (wkern w) = Some (Inr (x, s')) \<and>
    (x = ''/'' \<or> x \<in> granted w)"
proof -
  have inv: "kinv w" by (rule kernel.inv_reachable [OF assms(1,2)])
  with readlink_keeps [OF kinvD(1,2) [OF inv] t, of "\<lambda>x. x"] kinvD(4) [OF inv] show ?thesis by auto
qed

text \<open>
  C11. The invariant of the running module, in every state that can be reached: the table has as many slots as \<^verbatim>\<open>pid_max\<close> says, a slot leads to a
  live link or to none, the reference count of every link is exactly the number of slots that lead to it and at least 1, every link
  has a text of its own, and so has every entry of the list of valid paths.
\<close>

theorem reachable_accounts:
  assumes "kinit w0" and "kstep\<^sup>*\<^sup>* w0 w" and "wkern w = s"
  shows "length (procs s) = unat (pid_max s) \<and>
    (\<forall>i < length (procs s). \<forall>l. plink (procs s ! i) = Some l \<longrightarrow> links s l \<noteq> None) \<and>
    (\<forall>l k. links s l = Some k \<longrightarrow> bufs s (ltext k) \<noteq> None \<and>
      unat (lcount k) = card {i. i < length (procs s) \<and> plink (procs s ! i) = Some l} \<and> 0 < unat (lcount k)) \<and>
    (\<forall>l k l' k'. links s l = Some k \<longrightarrow> links s l' = Some k' \<longrightarrow> ltext k = ltext k' \<longrightarrow> l = l') \<and>
    (\<forall>v \<in> set (valid_paths s). bufs s (vpath v) \<noteq> None \<and> (\<forall>l k. links s l = Some k \<longrightarrow> ltext k \<noteq> vpath v)) \<and>
    distinct (map vpath (valid_paths s))"
proof -
  have "kinv w" by (rule kernel.inv_reachable [OF assms(1,2)])
  then have inv: "kernel_inv s" using assms(3) kinvD(1) by blast
  then have li: "link_inv s" and pa: "path_inv s" and orp: "orphans s = {}" by (simp_all add: kernel_inv_def)
  have card: "refs s l = card {i. i < length (procs s) \<and> plink (procs s ! i) = Some l}" for l
    by (simp add: refs_def length_filter_conv_card)
  have count: "bufs s (ltext k) \<noteq> None \<and> unat (lcount k) = refs s l \<and> 0 < unat (lcount k)" if "links s l = Some k" for l k
  proof -
    have "refs s l \<noteq> 0"
    proof
      assume "refs s l = 0"
      then have "l \<in> orphans s" using that by (simp add: orphans_def)
      with orp show False by simp
    qed
    then show ?thesis using link_invD(4,5) [OF li that] by simp
  qed
  have own: "bufs s (vpath v) \<noteq> None \<and> (\<forall>l k. links s l = Some k \<longrightarrow> ltext k \<noteq> vpath v)" if "v \<in> set (valid_paths s)" for v
  proof -
    have "vpath v \<notin> texts s" using pa that by (auto simp: path_inv_def path_bufs_def)
    then show ?thesis using pa that texts_member [of s] by (metis path_inv_def)
  qed
  have "distinct (map vpath (valid_paths s))" using pa by (simp add: path_inv_def)
  then show ?thesis
    unfolding card [symmetric] using link_invD(1,3,6) [OF li] count own by blast
qed

text \<open>
  C13. Nobody is ever locked out: in every state that can be reached, a process other than init that finds memory gets from any
  tree into any tree on the list of valid paths, and back to \<^verbatim>\<open>/\<close>, by a single write to \<^verbatim>\<open>setchos\<close>, after which the special link leads it there.
\<close>

theorem always_can_enter:
  assumes "kinit w0" and "kstep\<^sup>*\<^sup>* w0 w" and t: "wtasks w current = Some t" "1 < tpid t" and f: "finds (wtasks w) find_task"
    and mem: "fresh_alloc kmt" "fresh_alloc km" "kmt (\<lambda>a. bufs (wkern w) a \<noteq> None) \<noteq> None" "link_memory km (wkern w)"
    and x: "requested cp buf count = x" "x = ''/'' \<or> x \<in> set (valid_strings (wkern w))" and rd: "readable buf count"
  shows "\<exists>w' s''. kstep w w' \<and> wtasks w' = wtasks w \<and>
    write_setchos (wtasks w) find_task current sc kmt km cp buf count (wkern w) = Inr (int count, wkern w') \<and>
    link_readlink (wtasks w') current (\<lambda>y. y) (wkern w') = Some (Inr (x, s''))"
proof -
  have inv: "kinv w" by (rule kernel.inv_reachable [OF assms(1,2)])
  note k = kinvD(1,2) [OF inv]
  obtain s' where s': "write_setchos (wtasks w) find_task current sc kmt km cp buf count (wkern w) = Inr (int count, s')"
      "kernel_inv s'" "\<And>r. inherits (wtasks w) (view s') (Some current) r \<longleftrightarrow> r = Some x"
    using setchos_accepted [where cp = cp and buf = buf and count = count, OF k f t mem] x rd by auto
  have step: "kact (Setchos current) w (w\<lparr>wkern := s'\<rparr>)" by (rule kact.setchos [OF _ f mem(1,2) s'(1)]) (use t in simp)
  have cur: "wtasks w current \<noteq> None" using t(1) by simp
  have tree: "task_tree (length (procs s')) (wtasks w)" using kinvD(2) [OF kact_kinv [OF step inv]] by simp
  obtain lk s'' r where "lookup_link (wtasks w) (Some current) s' = Some (Inr (lk, s''))"
      "inherits (wtasks w) (view s') (Some current) r" "link_target lk s'' = Inr (case r of None \<Rightarrow> DEFAULT | Some x \<Rightarrow> x)"
    by (rule lookup_target [OF s'(2) tree cur])
  then have "link_readlink (wtasks w) current (\<lambda>y. y) s' = Some (Inr (x, s''))"
    using s'(3) by (simp add: link_readlink_def)
  with step s'(1) show ?thesis by (intro exI [of _ "w\<lparr>wkern := s'\<rparr>"] exI [of _ s'']) auto
qed

text \<open>A run: the init task grants \<^verbatim>\<open>/os/sl6\<close>.\<close>

definition demo_world :: world where
  "demo_world = \<lparr>wtasks = demo_tasks, wkern = demo_idle\<lparr>bufs := (\<lambda>_. None), valid_paths := []\<rparr>, granted = {}\<rparr>"

definition demo_granted :: world where
  "demo_granted = demo_world\<lparr>
     wkern := (wkern demo_world)\<lparr>bufs := (\<lambda>_. None)(40 \<mapsto> ''/os/sl6'' @ [NUL]), valid_paths := [\<lparr>vpath = 40, vlength = 7\<rparr>]\<rparr>,
     granted := {''/os/sl6''}\<rparr>"

lemma demo_world_init: "kinit demo_world"
proof -
  have p: "procs (wkern demo_world) = replicate 5 \<lparr>plink = None, pstart = - 1\<rparr>" "pid_max (wkern demo_world) = 5"
    by (simp_all add: demo_world_def demo_idle_def demo_kernel_def)
  then show ?thesis
    unfolding kinit_def p using demo_tree by (simp add: demo_world_def demo_idle_def)
qed

lemma demo_world_step: "kstep demo_world demo_granted"
proof -
  let ?buf = "umem ''/os/sl6''"
  have line: "line_end ?buf 7 0 = 7" by (simp add: line_end.simps umem_def)
  have u: "ubytes ?buf 7 = ''/os/sl6''" by (simp add: ubytes_def umem_def upt_rec)
  have req: "requested demo_copy ?buf 7 = ''/os/sl6''" by (simp add: requested_def line u demo_copy_def)
  have t: "wtasks demo_world 0 = Some \<lparr>tpid = 1, tstart = 1, tparent = None, tfs = 0, tcred = 0\<rparr>"
    by (simp add: demo_world_def demo_tasks_def)
  have cr: "creds demo_idle 0 = \<lparr>uid = 0, euid = 0, cap_effective = - 1\<rparr>" by (simp add: demo_idle_def demo_kernel_def)
  have root: "euid (creds (wkern demo_world) 0) = 0" and b0: "?buf 0 = Some (CHR ''/'')"
    by (simp_all add: demo_world_def demo_idle_def demo_kernel_def umem_def)
  have run: "write_valid (wtasks demo_world) 0 (demo_alloc 40) True demo_copy ?buf 7 (wkern demo_world) =
      Inr (7, wkern demo_granted)"
    using t root b0 by (simp add: write_valid_def scan_line_iff line u demo_copy_def demo_alloc_def add_valid_path_def
        demo_granted_def demo_world_def)
  have "kact (Valid 0) demo_world (demo_world\<lparr>wkern := wkern demo_granted, granted := {''/os/sl6''}\<rparr>)"
    by (rule kact.valid [OF t demo_alloc_fresh run]) (simp add: cr req demo_world_def)
  then show ?thesis by (auto simp: demo_granted_def)
qed

theorem kernel_never_faults_witness:
  "(\<exists>y. write_setchos (wtasks demo_granted) demo_find 6 (\<lambda>_ _ _ r. (0, r)) (demo_alloc 41) (demo_alloc 50) demo_copy
     (umem ''/os/sl6'') 7 (wkern demo_granted) = Inr y) \<and>
   write_setchos (wtasks demo_granted) demo_find 6 (\<lambda>_ _ _ r. (0, r)) (demo_alloc 41) (demo_alloc 50) demo_copy
     (\<lambda>_. None) 7 (wkern demo_granted) = Inl Bad_Address \<and>
   (\<exists>s'. chos_do_fork (wtasks demo_granted) 6 (\<lambda>s. (9, demo_tasks, (\<lambda>_. None), s)) (wkern demo_granted) = Some (Inr (9, demo_tasks, s')))"
proof -
  have ts: "wtasks demo_granted = demo_tasks" by (simp add: demo_granted_def demo_world_def)
  have tree: "task_tree (length (procs (wkern demo_granted))) demo_tasks"
    using demo_tree by (simp add: demo_granted_def demo_world_def demo_idle_def)
  note ok = kernel_never_faults [where current = 6 and find_task = demo_find and kmt = "demo_alloc 41" and km = "demo_alloc 50"
      and cp = demo_copy and count = 7 and sc = "\<lambda>_ _ _ r. (0, r)" and vfs = "\<lambda>x. x",
      OF demo_world_init r_into_rtranclp [of kstep, OF demo_world_step], unfolded ts, OF demo_at(2) demo_finds demo_alloc_fresh demo_alloc_fresh]
  have "\<not> readable (\<lambda>_. None) 7" by (auto simp: readable_def intro: exI [of _ 0])
  with ok [where buf = "\<lambda>_. None"] ok [where buf = "umem ''/os/sl6''"] demo_at(2) tree show ?thesis
    unfolding ts by (auto simp: reads_def)
qed

theorem handler_results_witness:
  "\<exists>ret s'. write_setchos (wtasks demo_granted) demo_find 6 (\<lambda>_ _ _ r. (0, r)) (demo_alloc 41) (demo_alloc 50) demo_copy
     (umem ''/os/sl5'') 7 (wkern demo_granted) = Inr (ret, s') \<and> ret \<in> {7, - ENOENT, - ENOMEM} \<and>
     (ret \<noteq> 7 \<longrightarrow> view s' = view (wkern demo_granted))"
proof -
  have ts: "wtasks demo_granted = demo_tasks" by (simp add: demo_granted_def demo_world_def)
  show ?thesis
    using handler_results [where current = 6 and find_task = demo_find and kmt = "demo_alloc 41" and km = "demo_alloc 50"
        and cp = demo_copy and buf = "umem ''/os/sl5''" and count = 7 and sc = "\<lambda>_ _ _ r. (0, r)" and m = True,
        OF demo_world_init r_into_rtranclp [of kstep, OF demo_world_step]] demo_finds demo_at(2) demo_alloc_fresh
    unfolding ts by auto
qed

theorem only_granted_paths_witness:
  "\<exists>x s'. link_readlink demo_tasks 6 (\<lambda>x. x) (wkern demo_granted) = Some (Inr (x, s')) \<and>
     (x = ''/'' \<or> x = ''/os/sl6'')"
proof -
  have w: "wtasks demo_granted = demo_tasks" "granted demo_granted = {''/os/sl6''}"
    by (simp_all add: demo_granted_def demo_world_def)
  show ?thesis
    using only_granted_paths [OF demo_world_init r_into_rtranclp [of kstep, OF demo_world_step], of 6] demo_at(2)
    unfolding w by auto
qed

lemmas demo_granted_run = r_into_rtranclp [of kstep, OF demo_world_step]

theorem reachable_accounts_witness:
  "length (procs (wkern demo_granted)) = 5 \<and> bufs (wkern demo_granted) 40 \<noteq> None"
proof -
  have n: "pid_max (wkern demo_granted) = 5" "valid_paths (wkern demo_granted) = [\<lparr>vpath = 40, vlength = 7\<rparr>]"
    by (simp_all add: demo_granted_def demo_world_def demo_idle_def demo_kernel_def)
  show ?thesis using reachable_accounts [OF demo_world_init demo_granted_run refl] unfolding n by simp
qed

theorem always_can_enter_witness:
  "\<exists>w' s''. kstep demo_granted w' \<and> link_readlink (wtasks w') 6 (\<lambda>y. y) (wkern w') = Some (Inr (''/os/sl6'', s''))"
proof -
  have w: "wtasks demo_granted = demo_tasks" by (simp add: demo_granted_def demo_world_def)
  have mem: "demo_alloc 41 (\<lambda>a. bufs (wkern demo_granted) a \<noteq> None) \<noteq> None" "link_memory (demo_alloc 50) (wkern demo_granted)"
    by (simp_all add: demo_alloc_def link_memory_def demo_granted_def demo_world_def demo_idle_def)
  have x: "requested demo_copy (umem ''/os/sl6'') 7 = ''/os/sl6''"
    by (simp add: requested_def demo_copy_def line_end.simps umem_def ubytes_def upt_rec)
  have valid: "''/os/sl6'' \<in> set (valid_strings (wkern demo_granted))"
    by (simp add: valid_strings_def demo_granted_def)
  show ?thesis
    using always_can_enter [of demo_world demo_granted 6 _ demo_find "demo_alloc 41" "demo_alloc 50" demo_copy "umem ''/os/sl6''" 7
          "''/os/sl6''" "\<lambda>_ _ _ r. (0, r)",
        OF demo_world_init demo_granted_run, unfolded w, OF demo_at(2) _ demo_finds demo_alloc_fresh demo_alloc_fresh mem x]
      valid by auto
qed

end
