(* ===== verification/Path_Persistence.thy ===== *)
theory Path_Persistence
  imports Kernel_Machine
begin

text \<open>
  What processes can do to each other over time. The kernel machine is watched from one process: which labels of its steps may
  change the entry of the process, and that all others leave it alone, step by step and so for every run.
\<close>

section \<open>Actions that concern a task\<close>


section \<open>One step\<close>




section \<open>Runs\<close>



section \<open>Properties\<close>




end
