(* ===== verification/Conf_Files.thy ===== *)
theory Conf_Files
  imports Chos_Prelude
begin

text \<open>
  The readers of the configuration files: \<^verbatim>\<open>check_chos\<close>, which the \<^verbatim>\<open>chos\<close> utility (\<^verbatim>\<open>utils/chos.c\<close>) and the PAM module
  (\<^verbatim>\<open>pam_chos/pam_chos_helper.c\<close>) each have with a buffer of its own size, and \<^verbatim>\<open>set_env\<close> and \<^verbatim>\<open>set_beh\<close> of the utility. A file
  is its contents; \<^verbatim>\<open>fgets\<close> splits off the next line or as much of it as the buffer holds. The readers are compared with
  a specification on the lines of the file.
\<close>

section \<open>Reading lines\<close>

text \<open>
  \<^verbatim>\<open>fgets(buffer, n, stream)\<close>: what it puts into the buffer, and the rest of the stream.
\<close>

fun take_line :: "nat \<Rightarrow> string \<Rightarrow> string \<times> string" where
  "take_line 0 s = ([], s)"
| "take_line (Suc n) [] = ([], [])"
| "take_line (Suc n) (c # s) =
     (if c = NL then ([c], s) else case take_line n s of (l, r) \<Rightarrow> (c # l, r))"

definition fgets :: "nat \<Rightarrow> string \<Rightarrow> (string \<times> string) option" where
  "fgets n s = (if s = [] \<or> n \<le> 1 then None else Some (take_line (n - 1) s))"

lemma take_line_append: "take_line n s = (l, r) \<Longrightarrow> s = l @ r"
  by (induction n s arbitrary: l r rule: take_line.induct) (auto split: if_splits prod.splits)

lemma take_line_progress: "take_line n s = (l, r) \<Longrightarrow> 0 < n \<Longrightarrow> s \<noteq> [] \<Longrightarrow> l \<noteq> []"
  by (cases n; cases s) (auto split: if_splits prod.splits)

lemma take_line_length: "take_line n s = (l, r) \<Longrightarrow> length l \<le> n"
  by (induction n s arbitrary: l r rule: take_line.induct) (auto split: if_splits prod.splits)

lemma fgetsD:
  assumes "fgets n s = Some (l, r)"
  shows "s = l @ r" "l \<noteq> []" "length l < n" "length r < length s"
proof -
  have t: "take_line (n - 1) s = (l, r)" "s \<noteq> []" "1 < n"
    using assms by (auto simp: fgets_def split: if_splits)
  show eq: "s = l @ r" by (rule take_line_append [OF t(1)])
  show ne: "l \<noteq> []" using take_line_progress [OF t(1)] t(2,3) by simp
  show "length l < n" using take_line_length [OF t(1)] t(3) by simp
  show "length r < length s" using eq ne by simp
qed

text \<open>
  \<^verbatim>\<open>while(*value!=0 && *value!='\n') value++; *value=0;\<close>: the C string left in the buffer.
\<close>

fun chomp :: "string \<Rightarrow> string" where
  "chomp [] = []"
| "chomp (c # s) = (if c = NUL \<or> c = NL then [] else c # chomp s)"

text \<open>
  \<^verbatim>\<open>while (*path!=':' && *path!=0) path++;\<close>, and the two strings that \<^verbatim>\<open>*path=0; path++;\<close> leaves, if there is a colon.
\<close>

fun split_colon :: "string \<Rightarrow> (string \<times> string) option" where
  "split_colon [] = None"
| "split_colon (c # s) =
     (if c = CHR '':'' then Some ([], s) else map_option (\<lambda>(k, p). (c # k, p)) (split_colon s))"

abbreviation MAXLINE :: nat where "MAXLINE \<equiv> 80"
abbreviation SHELLHEAD :: string where "SHELLHEAD \<equiv> ''%SHELLS''"
abbreviation ENVHEAD :: string where "ENVHEAD \<equiv> ''%ENV''"
abbreviation BEHHEAD :: string where "BEHHEAD \<equiv> ''%BEH''"

definition skipped :: "string \<Rightarrow> bool" where
  "skipped line \<longleftrightarrow> hd line = CHR ''#'' \<or> hd line = NL"

definition closes :: "string \<Rightarrow> bool" where
  "closes buffer \<longleftrightarrow> buffer \<noteq> [] \<and> hd buffer = CHR ''%''"

section \<open>The readers\<close>

text \<open>
  The loop of \<^verbatim>\<open>check_chos\<close> with a buffer of \<open>n\<close> bytes; the PAM module's copy differs in \<open>n\<close> only.
\<close>

function check_loop :: "nat \<Rightarrow> string \<Rightarrow> bool \<Rightarrow> string \<Rightarrow> string option" where
  "check_loop n name start s =
     (case fgets n s of
        None \<Rightarrow> None
      | Some (line, rest) \<Rightarrow>
         if skipped line then check_loop n name start rest
         else
           let buffer = chomp line
           in if start then
                if closes buffer then None
                else (case split_colon buffer of
                        None \<Rightarrow> check_loop n name start rest
                      | Some (key, path) \<Rightarrow> if key = name then Some path else check_loop n name start rest)
              else if buffer = SHELLHEAD then check_loop n name True rest
              else check_loop n name start rest)"
  by pat_completeness auto
termination
  by (relation "measure (\<lambda>(n, name, start, s). length s)") (auto dest: fgetsD)

declare check_loop.simps [simp del]

text \<open>
  \<^verbatim>\<open>check_chos\<close>: the file may be missing, \<^verbatim>\<open>fstat\<close> may fail, and the owner must be root.
\<close>

record conf_file =
  contents :: string
  st_uid :: "nat option"

definition check_chos :: "conf_file option \<Rightarrow> string \<Rightarrow> string option" where
  "check_chos cfile name =
     (case cfile of
        None \<Rightarrow> None
      | Some f \<Rightarrow>
         (case st_uid f of
            None \<Rightarrow> None
          | Some u \<Rightarrow> if u \<noteq> 0 then None else check_loop MAXLINE name False (contents f)))"

text \<open>The module's copy of \<^verbatim>\<open>check_chos\<close> reads into a buffer that is one byte longer than the utility's.\<close>

definition pam_check_chos :: "conf_file option \<Rightarrow> string \<Rightarrow> string option" where
  "pam_check_chos cfile name =
     (case cfile of
        None \<Rightarrow> None
      | Some f \<Rightarrow>
         (case st_uid f of
            None \<Rightarrow> None
          | Some u \<Rightarrow> if u \<noteq> 0 then None else check_loop (MAXLINE + 1) name False (contents f)))"

text \<open>The first pass of \<^verbatim>\<open>set_env\<close>: the number of pointers to allocate.\<close>

function count_loop :: "nat \<Rightarrow> nat \<Rightarrow> bool \<Rightarrow> string \<Rightarrow> nat" where
  "count_loop n count start s =
     (case fgets n s of
        None \<Rightarrow> count
      | Some (line, rest) \<Rightarrow>
         if skipped line then count_loop n count start rest
         else
           let buffer = chomp line
           in if start then
                (if closes buffer then Suc count else count_loop n (Suc count) start rest)
              else if buffer = ENVHEAD then count_loop n count True rest
              else count_loop n count start rest)"
  by pat_completeness auto
termination
  by (relation "measure (\<lambda>(n, count, start, s). length s)") (auto dest: fgetsD)

declare count_loop.simps [simp del]

abbreviation DEFPATH :: string where "DEFPATH \<equiv> ''PATH=/bin:/usr/bin:/usr/local/bin''"

text \<open>
  An array of pointers from \<^verbatim>\<open>malloc\<close>, whose length is the number allocated: \<open>None\<close> is an element that has not been written, \<open>Some None\<close> the null pointer. An assignment to an element, and
  what \<^verbatim>\<open>execve\<close> and \<^verbatim>\<open>execvp\<close> read: the strings up to the first null pointer, where an element that has not been written is indeterminate.
\<close>

type_synonym arg_array = "string option option list"

definition store_env :: "nat \<Rightarrow> 'a \<Rightarrow> 'a list \<Rightarrow> fault + 'a list" where
  "store_env i v env = (if i < length env then Inr (env[i := v]) else Inl Out_Of_Bounds)"

abbreviation stored :: "string \<Rightarrow> string option option" where
  "stored \<equiv> \<lambda>a. Some (Some a)"

fun exec_args :: "arg_array \<Rightarrow> fault + string list" where
  "exec_args [] = Inl Out_Of_Bounds"
| "exec_args (None # _) = Inl Undefined"
| "exec_args (Some None # _) = Inr []"
| "exec_args (Some (Some a) # args) = ebind (exec_args args) (\<lambda>as. Inr (a # as))"

text \<open>
  The second pass. \<open>getenv\<close> is the caller's environment and \<open>malloc\<close> whether the allocation of the \<open>i\<close>-th entry succeeds; when it
  does not, the function returns without a value.
\<close>

function fill_loop :: "nat \<Rightarrow> (string \<Rightarrow> string option) \<Rightarrow> (nat \<Rightarrow> bool) \<Rightarrow> nat \<Rightarrow> nat \<Rightarrow> arg_array \<Rightarrow> bool \<Rightarrow>
    string \<Rightarrow> fault + nat \<times> nat \<times> arg_array" where
  "fill_loop n getenv malloc count setc env start s =
     (case fgets n s of
        None \<Rightarrow> Inr (count, setc, env)
      | Some (line, rest) \<Rightarrow>
         if skipped line then fill_loop n getenv malloc count setc env start rest
         else
           let buffer = chomp line
           in if start then
                (if closes buffer then Inr (Suc count, setc, env)
                 else if buffer = ''PATH'' then
                   ebind (store_env setc (Some (Some DEFPATH)) env) (\<lambda>env.
                   fill_loop n getenv malloc (Suc count) (Suc setc) env start rest)
                 else (case getenv buffer of
                         None \<Rightarrow> fill_loop n getenv malloc (Suc count) setc env start rest
                       | Some value \<Rightarrow>
                          if setc < Suc count then
                            (if \<not> malloc setc then Inl Undefined
                             else
                               ebind (store_env setc (Some (Some (buffer @ ''='' @ value))) env) (\<lambda>env.
                               fill_loop n getenv malloc (Suc count) (Suc setc) env start rest))
                          else fill_loop n getenv malloc (Suc count) setc env start rest))
              else if buffer = ENVHEAD then fill_loop n getenv malloc count setc env True rest
              else fill_loop n getenv malloc count setc env start rest)"
  by pat_completeness auto
termination
  by (relation "measure (\<lambda>(n, getenv, malloc, count, setc, env, start, s). length s)") (auto dest: fgetsD)

declare fill_loop.simps [simp del]

text \<open>
  \<^verbatim>\<open>set_env\<close>: \<open>None\<close> is the NULL it returns, \<open>Some\<close> the array. \<open>alloc\<close> is whether the array can be allocated;
  no element of a fresh array has been written.
\<close>

definition set_env :: "nat \<Rightarrow> string option \<Rightarrow> (string \<Rightarrow> string option) \<Rightarrow> bool \<Rightarrow> (nat \<Rightarrow> bool) \<Rightarrow>
    fault + arg_array option" where
  "set_env n stream getenv alloc malloc =
     (case stream of
        None \<Rightarrow> Inr None
      | Some s \<Rightarrow>
         let count = count_loop n 1 False s
         in if \<not> alloc then Inr None
            else
              ebind (fill_loop n getenv malloc count 0 (replicate count None) False s) (\<lambda>(count, setc, env).
              if setc < count then
                ebind (store_env setc (Some None) env) (\<lambda>env. Inr (Some env))
              else Inr None))"

function beh_loop :: "nat \<Rightarrow> bool \<Rightarrow> bool \<Rightarrow> string \<Rightarrow> bool" where
  "beh_loop n dobashlog start s =
     (case fgets n s of
        None \<Rightarrow> dobashlog
      | Some (line, rest) \<Rightarrow>
         if skipped line then beh_loop n dobashlog start rest
         else
           let buffer = chomp line
           in if start then
                (if closes buffer then dobashlog
                 else if buffer = ''BASHLOGIN'' then beh_loop n True start rest
                 else beh_loop n dobashlog start rest)
              else if buffer = BEHHEAD then beh_loop n dobashlog True rest
              else beh_loop n dobashlog start rest)"
  by pat_completeness auto
termination
  by (relation "measure (\<lambda>(n, dobashlog, start, s). length s)") (auto dest: fgetsD)

declare beh_loop.simps [simp del]

definition set_beh :: "nat \<Rightarrow> string option \<Rightarrow> bool" where
  "set_beh n stream = (case stream of None \<Rightarrow> False | Some s \<Rightarrow> beh_loop n False False s)"

section \<open>The specification\<close>

definition unlines :: "string list \<Rightarrow> string" where
  "unlines ls = concat (map (\<lambda>l. l @ [NL]) ls)"

lemma unlines_simps [simp]: "unlines [] = []" "unlines (l # ls) = l @ NL # unlines ls"
  by (simp_all add: unlines_def)

definition comment :: "string \<Rightarrow> bool" where
  "comment l \<longleftrightarrow> l = [] \<or> hd l = CHR ''#''"

text \<open>The lines of a section up to the next header, and the section of a file that has a given header.\<close>

definition body :: "string list \<Rightarrow> string list" where
  "body ls = takeWhile (\<lambda>l. hd l \<noteq> CHR ''%'') (filter (\<lambda>l. \<not> comment l) ls)"

definition section_of :: "string \<Rightarrow> string list \<Rightarrow> string list" where
  "section_of head ls =
     takeWhile (\<lambda>l. hd l \<noteq> CHR ''%'') (tl (dropWhile (\<lambda>l. l \<noteq> head) (filter (\<lambda>l. \<not> comment l) ls)))"

lemma body_simps [simp]:
  "body [] = []"
  "body (l # ls) = (if comment l then body ls else if hd l = CHR ''%'' then [] else l # body ls)"
  by (simp_all add: body_def)

lemma section_of_simps [simp]:
  "section_of head [] = []"
  "section_of head (l # ls) =
     (if comment l then section_of head ls else if l = head then body ls else section_of head ls)"
  by (simp_all add: section_of_def body_def)

text \<open>What the \<^verbatim>\<open>%SHELLS\<close> section of \<^verbatim>\<open>/etc/chos\<close> says a name stands for: the first entry for it counts.\<close>

definition conf_lookup :: "string list \<Rightarrow> string \<Rightarrow> string option" where
  "conf_lookup ls name = map_of (List.map_filter split_colon (section_of SHELLHEAD ls)) name"

definition env_entry :: "(string \<Rightarrow> string option) \<Rightarrow> string \<Rightarrow> string option" where
  "env_entry getenv v = (if v = ''PATH'' then Some DEFPATH else map_option (\<lambda>x. v @ ''='' @ x) (getenv v))"

section \<open>Readers whose buffer holds every line\<close>

definition line_fits :: "nat \<Rightarrow> string \<Rightarrow> bool" where
  "line_fits n l \<longleftrightarrow> NL \<notin> set l \<and> NUL \<notin> set l \<and> length l + 2 \<le> n"

lemma take_line_fits: "NL \<notin> set l \<Longrightarrow> length l < n \<Longrightarrow> take_line n (l @ NL # r) = (l @ [NL], r)"
proof (induction l arbitrary: n)
  case Nil
  then show ?case by (cases n) simp_all
next
  case (Cons c l)
  then obtain m where "n = Suc m" by (cases n) simp_all
  with Cons show ?case by auto
qed

lemma chomp_line: "NL \<notin> set l \<Longrightarrow> NUL \<notin> set l \<Longrightarrow> chomp (l @ NL # r) = l"
  by (induction l) auto

text \<open>
  The buffers of the three readers differ in size only; what holds for one that has room for a character, its newline and
  the NUL is proved once.
\<close>

locale line_buffer =
  fixes n :: nat
  assumes room: "2 \<le> n"
begin

lemma fgets_nil: "fgets n [] = None"
  by (simp add: fgets_def)

lemma fgets_fits: "line_fits n l \<Longrightarrow> fgets n (l @ NL # r) = Some (l @ [NL], r)"
proof -
  assume l: "line_fits n l"
  then have "take_line (n - 1) (l @ NL # r) = (l @ [NL], r)" by (intro take_line_fits) (auto simp: line_fits_def)
  with room show ?thesis by (simp add: fgets_def)
qed

lemma fgets_some: "s \<noteq> [] \<Longrightarrow> \<exists>l r. fgets n s = Some (l, r)"
  using room by (auto simp: fgets_def)

lemma skipped_fits: "line_fits n l \<Longrightarrow> skipped (l @ [NL]) \<longleftrightarrow> comment l"
  by (cases l) (auto simp: skipped_def comment_def line_fits_def)

lemma chomp_fits: "line_fits n l \<Longrightarrow> chomp (l @ [NL]) = l"
  by (simp add: line_fits_def chomp_line)

lemmas line_simps = fgets_nil fgets_fits skipped_fits chomp_fits

lemma closes_iff: "\<not> comment l \<Longrightarrow> closes l \<longleftrightarrow> hd l = CHR ''%''"
  by (simp add: closes_def comment_def)

lemma check_body:
  assumes "\<forall>l \<in> set ls. line_fits n l"
  shows "check_loop n name True (unlines ls) = map_of (List.map_filter split_colon (body ls)) name"
  using assms
proof (induction ls)
  case Nil
  then show ?case by (subst check_loop.simps) (simp add: fgets_nil map_filter_simps)
next
  case (Cons l ls)
  then show ?case
    by (subst check_loop.simps)
      (auto simp: line_simps closes_iff Let_def map_filter_simps split: option.split)
qed

lemma check_section:
  assumes "\<forall>l \<in> set ls. line_fits n l"
  shows "check_loop n name False (unlines ls) = conf_lookup ls name"
  using assms
proof (induction ls)
  case Nil
  then show ?case by (subst check_loop.simps) (simp add: fgets_nil map_filter_simps conf_lookup_def)
next
  case (Cons l ls)
  then show ?case
    by (subst check_loop.simps) (auto simp: line_simps Let_def conf_lookup_def check_body)
qed

lemma count_body:
  assumes "\<forall>l \<in> set ls. line_fits n l"
  shows "c + length (body ls) \<le> count_loop n c True (unlines ls)"
  using assms
proof (induction ls arbitrary: c)
  case Nil
  then show ?case by (subst count_loop.simps) (simp add: fgets_nil)
next
  case (Cons l ls)
  then have "Suc c + length (body ls) \<le> count_loop n (Suc c) True (unlines ls)"
    and "c + length (body ls) \<le> count_loop n c True (unlines ls)" by (metis list.set_intros(2))+
  with Cons.prems show ?case by (subst count_loop.simps) (simp add: line_simps closes_iff Let_def)
qed

lemma count_section:
  assumes "\<forall>l \<in> set ls. line_fits n l"
  shows "c + length (section_of ENVHEAD ls) \<le> count_loop n c False (unlines ls)"
  using assms
proof (induction ls)
  case Nil
  then show ?case by (subst count_loop.simps) (simp add: fgets_nil)
next
  case (Cons l ls)
  then show ?case by (subst count_loop.simps) (auto simp: line_simps Let_def count_body)
qed

text \<open>
  What the second pass has written, \<open>done\<close>, is a prefix of the array.
\<close>

lemma fill_body:
  fixes getenv :: "string \<Rightarrow> string option"
  assumes "\<forall>l \<in> set ls. line_fits n l" and "length (body ls) \<le> m" and "length vs \<le> c"
  defines "es \<equiv> List.map_filter (env_entry getenv) (body ls)"
  shows "\<exists>c'. length vs + length es \<le> c' \<and> c \<le> c' \<and>
    fill_loop n getenv (\<lambda>_. True) c (length vs) (map stored vs @ replicate m None) True (unlines ls) =
      Inr (c', length vs + length es, map stored (vs @ es) @ replicate (m - length es) None)"
  using assms(1-3) unfolding es_def
proof (induction ls arbitrary: c m vs)
  case Nil
  then show ?case by (subst fill_loop.simps) (simp add: fgets_nil map_filter_simps)
next
  case (Cons l ls)
  have fit: "line_fits n l" "\<forall>l \<in> set ls. line_fits n l" using Cons.prems(1) by simp_all
  show ?case
  proof (cases "comment l \<or> hd l = CHR ''%''")
    case True
    with fit Cons show ?thesis
      by (subst fill_loop.simps) (auto simp: line_simps closes_iff Let_def map_filter_simps intro: le_SucI)
  next
    case False
    then have len: "length (body ls) < m" using Cons.prems(2) by simp
    then obtain m' where m: "m = Suc m'" by (cases m) simp_all
    have step: "\<exists>c'. Suc (length vs) + length (List.map_filter (env_entry getenv) (body ls)) \<le> c' \<and> Suc c \<le> c' \<and>
        fill_loop n getenv (\<lambda>_. True) (Suc c) (Suc (length vs)) (map stored vs @ stored e # replicate m' None) True (unlines ls) =
          Inr (c', Suc (length vs) + length (List.map_filter (env_entry getenv) (body ls)),
            map stored (vs @ e # List.map_filter (env_entry getenv) (body ls)) @
              replicate (m' - length (List.map_filter (env_entry getenv) (body ls))) None)" for e
      using Cons.IH [of m' "vs @ [e]" "Suc c", OF fit(2)] len Cons.prems(3) m by simp
    have skip: "\<exists>c'. length vs + length (List.map_filter (env_entry getenv) (body ls)) \<le> c' \<and> Suc c \<le> c' \<and>
        fill_loop n getenv (\<lambda>_. True) (Suc c) (length vs) (map stored vs @ replicate m None) True (unlines ls) =
          Inr (c', length vs + length (List.map_filter (env_entry getenv) (body ls)),
            map stored (vs @ List.map_filter (env_entry getenv) (body ls)) @
              replicate (m - length (List.map_filter (env_entry getenv) (body ls))) None)"
      using Cons.IH [of m vs "Suc c", OF fit(2)] len Cons.prems(3) by simp
    have store: "store_env (length vs) (stored e) (map stored vs @ replicate m None) =
        Inr (map stored vs @ stored e # replicate m' None)" for e
      by (simp add: store_env_def m list_update_append)
    show ?thesis
    proof (cases "env_entry getenv l")
      case None
      then have "l \<noteq> ''PATH''" "getenv l = None" by (auto simp: env_entry_def split: if_splits)
      with False fit None skip show ?thesis
        by (subst fill_loop.simps) (auto simp: line_simps closes_iff Let_def map_filter_simps dest: Suc_leD)
    next
      case (Some e)
      have "fill_loop n getenv (\<lambda>_. True) c (length vs) (map stored vs @ replicate m None) True (unlines (l # ls)) =
          fill_loop n getenv (\<lambda>_. True) (Suc c) (Suc (length vs)) (map stored vs @ stored e # replicate m' None) True (unlines ls)"
        using False fit Some Cons.prems(3) store
        by (subst fill_loop.simps) (auto simp: line_simps closes_iff Let_def env_entry_def split: if_splits)
      with step [of e] False Some m show ?thesis by (auto simp: map_filter_simps dest: Suc_leD)
    qed
  qed
qed

lemma fill_section:
  fixes getenv :: "string \<Rightarrow> string option"
  assumes "\<forall>l \<in> set ls. line_fits n l" and "length (section_of ENVHEAD ls) \<le> m"
  defines "es \<equiv> List.map_filter (env_entry getenv) (section_of ENVHEAD ls)"
  shows "\<exists>c'. length es \<le> c' \<and> c \<le> c' \<and>
    fill_loop n getenv (\<lambda>_. True) c 0 (replicate m None) False (unlines ls) =
      Inr (c', length es, map stored es @ replicate (m - length es) None)"
  using assms(1,2) unfolding es_def
proof (induction ls)
  case Nil
  then show ?case by (subst fill_loop.simps) (simp add: fgets_nil map_filter_simps)
next
  case (Cons l ls)
  have "\<exists>c'. length (List.map_filter (env_entry getenv) (body ls)) \<le> c' \<and> c \<le> c' \<and>
      fill_loop n getenv (\<lambda>_. True) c 0 (replicate m None) True (unlines ls) =
        Inr (c', length (List.map_filter (env_entry getenv) (body ls)),
          map stored (List.map_filter (env_entry getenv) (body ls)) @
            replicate (m - length (List.map_filter (env_entry getenv) (body ls))) None)"
    if "l = ENVHEAD" using fill_body [of ls m "[]" c getenv] Cons.prems that by (auto simp: comment_def)
  with Cons show ?case
    by (subst fill_loop.simps) (auto simp: line_simps Let_def comment_def)
qed

lemma beh_body:
  assumes "\<forall>l \<in> set ls. line_fits n l"
  shows "beh_loop n b True (unlines ls) \<longleftrightarrow> b \<or> ''BASHLOGIN'' \<in> set (body ls)"
  using assms
proof (induction ls arbitrary: b)
  case Nil
  then show ?case by (subst beh_loop.simps) (simp add: fgets_nil)
next
  case (Cons l ls)
  then show ?case by (subst beh_loop.simps) (auto simp: line_simps closes_iff Let_def)
qed

lemma beh_section:
  assumes "\<forall>l \<in> set ls. line_fits n l"
  shows "beh_loop n False False (unlines ls) \<longleftrightarrow> ''BASHLOGIN'' \<in> set (section_of BEHHEAD ls)"
  using assms
proof (induction ls)
  case Nil
  then show ?case by (subst beh_loop.simps) (simp add: fgets_nil)
next
  case (Cons l ls)
  then show ?case by (subst beh_loop.simps) (auto simp: line_simps Let_def beh_body)
qed

end

text \<open>The buffers of the utility (\<^verbatim>\<open>fgets(buffer,MAXLINE,...)\<close>) and of the PAM module (\<^verbatim>\<open>fgets(buffer,MAXLINE+1,...)\<close>).\<close>

lemma split_colon_set: "split_colon l = Some (k, p) \<Longrightarrow> set p \<subseteq> set l"
  by (induction l arbitrary: k) (auto split: if_splits)

lemma conf_lookup_line:
  assumes "conf_lookup ls name = Some path"
  obtains l where "l \<in> set ls" "set path \<subseteq> set l"
proof -
  obtain l where l: "l \<in> set (section_of SHELLHEAD ls)" "split_colon l = Some (name, path)"
    using map_of_SomeD [OF assms [unfolded conf_lookup_def]] by (auto simp: List.map_filter_def)
  then have "l \<in> set (filter (\<lambda>l. \<not> comment l) ls)"
    unfolding section_of_def by (metis list.set_sel(2) set_dropWhileD set_takeWhileD tl_Nil)
  with that [of l] split_colon_set [OF l(2)] show ?thesis by simp
qed

interpretation util_buffer: line_buffer MAXLINE
  by unfold_locales simp

interpretation pam_buffer: line_buffer 81
  by unfold_locales simp

section \<open>The array is never overrun\<close>

lemma count_shift: "count_loop n c start s = c + count_loop n 0 start s"
proof (induction "length s" arbitrary: c start s rule: less_induct)
  case less
  show ?case
  proof (cases "fgets n s")
    case None
    then show ?thesis by (simp add: count_loop.simps [of n c] count_loop.simps [of n 0 start s])
  next
    case (Some p)
    obtain line rest where p: "p = (line, rest)" by (cases p)
    have "length rest < length s" using fgetsD(4) Some p by blast
    then have ih: "count_loop n c start rest = c + count_loop n 0 start rest" for c start using less by blast
    show ?thesis
      using Some p ih [of "Suc c"] ih [of "Suc 0"] ih [of c]
      by (simp add: count_loop.simps [of n c start s] count_loop.simps [of n 0 start s] Let_def)
  qed
qed

text \<open>The elements before \<open>k\<close> have been written, with strings; an array that is then terminated at \<open>k\<close> can be read.\<close>

definition filled :: "nat \<Rightarrow> arg_array \<Rightarrow> bool" where
  "filled k env \<longleftrightarrow> (\<exists>vs. take k env = map stored vs)"

lemma filled_0 [simp]: "filled 0 env"
  by (simp add: filled_def)

lemma filled_put: "filled k env \<Longrightarrow> k < length env \<Longrightarrow> filled (Suc k) (env[k := Some (Some v)])"
proof -
  assume k: "filled k env" "k < length env"
  then obtain vs where vs: "take k env = map stored vs" by (auto simp: filled_def)
  have "take (Suc k) (env[k := Some (Some v)]) = map stored (vs @ [v])"
    using k(2) vs by (simp add: take_Suc_conv_app_nth)
  then show ?thesis unfolding filled_def by blast
qed

lemma exec_args_terminated: "exec_args (map stored as @ Some None # r) = Inr as"
  by (induction as) simp_all

lemma filled_terminated:
  assumes "filled k env" and "k < length env"
  shows "\<exists>es. exec_args (env[k := Some None]) = Inr es"
proof -
  obtain vs where vs: "take k env = map stored vs" using assms(1) by (auto simp: filled_def)
  have "env[k := Some None] = map stored vs @ Some None # drop (Suc k) env"
    using assms(2) vs by (simp add: upd_conv_take_nth_drop)
  then show ?thesis using exec_args_terminated by metis
qed

definition fill_safe :: "(nat \<Rightarrow> bool) \<Rightarrow> nat \<Rightarrow> fault + nat \<times> nat \<times> arg_array \<Rightarrow> bool" where
  "fill_safe malloc len r \<longleftrightarrow>
     (case r of Inl e \<Rightarrow> e = Undefined \<and> (\<exists>i. malloc i = False)
      | Inr (count, setc, env) \<Rightarrow> length env = len \<and> setc < len \<and> setc < count \<and> filled setc env)"

lemma count_step:
  assumes "fgets n s = Some (line, rest)"
  shows "count_loop n 0 start s =
    (if skipped line then count_loop n 0 start rest
     else if start then if closes (chomp line) then 1 else Suc (count_loop n 0 start rest)
     else if chomp line = ENVHEAD then count_loop n 0 True rest else count_loop n 0 start rest)"
  using assms count_shift [of n "Suc 0" start rest] by (subst count_loop.simps) (cases start; simp add: Let_def)

lemma fill_in_bounds:
  assumes "setc + count_loop n 0 start s < length env" and "setc < count" and "filled setc env"
  shows "fill_safe malloc (length env) (fill_loop n getenv malloc count setc env start s)"
  using assms
proof (induction "length s" arbitrary: count setc env start s rule: less_induct)
  case less
  show ?case
  proof (cases "fgets n s")
    case None
    with less.prems show ?thesis by (subst fill_loop.simps) (simp add: fill_safe_def)
  next
    case (Some p)
    obtain line rest where p: "p = (line, rest)" by (cases p)
    have lt: "length rest < length s" using fgetsD(4) Some p by blast
    note count = count_step [OF Some [unfolded p], of start]
    have store: "store_env setc v env = Inr (env[setc := v])" for v
      using less.prems(1) by (simp add: store_env_def)
    have ih: "setc' + count_loop n 0 start' rest < length env' \<Longrightarrow> setc' < count' \<Longrightarrow> filled setc' env' \<Longrightarrow>
        fill_safe malloc (length env') (fill_loop n getenv malloc count' setc' env' start' rest)" for setc' count' env' start'
      by (rule less.hyps [OF lt])
    have put: "fill_safe malloc (length env) (fill_loop n getenv malloc (Suc count) (Suc setc) (env[setc := Some (Some v)]) True rest)"
      if "start" "\<not> skipped line" "\<not> closes (chomp line)" for v
      using ih [of "Suc setc" True "env[setc := Some (Some v)]" "Suc count"] less.prems filled_put [OF less.prems(3), of v] that count by simp
    consider (skip) "skipped line" | (head) "\<not> skipped line" "\<not> start"
      | (close) "\<not> skipped line" "start" "closes (chomp line)"
      | (line) "\<not> skipped line" "start" "\<not> closes (chomp line)" by blast
    then show ?thesis
    proof cases
      case line
      have "fill_safe malloc (length env) (fill_loop n getenv malloc (Suc count) setc env True rest)"
        using ih [of setc True env "Suc count"] less.prems line count by simp
      moreover have "fill_safe malloc (length env) (Inl Undefined)" if "\<not> malloc setc"
        using that by (auto simp: fill_safe_def)
      ultimately show ?thesis
        using line put Some p store less.prems(2)
        by (subst fill_loop.simps) (simp add: Let_def split: option.split)
    next
      case skip
      then have "fill_loop n getenv malloc count setc env start s = fill_loop n getenv malloc count setc env start rest"
        using Some p by (subst fill_loop.simps) simp
      with skip less.prems count ih [of setc start env count] show ?thesis by simp
    next
      case head
      then have "fill_loop n getenv malloc count setc env start s =
          fill_loop n getenv malloc count setc env (chomp line = ENVHEAD) rest"
        using Some p by (subst fill_loop.simps) (simp add: Let_def)
      with head less.prems count ih [of setc "chomp line = ENVHEAD" env count] show ?thesis by (simp split: if_splits)
    next
      case close
      then have "fill_loop n getenv malloc count setc env start s = Inr (Suc count, setc, env)"
        using Some p by (subst fill_loop.simps) (simp add: Let_def)
      with less.prems show ?thesis by (simp add: fill_safe_def)
    qed
  qed
qed

section \<open>Properties\<close>

text \<open>
  C36. Both copies of \<^verbatim>\<open>check_chos\<close> read \<^verbatim>\<open>/etc/chos\<close> as its format says, when it is owned by root and each line fits the
  buffer: a name stands for what follows the colon in the first line for it in the \<^verbatim>\<open>%SHELLS\<close> section, where empty
  lines, comments and lines without a colon do not count and the next line with a percent sign ends the section. A file that
  root does not own has no names.
\<close>

theorem check_chos_correct:
  assumes "\<forall>l \<in> set ls. line_fits MAXLINE l"
  shows "check_chos (Some \<lparr>contents = unlines ls, st_uid = Some u\<rparr>) name =
      (if u = 0 then conf_lookup ls name else None) \<and>
    pam_check_chos (Some \<lparr>contents = unlines ls, st_uid = Some u\<rparr>) name =
      (if u = 0 then conf_lookup ls name else None)"
proof -
  have "\<forall>l \<in> set ls. line_fits (MAXLINE + 1) l" using assms by (auto simp: line_fits_def)
  then have "\<forall>l \<in> set ls. line_fits 81 l" by simp
  with assms show ?thesis
    by (simp add: check_chos_def pam_check_chos_def util_buffer.check_section pam_buffer.check_section)
qed

theorem check_chos_correct_witness:
  "check_chos (Some \<lparr>contents = unlines [''# trees'', ''%SHELLS'', ''local:/'', '''', ''sl6:/os/sl6'', ''%ENV'', ''x:/y''],
     st_uid = Some 0\<rparr>) ''sl6'' = Some ''/os/sl6''"
  using check_chos_correct [of "[''# trees'', ''%SHELLS'', ''local:/'', '''', ''sl6:/os/sl6'', ''%ENV'', ''x:/y'']" 0 "''sl6''"]
  by (simp add: line_fits_def conf_lookup_def comment_def map_filter_simps)

text \<open>
  C37. Whatever is in \<^verbatim>\<open>/etc/chos.conf\<close>, \<^verbatim>\<open>set_env\<close> never writes outside the array that its first pass allocated and never
  fails to terminate the array: the array that it returns, of which \<^verbatim>\<open>malloc\<close> has written nothing, can be read by \<^verbatim>\<open>execve\<close> up to a null pointer, without an element that was not
  written and without leaving the array. The only way in which it leaves its defined behaviour is a failed allocation of an entry.
\<close>

theorem set_env_in_bounds:
  "(\<exists>r. set_env n stream getenv alloc malloc = Inr r \<and> (r = None \<longleftrightarrow> stream = None \<or> \<not> alloc) \<and>
      (\<forall>arr. r = Some arr \<longrightarrow> (\<exists>es. exec_args arr = Inr es))) \<or>
   set_env n stream getenv alloc malloc = Inl Undefined \<and> (\<exists>i. malloc i = False)"
proof (cases stream)
  case None
  then show ?thesis by (simp add: set_env_def)
next
  case (Some s)
  let ?c = "count_loop n 1 False s"
  have c: "?c = Suc (count_loop n 0 False s)" using count_shift [of n 1 False s] by simp
  have "fill_safe malloc (length (replicate ?c (None :: string option option)))
      (fill_loop n getenv malloc ?c 0 (replicate ?c None) False s)"
    by (rule fill_in_bounds) (use c in simp_all)
  with Some filled_terminated show ?thesis
    by (cases "fill_loop n getenv malloc ?c 0 (replicate ?c None) False s")
      (auto simp: set_env_def store_env_def Let_def fill_safe_def split: if_splits)
qed

theorem set_env_in_bounds_witness:
  "\<exists>r es. set_env MAXLINE (Some (unlines [''%ENV'', ''HOME'', replicate 200 CHR ''A'', ''%BEH'', ''%ENV'', ''TERM'']))
     (\<lambda>v. Some v) True (\<lambda>_. True) = Inr (Some r) \<and> exec_args r = Inr es"
proof -
  let ?s = "Some (unlines [''%ENV'', ''HOME'', replicate 200 CHR ''A'', ''%BEH'', ''%ENV'', ''TERM''])"
  obtain r where r: "set_env MAXLINE ?s (\<lambda>v. Some v) True (\<lambda>_. True) = Inr r" "r \<noteq> None" "\<forall>arr. r = Some arr \<longrightarrow> (\<exists>es. exec_args arr = Inr es)"
    using set_env_in_bounds [of MAXLINE ?s "\<lambda>v. Some v" True "\<lambda>_. True"] by (elim disjE exE conjE) simp_all
  from r(2) obtain arr where arr: "r = Some arr" by blast
  with r(3) obtain es where "exec_args arr = Inr es" by blast
  with r(1) arr show ?thesis by (intro exI conjI) (simp only:)
qed

text \<open>
  C38. The environment that \<^verbatim>\<open>set_env\<close> builds is exactly what the \<^verbatim>\<open>%ENV\<close> section asks for, in its order: a fixed \<^verbatim>\<open>PATH\<close> where
  \<^verbatim>\<open>PATH\<close> is listed, and every other listed variable that the caller has set, with the caller's value. This is what \<^verbatim>\<open>execve\<close> reads from the array,
  up to the null pointer after the last entry.
\<close>

theorem set_env_correct:
  assumes "\<forall>l \<in> set ls. line_fits MAXLINE l"
  shows "\<exists>arr. set_env MAXLINE (Some (unlines ls)) getenv True (\<lambda>_. True) = Inr (Some arr) \<and>
    exec_args arr = Inr (List.map_filter (env_entry getenv) (section_of ENVHEAD ls))"
proof -
  let ?c = "count_loop MAXLINE 1 False (unlines ls)" and ?es = "List.map_filter (env_entry getenv) (section_of ENVHEAD ls)"
  have c: "Suc (length (section_of ENVHEAD ls)) \<le> ?c" using util_buffer.count_section [OF assms, of 1] by simp
  have es: "length ?es \<le> length (section_of ENVHEAD ls)"
    by (simp add: List.map_filter_def length_filter_le)
  obtain c' where c': "length ?es \<le> c'" "?c \<le> c'"
      "fill_loop MAXLINE getenv (\<lambda>_. True) ?c 0 (replicate ?c None) False (unlines ls) =
        Inr (c', length ?es, map stored ?es @ replicate (?c - length ?es) None)"
    using util_buffer.fill_section [OF assms, of ?c getenv ?c] c by auto
  have room: "length ?es < ?c" using c es by simp
  obtain k where k: "?c - length ?es = Suc k" using room by (cases "?c - length ?es") simp_all
  have fit: "length ?es < c'" using room c'(2) by simp
  have "set_env MAXLINE (Some (unlines ls)) getenv True (\<lambda>_. True) = Inr (Some (map stored ?es @ Some None # replicate k None))"
    using c'(3) fit by (simp add: set_env_def Let_def store_env_def k list_update_append del: One_nat_def)
  with exec_args_terminated show ?thesis by blast
qed

theorem set_env_correct_witness:
  "\<exists>arr. set_env MAXLINE (Some (unlines [''%ENV'', ''HOME'', ''PATH'', ''TERM'', ''%BEH'', ''X'']))
       (\<lambda>v. if v = ''HOME'' \<or> v = ''X'' then Some ''/h'' else None) True (\<lambda>_. True) = Inr (Some arr) \<and>
     exec_args arr = Inr [''HOME=/h'', ''PATH=/bin:/usr/bin:/usr/local/bin'']"
  using set_env_correct [of "[''%ENV'', ''HOME'', ''PATH'', ''TERM'', ''%BEH'', ''X'']"
      "\<lambda>v. if v = ''HOME'' \<or> v = ''X'' then Some ''/h'' else None"]
  by (simp add: line_fits_def comment_def map_filter_simps env_entry_def)

text \<open>A configuration file written from a list of names and paths.\<close>

definition print_conf :: "(string \<times> string) list \<Rightarrow> string list" where
  "print_conf env = SHELLHEAD # map (\<lambda>(a, p). a @ '':'' @ p) env"

definition printable :: "string \<times> string \<Rightarrow> bool" where
  "printable e \<longleftrightarrow>
     set (fst e) \<inter> {NL, NUL, CHR '':''} = {} \<and> set (snd e) \<inter> {NL, NUL} = {} \<and>
     (fst e = [] \<or> hd (fst e) \<notin> {CHR ''#'', CHR ''%''}) \<and> length (fst e) + length (snd e) + 3 \<le> MAXLINE"

lemma split_colon_append: "CHR '':'' \<notin> set a \<Longrightarrow> split_colon (a @ CHR '':'' # p) = Some (a, p)"
  by (induction a) auto

lemma printed_body: "\<forall>e \<in> set env. printable e \<Longrightarrow>
    List.map_filter split_colon (body (map (\<lambda>(a, p). a @ '':'' @ p) env)) = env"
proof (induction env)
  case Nil
  then show ?case by (simp add: map_filter_simps)
next
  case (Cons e env)
  obtain a p where e: "e = (a, p)" by (cases e)
  have line: "\<not> comment (a @ CHR '':'' # p)" "hd (a @ CHR '':'' # p) \<noteq> CHR ''%''" "CHR '':'' \<notin> set a"
    using Cons.prems e by (cases a; auto simp: printable_def comment_def)+
  with Cons e show ?case by (simp add: map_filter_simps split_colon_append)
qed

text \<open>
  A configuration written from a list of names and paths reads back as that list: both copies of \<^verbatim>\<open>check_chos\<close> return for
  every name the first path listed for it.
\<close>

theorem conf_roundtrip:
  assumes "\<forall>e \<in> set env. printable e"
  shows "check_chos (Some \<lparr>contents = unlines (print_conf env), st_uid = Some 0\<rparr>) name = map_of env name \<and>
    pam_check_chos (Some \<lparr>contents = unlines (print_conf env), st_uid = Some 0\<rparr>) name = map_of env name"
proof -
  have fits: "line_fits n l" if "l \<in> set (print_conf env)" "MAXLINE \<le> n" for l n
    using assms that by (auto simp: print_conf_def line_fits_def printable_def)
  have "conf_lookup (print_conf env) name = map_of env name"
    using printed_body [OF assms] by (simp add: conf_lookup_def print_conf_def comment_def)
  with fits [of _ MAXLINE] fits [of _ 81] show ?thesis
    by (simp add: check_chos_def pam_check_chos_def util_buffer.check_section pam_buffer.check_section)
qed

theorem conf_roundtrip_witness:
  "check_chos (Some \<lparr>contents = unlines (print_conf [(''sl6'', ''/os/sl6''), (''local'', ''/''), (''sl6'', ''/x'')]),
     st_uid = Some 0\<rparr>) ''sl6'' = Some ''/os/sl6''"
  using conf_roundtrip [of "[(''sl6'', ''/os/sl6''), (''local'', ''/''), (''sl6'', ''/x'')]" "''sl6''"]
  by (simp add: printable_def)

text \<open>
  The switch that \<^verbatim>\<open>set_beh\<close> reads.
\<close>

theorem set_beh_correct:
  assumes "\<forall>l \<in> set ls. line_fits MAXLINE l"
  shows "set_beh MAXLINE (Some (unlines ls)) \<longleftrightarrow> ''BASHLOGIN'' \<in> set (section_of BEHHEAD ls)"
  using util_buffer.beh_section [OF assms] by (simp add: set_beh_def)

text \<open>
  A comment that is as long as the buffer or longer ends where the buffer ends: what follows it on its line is read as a line of its
  own, so that it may define a name.
\<close>

theorem long_comment_continues:
  assumes "2 \<le> n" and "length c = n - 1" and "NL \<notin> set c" and "hd c = CHR ''#''"
  shows "check_loop n name start (c @ rest) = check_loop n name start rest"
proof -
  have take: "take_line (length c) (c @ rest) = (c, rest)" using assms(3) by (induction c) auto
  have "c @ rest \<noteq> []" using assms(1,2) by auto
  then have "fgets n (c @ rest) = Some (c, rest)" using assms(1,2) take by (simp add: fgets_def)
  with assms(4) show ?thesis by (subst check_loop.simps) (simp add: skipped_def)
qed

theorem long_comment_defines_name:
  "check_loop MAXLINE ''evil'' True (CHR ''#'' # replicate 78 (CHR ''-'') @ ''evil:/evil'' @ [NL]) = Some ''/evil''"
proof -
  have "check_loop MAXLINE ''evil'' True ((CHR ''#'' # replicate 78 (CHR ''-'')) @ ''evil:/evil'' @ [NL]) =
      check_loop MAXLINE ''evil'' True (''evil:/evil'' @ [NL])"
    by (rule long_comment_continues) simp_all
  also have "\<dots> = Some ''/evil''"
    using util_buffer.check_body [of "[''evil:/evil'']" "''evil''"]
    by (simp add: line_fits_def comment_def map_filter_simps)
  finally show ?thesis by simp
qed

end
