(* ===== verification/Chos_Util.thy ===== *)
theory Chos_Util
  imports Conf_Files
begin

text \<open>
  The \<^verbatim>\<open>chos\<close> command, \<^verbatim>\<open>utils/chos.c\<close>: the arguments, the two functions that talk to the kernel module, and \<^verbatim>\<open>main\<close>. What
  \<^verbatim>\<open>main\<close> does is given as what it prints, the text it writes to \<^verbatim>\<open>/proc/chos/setchos\<close>, if any, and the value it returns or the program it
  becomes. The caller's environment and the files are a record of parameters.
\<close>

section \<open>Arguments\<close>

text \<open>\<open>argmatch arg m\<close>: \<^verbatim>\<open>strncmp(arg, match, strlen(match)) == 0\<close> unless \<^verbatim>\<open>arg\<close> is shorter than \<^verbatim>\<open>match\<close>.\<close>

definition argmatch :: "string \<Rightarrow> string \<Rightarrow> bool" where
  "argmatch arg m = (if length arg < length m then False else take (length m) arg = m)"

section \<open>Talking to the module\<close>

text \<open>
  What \<^verbatim>\<open>fprintf(stream, os)\<close> prints when it is given no further arguments: a conversion other than \<^verbatim>\<open>%%\<close> reads an argument
  that is not there.
\<close>

fun printf_out :: "string \<Rightarrow> string option" where
  "printf_out [] = Some []"
| "printf_out (c # s) =
     (if c \<noteq> CHR ''%'' then map_option ((#) c) (printf_out s)
      else case s of
             [] \<Rightarrow> None
           | d # r \<Rightarrow> if d = CHR ''%'' then map_option ((#) c) (printf_out r) else None)"

text \<open>
  \<^verbatim>\<open>set_multi\<close>: its return value, and what reaches the kernel when \<^verbatim>\<open>fclose\<close> flushes the stream, whose status is not looked at.
  \<open>opened\<close> and \<open>printed\<close> are whether \<^verbatim>\<open>fopen\<close> and \<^verbatim>\<open>fprintf\<close> succeed.
\<close>

definition set_multi :: "bool \<Rightarrow> bool \<Rightarrow> string \<Rightarrow> fault + int \<times> string option" where
  "set_multi opened printed os =
     (if \<not> opened then Inr (- 3, None)
      else case printf_out os of
             None \<Rightarrow> Inl Undefined
           | Some out \<Rightarrow> if \<not> printed then Inr (- 3, None) else Inr (0, Some out))"

abbreviation MAX_OS :: nat where "MAX_OS \<equiv> 80"

text \<open>
  \<^verbatim>\<open>get_multi\<close>: \<open>link\<close> is the target that \<^verbatim>\<open>readlink\<close> finds, of which it copies at most \<^verbatim>\<open>MAX_OS\<close> bytes into an array
  of that size.
\<close>

definition get_multi :: "string option \<Rightarrow> fault + (int \<times> string)" where
  "get_multi link =
     (case link of
        None \<Rightarrow> Inr (- 3, [])
      | Some target \<Rightarrow>
         let len = min (length target) MAX_OS
         in if len < 1 then Inr (- 3, [])
            else if MAX_OS \<le> len then Inl Out_Of_Bounds
            else Inr (0, take len target))"

text \<open>\<^verbatim>\<open>is_chrooted\<close> of the utility, on the text of the link.\<close>

definition util_is_chrooted :: "string \<Rightarrow> bool" where
  "util_is_chrooted chos = (if chos = ''/'' then False else True)"

section \<open>The command\<close>

record util_env =
  u_getenv :: "string \<Rightarrow> string option"
  u_conf :: "conf_file option"
  u_envconf :: "string option"
  u_shell :: "string option"
  u_link :: "string option"
  u_open :: bool
  u_printed :: bool
  u_alloc :: bool
  u_malloc :: "nat \<Rightarrow> bool"
  u_VERSION :: string
  u_koversion :: "string option"
  u_strerror :: string

section \<open>Version and usage\<close>

text \<open>
  \<open>u_VERSION\<close> is the \<^verbatim>\<open>VERSION\<close> of \<^verbatim>\<open>config.h\<close>, which the build generates, \<open>u_koversion\<close> the contents of \<^verbatim>\<open>/proc/chos/version\<close> if it can be
  opened, and \<open>u_strerror\<close> the text for \<^verbatim>\<open>errno\<close>. \<^verbatim>\<open>snprintf(buf, n, ...)\<close> puts at most \<open>n - 1\<close> characters before the NUL.
\<close>

abbreviation TAB :: char where "TAB \<equiv> CHR 0x09"
abbreviation CHOSKOVERSION :: string where "CHOSKOVERSION \<equiv> ''/proc/chos/version''"

definition kernel_version :: "util_env \<Rightarrow> string" where
  "kernel_version u =
     (let unreadable = take (MAXLINE - 1 - 1) (CHOSKOVERSION @ '' not readable: '' @ u_strerror u @ ''.'')
      in case u_koversion u of
           None \<Rightarrow> unreadable
         | Some f \<Rightarrow> (case fgets MAXLINE f of None \<Rightarrow> unreadable | Some (line, _) \<Rightarrow> cstr line))"

definition chos_print_version :: "util_env \<Rightarrow> string" where
  "chos_print_version u =
     ''CHOS userland component version:'' @ [TAB] @ u_VERSION u @ [NL] @
     ''CHOS kernel component version:  '' @ [TAB] @ kernel_version u @ [NL]"

definition chos_print_usage :: string where
  "chos_print_usage =
     ''Usage: chos [OPTION]'' @ [NL] @
     ''       chos [COMMAND]'' @ [NL, NL] @
     ''The \"chos\" utility will run COMMAND within the CHOS'' @ [NL] @
     ''environment named within the $CHOS environment variable.'' @ [NL, NL] @
     ''If no command is provided, a new login shell will be launched.'' @ [NL, NL] @
     ''If the only argument to chos is exactly one of the options defined'' @ [NL] @
     ''below, then the following behavior will result:'' @ [NL, NL] @
     ''Options:'' @ [NL] @
     ''       --version'' @ [TAB, TAB] @ ''Print version information'' @ [NL] @
     ''       --help'' @ [TAB, TAB, TAB] @ ''Print this help message'' @ [NL, NL]"

text \<open>Whether to go on, and what has been printed.\<close>

definition chos_parse_args :: "util_env \<Rightarrow> string list \<Rightarrow> bool \<times> string" where
  "chos_parse_args u argv =
     (if length argv \<noteq> 2 then (True, [])
      else if argmatch (argv ! 1) ''--version'' then (False, chos_print_version u)
      else if argmatch (argv ! 1) ''--help'' then (False, chos_print_version u @ chos_print_usage)
      else (True, []))"

section \<open>Running a command\<close>

datatype outcome = Return int | Execve string "string list" "string list" | Execvp string "string list"

fun strstr :: "string \<Rightarrow> string \<Rightarrow> bool" where
  "strstr [] p = (p = [])"
| "strstr (c # s) p = (take (length p) (c # s) = p \<or> strstr s p)"

abbreviation DEFAULT_OS :: string where "DEFAULT_OS \<equiv> ''default''"

text \<open>The end of \<^verbatim>\<open>main\<close>, after the link has been taken care of.\<close>

definition run_command :: "util_env \<Rightarrow> string \<Rightarrow> string list \<Rightarrow> fault + outcome" where
  "run_command u shell argv =
     (if length argv = 1 then
        ebind (set_env MAXLINE (u_envconf u) (u_getenv u) (u_alloc u) (u_malloc u)) (\<lambda>newenv.
        case newenv of
          None \<Rightarrow> Inr (Return (- 1))
        | Some arr \<Rightarrow>
            ebind (exec_args arr) (\<lambda>env.
            Inr (Execve shell
              [shell, if strstr shell ''csh'' then ''-l'' else if set_beh MAXLINE (u_envconf u) then ''-l'' else ''-''] env)))
      else Inr (Execvp (argv ! 1) (tl argv)))"

definition chos_main :: "string list \<Rightarrow> util_env \<Rightarrow> fault + string \<times> string option \<times> outcome" where
  "chos_main argv u =
     (case chos_parse_args u argv of (go, stdout) \<Rightarrow>
      if \<not> go then Inr (stdout, None, Return 1)
      else case u_getenv u ''CHOS'' of
        None \<Rightarrow> Inr (stdout, None, Return (- 2))
      | Some osenv \<Rightarrow>
         let found = check_chos (u_conf u) osenv;
             os = (if found = None \<and> osenv \<noteq> DEFAULT_OS then Some osenv else found)
         in (case u_shell u of
               None \<Rightarrow> Inr (stdout, None, Return (- 2))
             | Some shell \<Rightarrow>
                (case os of
                   None \<Rightarrow> ebind (run_command u shell argv) (\<lambda>r. Inr (stdout, None, r))
                 | Some x \<Rightarrow>
                    ebind (get_multi (u_link u)) (\<lambda>(ret, chos).
                    if ret \<noteq> 0 then Inr (stdout, None, Return (- 3))
                    else if take MAX_OS chos \<noteq> take MAX_OS x then
                      ebind (set_multi (u_open u) (u_printed u) x) (\<lambda>(ret, out).
                      if ret \<noteq> 0 then Inr (stdout, None, Return (- 3))
                      else ebind (run_command u shell argv) (\<lambda>r. Inr (stdout, out, r)))
                    else ebind (run_command u shell argv) (\<lambda>r. Inr (stdout, None, r))))))"

section \<open>Lemmas\<close>

lemma printf_literal: "CHR ''%'' \<notin> set s \<Longrightarrow> printf_out s = Some s"
  by (induction s) auto

lemma get_multi_short: "0 < length t \<Longrightarrow> length t < MAX_OS \<Longrightarrow> get_multi (Some t) = Inr (0, t)"
  by (simp add: get_multi_def Let_def)

lemma parse_go: "fst (chos_parse_args u argv) \<Longrightarrow> chos_parse_args u argv = (True, [])"
  by (auto simp: chos_parse_args_def split: if_splits)

lemma chos_enters:
  assumes ls: "\<forall>l \<in> set ls. line_fits MAXLINE l" and conf: "u_conf u = Some \<lparr>contents = unlines ls, st_uid = Some 0\<rparr>"
    and name: "u_getenv u ''CHOS'' = Some name" "conf_lookup ls name = Some path" "CHR ''%'' \<notin> set path"
    and pw: "u_shell u = Some shell" and link: "u_link u = Some cur" "cur \<noteq> []" "length cur < MAX_OS"
    and path: "length path < MAX_OS" and open': "u_open u" "u_printed u"
    and argv: "2 \<le> length argv" "fst (chos_parse_args u argv)"
  shows "chos_main argv u = Inr ([], if cur = path then None else Some path, Execvp (argv ! 1) (tl argv))"
proof -
  have found: "check_chos (u_conf u) name = Some path"
    using conf name(2) util_buffer.check_section [OF ls] by (simp add: check_chos_def)
  have "get_multi (u_link u) = Inr (0, cur)" using link get_multi_short [of cur] by simp
  moreover have "set_multi (u_open u) (u_printed u) path = Inr (0, Some path)"
    using open' printf_literal [OF name(3)] by (simp add: set_multi_def)
  moreover have "run_command u shell argv = Inr (Execvp (argv ! 1) (tl argv))"
    using argv(1) by (simp add: run_command_def)
  ultimately show ?thesis
    using found name(1) pw parse_go [OF argv(2)] link(3) path by (simp add: chos_main_def Let_def)
qed

section \<open>Properties\<close>

text \<open>
  Running \<^verbatim>\<open>chos\<close> with a command and a name that \<^verbatim>\<open>/etc/chos\<close> defines puts the caller into that tree: what \<^verbatim>\<open>main\<close> writes to
  \<^verbatim>\<open>setchos\<close> is exactly the path of the name, unless the link has that path already, in which case it writes nothing, and
  then it becomes the command with its arguments.
\<close>

theorem chos_main_enters_tree:
  assumes ls: "\<forall>l \<in> set ls. line_fits MAXLINE l" and conf: "u_conf u = Some \<lparr>contents = unlines ls, st_uid = Some 0\<rparr>"
    and name: "u_getenv u ''CHOS'' = Some name" "conf_lookup ls name = Some path" "CHR ''%'' \<notin> set path"
    and pw: "u_shell u = Some shell" and link: "u_link u = Some cur" "cur \<noteq> []" "length cur < MAX_OS"
    and path: "length path < MAX_OS" and open': "u_open u" "u_printed u"
    and argv: "2 \<le> length argv" "fst (chos_parse_args u argv)"
  shows "chos_main argv u = Inr ([], if cur = path then None else Some path, Execvp (argv ! 1) (tl argv))"
  using chos_enters [OF ls conf name pw link path open' argv] .

definition demo_util :: util_env where
  "demo_util =
     \<lparr>u_getenv = (\<lambda>v. if v = ''CHOS'' then Some ''sl6'' else None),
      u_conf = Some \<lparr>contents = unlines [''%SHELLS'', ''sl6:/os/sl6''], st_uid = Some 0\<rparr>, u_envconf = None,
      u_shell = Some ''/bin/sh'', u_link = Some ''/'', u_open = True, u_printed = True, u_alloc = True,
      u_malloc = (\<lambda>_. True),
      u_VERSION = ''0.13.2'', u_koversion = Some (''chos 0.13.2 Fork trapped'' @ [NL]), u_strerror = ''No such file''\<rparr>"

theorem chos_main_enters_tree_witness:
  "chos_main [''chos'', ''ls'', ''-l''] demo_util = Inr ([], Some ''/os/sl6'', Execvp ''ls'' [''ls'', ''-l''])"
  using chos_main_enters_tree [where ls = "[''%SHELLS'', ''sl6:/os/sl6'']" and u = demo_util and argv = "[''chos'', ''ls'', ''-l'']"
      and name = "''sl6''" and path = "''/os/sl6''" and shell = "''/bin/sh''" and cur = "''/''"]
  by (simp add: demo_util_def line_fits_def conf_lookup_def comment_def map_filter_simps chos_parse_args_def)

text \<open>
  A name that \<^verbatim>\<open>/etc/chos\<close> does not define is tried as it is, and as a format: a percent sign in the caller's \<^verbatim>\<open>CHOS\<close> makes the
  command print arguments that it does not have.
\<close>

theorem chos_main_format_string:
  assumes "u_getenv u ''CHOS'' = Some name" "check_chos (u_conf u) name = None" "name \<noteq> DEFAULT_OS"
    and "printf_out name = None" and "u_shell u \<noteq> None" and "u_link u = Some cur" "cur \<noteq> []" "length cur < MAX_OS"
    and "take MAX_OS cur \<noteq> take MAX_OS name" and "u_open u" and "fst (chos_parse_args u argv)"
  shows "chos_main argv u = Inl Undefined"
  using assms get_multi_short [of cur] parse_go [of u argv] by (auto simp: chos_main_def Let_def set_multi_def)

text \<open>A link of \<^verbatim>\<open>MAX_OS\<close> bytes or more makes \<^verbatim>\<open>get_multi\<close> write past the end of its array.\<close>

theorem get_multi_overrun: "MAX_OS \<le> length target \<Longrightarrow> get_multi (Some target) = Inl Out_Of_Bounds"
  by (simp add: get_multi_def Let_def min_def)

end
