(* ===== verification/Pam_Chos.thy ===== *)
theory Pam_Chos
  imports Chos_Util
begin

text \<open>
  The PAM module that puts a login session into a tree: \<^verbatim>\<open>pam_chos/pam_chos_util.c\<close> (sanitizing and the pipe from the child),
  \<^verbatim>\<open>pam_chos/pam_chos_helper.c\<close> (options, the user's file, the choice of the tree) and \<^verbatim>\<open>pam_sm_open_session\<close> of
  \<^verbatim>\<open>pam_chos/pam_chos.c\<close>. The session forks a child that drops its privileges, chooses the tree and writes its path and name into
  a pipe; the parent reads them, sanitizes them and writes the path to \<^verbatim>\<open>/proc/chos/setchos\<close>. Whether the system calls
  succeed is a record of parameters. Log messages are left out.
\<close>

section \<open>Sanitizing\<close>

text \<open>\<^verbatim>\<open>char\<close> is signed on the platform.\<close>

definition schar :: "char \<Rightarrow> int" where
  "schar c = (if (of_char c :: int) < 128 then of_char c else of_char c - 256)"

definition is_valid_char :: "char \<Rightarrow> bool \<Rightarrow> bool" where
  "is_valid_char c is_path \<longleftrightarrow>
     c = NUL \<or> c = CHR ''-'' \<or> c = CHR ''.'' \<or>
     schar c \<ge> schar (CHR ''0'') \<and> schar c \<le> schar (CHR ''9'') \<or>
     schar c \<ge> schar (CHR ''/'') \<and> is_path \<or>
     schar c \<ge> schar (CHR ''a'') \<and> schar c \<le> schar (CHR ''z'') \<or>
     c = CHR ''_'' \<or>
     schar c \<ge> schar (CHR ''A'') \<and> schar c \<le> schar (CHR ''Z'')"

function sanitize_loop :: "nat \<Rightarrow> nat \<Rightarrow> bool \<Rightarrow> bool \<Rightarrow> bytes \<Rightarrow> fault + bool \<times> bytes" where
  "sanitize_loop i n is_path was_clean s =
     (if i < n then
        (if length s \<le> i then Inl Out_Of_Bounds
         else
           let s1 = (if s ! i = NL then s[i := NUL] else s)
           in if \<not> is_valid_char (s1 ! i) is_path
              then sanitize_loop (Suc i) n is_path False (s1[i := CHR ''_''])
              else sanitize_loop (Suc i) n is_path was_clean s1)
      else Inr (was_clean, s))"
  by pat_completeness auto
termination
  by (relation "measure (\<lambda>(i, n, is_path, was_clean, s). n - i)") auto

declare sanitize_loop.simps [simp del]

definition sanitize_str :: "bytes \<Rightarrow> nat \<Rightarrow> bool \<Rightarrow> fault + bool \<times> bytes" where
  "sanitize_str s len is_path = sanitize_loop 0 len is_path True s"

definition sanitize_name :: "bytes \<Rightarrow> nat \<Rightarrow> fault + bool \<times> bytes" where
  "sanitize_name s len = sanitize_str s len False"

definition sanitize_path :: "bytes \<Rightarrow> nat \<Rightarrow> fault + bool \<times> bytes" where
  "sanitize_path s len = sanitize_str s len True"

text \<open>What sanitizing does to a character.\<close>

definition clean :: "bool \<Rightarrow> char \<Rightarrow> char" where
  "clean is_path c = (if c = NL then NUL else if is_valid_char c is_path then c else CHR ''_'')"

lemma valid_NUL [simp]: "is_valid_char NUL p"
  by (simp add: is_valid_char_def)

lemma sanitize_loop_ok:
  assumes "n \<le> length s" and "i \<le> n"
  shows "\<exists>w. sanitize_loop i n p was s = Inr (w, take i s @ map (clean p) (drop i (take n s)) @ drop n s)"
  using assms
proof (induction "n - i" arbitrary: i was s)
  case 0
  then show ?case by (subst sanitize_loop.simps) simp
next
  case (Suc k)
  then have i: "i < n" "i < length s" "k = n - Suc i" by simp_all
  let ?s' = "s[i := clean p (s ! i)]"
  have "\<exists>was'. sanitize_loop i n p was s = sanitize_loop (Suc i) n p was' ?s'"
    using i by (subst sanitize_loop.simps) (auto simp: clean_def Let_def)
  moreover have "take (Suc i) ?s' @ map (clean p) (drop (Suc i) (take n ?s')) @ drop n ?s' =
      take i s @ map (clean p) (drop i (take n s)) @ drop n s"
    using i by (simp add: take_Suc_conv_app_nth take_update_swap drop_update_swap list_update_append Cons_nth_drop_Suc [symmetric, of i "take n s"])
  moreover have "\<exists>w. sanitize_loop (Suc i) n p was' ?s' =
      Inr (w, take (Suc i) ?s' @ map (clean p) (drop (Suc i) (take n ?s')) @ drop n ?s')" for was'
    using Suc.hyps(1) [OF i(3), of ?s' was'] Suc.prems(1) i(1) by simp
  ultimately show ?case by metis
qed

lemma sanitize_str_ok:
  assumes "n \<le> length s"
  obtains w where "sanitize_str s n p = Inr (w, map (clean p) (take n s) @ drop n s)"
  using sanitize_loop_ok [OF assms, of 0 p True] by (auto simp: sanitize_str_def)

lemma clean_no_percent: "clean p c \<noteq> CHR ''%''"
  by (auto simp: clean_def is_valid_char_def schar_def)

lemma clean_valid: "is_valid_char (clean p c) p"
  by (auto simp: clean_def) (simp add: is_valid_char_def)

lemma clean_idem: "clean p (clean p c) = clean p c"
  using clean_valid [of p c] by (auto simp: clean_def)

lemma clean_keeps: "is_valid_char c p \<Longrightarrow> c \<noteq> NL \<Longrightarrow> clean p c = c"
  by (simp add: clean_def)

section \<open>Options\<close>

record pam_chos_config =
  user_conf_file :: string
  fail_to_default :: int

abbreviation MAX_LEN :: nat where "MAX_LEN \<equiv> 256"

definition init_pam_chos_config :: pam_chos_config where
  "init_pam_chos_config = \<lparr>user_conf_file = ''.chos'', fail_to_default = 0\<rparr>"

definition pam_argmatch :: "string \<Rightarrow> string \<Rightarrow> bool" where
  "pam_argmatch arg m = (if length arg < length m + 1 then False else take (length m) arg = m)"

text \<open>The return value, and the configuration as far as it has been updated.\<close>

fun parse_pam_chos_args :: "pam_chos_config \<Rightarrow> string list \<Rightarrow> int \<times> pam_chos_config" where
  "parse_pam_chos_args cfg [] = (1, cfg)"
| "parse_pam_chos_args cfg (arg # argv) =
     (let cfg1 = (if pam_argmatch arg ''user_conf_file=''
                  then cfg\<lparr>user_conf_file := take MAX_LEN (drop (length ''user_conf_file='') arg)\<rparr> else cfg)
      in if pam_argmatch arg ''fail_to_default='' then
           (let val = arg ! length ''fail_to_default=''
            in if val = CHR ''0'' then parse_pam_chos_args (cfg1\<lparr>fail_to_default := 0\<rparr>) argv
               else if val = CHR ''1'' then parse_pam_chos_args (cfg1\<lparr>fail_to_default := 1\<rparr>) argv
               else (- 1, cfg1))
         else parse_pam_chos_args cfg1 argv)"

section \<open>The choice of the tree\<close>

abbreviation DEFAULT_ENV_NAME :: string where "DEFAULT_ENV_NAME \<equiv> ''default''"

text \<open>
  The user's file: \<open>None\<close> when \<^verbatim>\<open>open\<close> fails, otherwise what there is to read (\<open>None\<close> when \<^verbatim>\<open>read\<close> fails) and whether \<^verbatim>\<open>close\<close>
  succeeds.
\<close>

type_synonym user_files = "string \<Rightarrow> (string option \<times> bool) option"

definition user_file_path :: "string \<Rightarrow> string \<Rightarrow> string" where
  "user_file_path dir conf = take 100 dir @ ''/'' @ take 20 conf"

definition read_chos_file :: "string \<Rightarrow> string \<Rightarrow> user_files \<Rightarrow> fault + int \<times> string" where
  "read_chos_file conf dir files =
     (let bytes = (case files (user_file_path dir conf) of
                     None \<Rightarrow> Some []
                   | Some (r, closed) \<Rightarrow>
                      if \<not> closed then None
                      else Some (case r of None \<Rightarrow> [] | Some b \<Rightarrow> take MAXLINE b))
      in case bytes of
           None \<Rightarrow> Inr (- 1, [])
         | Some b \<Rightarrow>
             let (count, osenv) = (if b = [] then (length DEFAULT_ENV_NAME + 1, DEFAULT_ENV_NAME) else (length b, b));
                 osenv = chomp osenv
             in ebind (sanitize_name osenv (length osenv)) (\<lambda>(_, osenv). Inr (int count, cstr osenv)))"

text \<open>
  \<^verbatim>\<open>get_chos_info\<close>: the return value and what it has written into the pipe. \<open>env\<close> is \<^verbatim>\<open>$CHOS\<close>; \<open>opened\<close> and \<open>closed\<close> are whether \<^verbatim>\<open>fdopen\<close> and
  \<^verbatim>\<open>fclose\<close> succeed.
\<close>

definition get_chos_info :: "string list \<Rightarrow> string option \<Rightarrow> conf_file option \<Rightarrow> user_files \<Rightarrow> string \<Rightarrow> bool \<Rightarrow> bool \<Rightarrow>
    fault + int \<times> string" where
  "get_chos_info argv env conf files dir opened closed =
     (case parse_pam_chos_args init_pam_chos_config argv of (r, cfg) \<Rightarrow>
        if r \<noteq> 1 then Inr (- 1, [])
        else
          ebind (read_chos_file (user_conf_file cfg) dir files) (\<lambda>(count, osenv0).
          if count < 0 then Inr (- 1, [])
          else
            ebind (case env of
                     None \<Rightarrow> Inr osenv0
                   | Some e \<Rightarrow>
                      if MAXLINE < length e then Inr osenv0
                      else ebind (sanitize_name e (length e)) (\<lambda>(_, e). Inr (cstr e))) (\<lambda>osenv.
            let os = (case pam_check_chos conf osenv of
                        Some p \<Rightarrow> Some p
                      | None \<Rightarrow>
                         if osenv = DEFAULT_ENV_NAME \<or> 0 < fail_to_default cfg
                         then pam_check_chos conf DEFAULT_ENV_NAME
                         else Some osenv)
            in if \<not> opened then Inr (- 1, [])
               else case os of
                      None \<Rightarrow> Inl Null_Deref
                    | Some p \<Rightarrow> Inr (if closed then 1 else - 1, p @ [NL] @ osenv @ [NL]))))"

section \<open>The session\<close>

text \<open>What \<^verbatim>\<open>fgets\<close> leaves in a buffer that it writes a line to.\<close>

definition put_line :: "string \<Rightarrow> bytes \<Rightarrow> bytes" where
  "put_line l b = l @ NUL # drop (Suc (length l)) b"

definition read_line_from_file :: "string \<Rightarrow> (string \<times> string) option" where
  "read_line_from_file f = fgets MAXLINE f"

text \<open>\<open>opened\<close> and \<open>closed\<close> are whether \<^verbatim>\<open>fdopen\<close> and \<^verbatim>\<open>fclose\<close> succeed.\<close>

definition retrieve_from_child :: "bytes \<Rightarrow> bytes \<Rightarrow> bool \<Rightarrow> bool \<Rightarrow> string \<Rightarrow> int \<times> bytes \<times> bytes" where
  "retrieve_from_child env_path osenv opened closed pipe =
     (if \<not> opened then (- 1, env_path, osenv)
      else
        let (ret, env_path, osenv) =
              (case read_line_from_file pipe of
                 None \<Rightarrow> (- 1, env_path, osenv)
               | Some (l, rest) \<Rightarrow>
                  (case read_line_from_file rest of
                     None \<Rightarrow> (- 1, put_line l env_path, osenv)
                   | Some (l', _) \<Rightarrow> (1, put_line l env_path, put_line l' osenv)))
        in (if closed then ret else - 1, env_path, osenv))"

definition pam_set_multi :: "bool \<Rightarrow> bool \<Rightarrow> string \<Rightarrow> fault + int \<times> string option" where
  "pam_set_multi opened printed os =
     (if \<not> opened then Inr (- 3, None)
      else case printf_out os of
             None \<Rightarrow> Inl Undefined
           | Some out \<Rightarrow> if \<not> printed then Inr (- 3, None) else Inr (0, Some out))"

text \<open>
  The parameters of a session: the results of \<^verbatim>\<open>pam_get_user\<close> and \<^verbatim>\<open>getpwnam\<close> (uid and home directory), of \<^verbatim>\<open>pipe\<close> and \<^verbatim>\<open>fork\<close>, of the
  child's \<^verbatim>\<open>close_fd\<close>, \<^verbatim>\<open>setgroups\<close>, \<^verbatim>\<open>setresgid\<close> and \<^verbatim>\<open>setresuid\<close>, the child's surroundings, the results of the parent's calls, the
  contents of the two uninitialised buffers, and what the parent finds, in the pipe and as the status, of a child whose behaviour is undefined.
\<close>

record session =
  got_user :: bool
  passwd :: "(nat \<times> string) option"
  pipe_ok :: bool
  fork_ok :: bool
  child_close :: bool
  child_setgroups :: bool
  child_setresgid :: bool
  child_setresuid :: bool
  args :: "string list"
  chos_env :: "string option"
  conf :: "conf_file option"
  home_files :: user_files
  child_fdopen :: bool
  child_fclose :: bool
  parent_close :: bool
  parent_fdopen :: bool
  parent_fclose :: bool
  setchos_open :: bool
  setchos_print :: bool
  buf1 :: bytes
  buf2 :: bytes
  crashed :: "string \<times> int"

text \<open>What the child leaves in the pipe, and its status.\<close>

definition session_child :: "session \<Rightarrow> string \<Rightarrow> fault + string \<times> int" where
  "session_child x dir =
     (if \<not> child_close x then Inr ([], - 1)
      else if \<not> child_setgroups x then Inr ([], - 1)
      else if \<not> child_setresgid x then Inr ([], - 1)
      else if \<not> child_setresuid x then Inr ([], - 1)
      else
        ebind (get_chos_info (args x) (chos_env x) (conf x) (home_files x) dir (child_fdopen x) (child_fclose x)) (\<lambda>(ret, pipe).
        Inr (pipe, if ret \<noteq> 1 then - 1 else 0)))"

abbreviation ONERR :: int where "ONERR \<equiv> PAM_SUCCESS"

text \<open>
  The parent, a process of its own after the fork, which goes on whatever becomes of the child: it reads what the child has found, and finishes by setting the link. The results are the return value, the text written to \<^verbatim>\<open>setchos\<close> and the variable put into the session's environment, if any. The result of
  \<^verbatim>\<open>pam_putenv\<close> is not looked at.
\<close>

definition session_finish :: "session \<Rightarrow> bytes \<Rightarrow> bytes \<Rightarrow> fault + int \<times> string option \<times> string option" where
  "session_finish x env_path osenv =
     ebind (sanitize_path env_path (MAXLINE + 1)) (\<lambda>(_, env_path).
     ebind (sanitize_name osenv (MAXLINE + 1)) (\<lambda>(_, osenv).
     ebind (pam_set_multi (setchos_open x) (setchos_print x) (cstr env_path)) (\<lambda>(ret, out).
     if ret \<noteq> 0 then Inr (ONERR, None, None)
     else Inr (PAM_SUCCESS, out, Some (''CHOS='' @ take 40 (cstr osenv))))))"

definition session_parent :: "session \<Rightarrow> string \<Rightarrow> int \<Rightarrow> fault + int \<times> string option \<times> string option" where
  "session_parent x pipe child_status =
     (if \<not> parent_close x then Inr (ONERR, None, None)
      else (case retrieve_from_child (buf1 x) (buf2 x) (parent_fdopen x) (parent_fclose x) pipe of
              (ret, env_path, osenv) \<Rightarrow>
                if ret \<noteq> 1 then Inr (ONERR, None, None)
                else if child_status \<noteq> 0 then Inr (ONERR, None, None)
                else session_finish x env_path osenv))"

definition pam_sm_open_session :: "session \<Rightarrow> fault + int \<times> string option \<times> string option" where
  "pam_sm_open_session x =
     (if \<not> got_user x then Inr (ONERR, None, None)
      else case passwd x of
        None \<Rightarrow> Inr (ONERR, None, None)
      | Some (uid, dir) \<Rightarrow>
         if uid = 0 then Inr (PAM_SUCCESS, None, None)
         else if \<not> pipe_ok x then Inr (ONERR, None, None)
         else if \<not> fork_ok x then Inr (ONERR, None, None)
         else (case session_child x dir of
                 Inl _ \<Rightarrow> session_parent x (fst (crashed x)) (snd (crashed x))
               | Inr (pipe, child_status) \<Rightarrow> session_parent x pipe child_status))"

section \<open>From the child to the parent\<close>

lemma read_line_fits:
  "NL \<notin> set l \<Longrightarrow> length l + 2 \<le> MAXLINE \<Longrightarrow> read_line_from_file (l @ NL # r) = Some (l @ [NL], r)"
  by (simp add: read_line_from_file_def fgets_def take_line_fits)

lemma read_line_length: "read_line_from_file f = Some (l, r) \<Longrightarrow> length l < MAXLINE"
  using fgetsD(3) [of MAXLINE f l r] by (simp add: read_line_from_file_def)

lemma length_put_line: "length l < MAXLINE \<Longrightarrow> length b = MAXLINE + 1 \<Longrightarrow> length (put_line l b) = MAXLINE + 1"
  by (simp add: put_line_def)

lemma retrieve_length:
  assumes "retrieve_from_child b1 b2 o1 c1 pipe = (ret, e, n)" and "length b1 = MAXLINE + 1" "length b2 = MAXLINE + 1"
  shows "length e = MAXLINE + 1" "length n = MAXLINE + 1"
  using assms read_line_length length_put_line
  by (auto simp: retrieve_from_child_def Let_def split: if_splits option.splits prod.splits)

lemma retrieve_lines:
  assumes "NL \<notin> set p" "length p + 2 \<le> MAXLINE" "NL \<notin> set nm" "length nm + 2 \<le> MAXLINE"
  shows "retrieve_from_child b1 b2 True True (p @ [NL] @ nm @ [NL]) = (1, put_line (p @ [NL]) b1, put_line (nm @ [NL]) b2)"
  using read_line_fits [OF assms(1,2)] read_line_fits [OF assms(3,4), of "[]"] by (simp add: retrieve_from_child_def)

lemma sanitize_whole:
  assumes "length b = MAXLINE + 1"
  shows "\<exists>w. sanitize_str b (MAXLINE + 1) p = Inr (w, map (clean p) b)"
  using sanitize_str_ok [of "MAXLINE + 1" b p] assms by auto

lemma clean_line:
  assumes "\<forall>c \<in> set l. is_valid_char c p \<and> c \<noteq> NUL \<and> c \<noteq> NL"
  shows "cstr (map (clean p) (put_line (l @ [NL]) b)) = l"
proof -
  have "map (clean p) l = l" using assms by (intro map_idI) (simp add: clean_keeps)
  moreover have "NUL \<notin> set l" using assms by auto
  moreover have "clean p NL = NUL" by (simp add: clean_def)
  ultimately show ?thesis by (simp add: put_line_def cstr_append_NUL)
qed

lemma invalid_NL: "\<not> is_valid_char NL p"
  by (simp add: is_valid_char_def schar_def)

lemma invalid_percent: "\<not> is_valid_char (CHR ''%'') p"
  by (simp add: is_valid_char_def schar_def)

lemma read_chos_file_line:
  assumes files: "files (user_file_path dir f) = Some (Some (name @ NL # rest), True)"
    and name: "\<forall>c \<in> set name. is_valid_char c False \<and> c \<noteq> NUL \<and> c \<noteq> NL" "length name < MAXLINE"
  shows "\<exists>k. read_chos_file f dir files = Inr (k, name) \<and> 0 \<le> k"
proof -
  obtain k where k: "MAXLINE - length name = Suc k" using name(2) by (cases "MAXLINE - length name") simp_all
  let ?b = "name @ NL # take k rest"
  have b: "take MAXLINE (name @ NL # rest) = ?b" using name(2) by (simp add: k)
  have no: "NL \<notin> set name" "NUL \<notin> set name" using name(1) by metis+
  have chomp: "chomp ?b = name" by (rule chomp_line [OF no])
  have "map (clean False) name = name" using name(1) by (intro map_idI) (simp add: clean_keeps)
  then obtain w where san: "sanitize_name name (length name) = Inr (w, name)"
    using sanitize_str_ok [of "length name" name False] by (auto simp: sanitize_name_def)
  have ne: "(?b = []) = False" by simp
  show ?thesis
    unfolding read_chos_file_def files option.case prod.case b not_True_eq_False if_False Let_def ne chomp san ebind_simps cstr_no_NUL [OF no(2)]
    by simp
qed

lemma pam_set_multi_clean: "\<exists>ret out. pam_set_multi opened printed (cstr (map (clean p) b)) = Inr (ret, out) \<and>
    (out = None \<or> out = Some (cstr (map (clean p) b)))"
proof -
  have "CHR ''%'' \<notin> set (cstr (map (clean p) b))"
    using set_cstr_subset [of "map (clean p) b"] clean_no_percent by fastforce
  then show ?thesis using printf_literal by (simp add: pam_set_multi_def)
qed

text \<open>Text of the bytes from the minus sign, 45, to 127; so without control characters below 127, blanks and percent signs.\<close>

definition plain_text :: "string option \<Rightarrow> bool" where
  "plain_text out \<longleftrightarrow> (\<forall>t. out = Some t \<longrightarrow> (\<forall>c \<in> set t. 45 \<le> (of_char c :: nat) \<and> (of_char c :: nat) \<le> 127))"

lemma valid_path_char:
  assumes "is_valid_char c True" and "c \<noteq> NUL"
  shows "45 \<le> (of_char c :: nat) \<and> (of_char c :: nat) \<le> 127"
proof -
  obtain n where n: "(of_char c :: nat) = n" "n < 256"
    by (metis char_of_char mod_less_divisor of_char_of zero_less_numeral)
  then have "(of_char c :: int) = int n" by (metis of_nat_of_char)
  then show ?thesis using assms n by (auto simp: is_valid_char_def schar_def split: if_splits)
qed

lemma session_finish_ok:
  assumes "length e = MAXLINE + 1" and "length n = MAXLINE + 1"
  shows "\<exists>out var. session_finish x e n = Inr (PAM_SUCCESS, out, var) \<and> plain_text out"
proof -
  obtain w w' where san: "sanitize_path e (MAXLINE + 1) = Inr (w, map (clean True) e)"
      "sanitize_name n (MAXLINE + 1) = Inr (w', map (clean False) n)"
    using sanitize_whole [OF assms(1), of True] sanitize_whole [OF assms(2), of False]
    unfolding sanitize_path_def sanitize_name_def by blast
  obtain ret out where set: "pam_set_multi (setchos_open x) (setchos_print x) (cstr (map (clean True) e)) = Inr (ret, out)"
      "out = None \<or> out = Some (cstr (map (clean True) e))"
    using pam_set_multi_clean by blast
  have "45 \<le> (of_char c :: nat) \<and> (of_char c :: nat) \<le> 127" if c: "c \<in> set (cstr (map (clean True) e))" for c
  proof (rule valid_path_char)
    obtain d where "c = clean True d" using c set_cstr_subset [of "map (clean True) e"] by auto
    with clean_valid show "is_valid_char c True" by simp
    show "c \<noteq> NUL" using c cstr_NUL_free [of "map (clean True) e"] by metis
  qed
  then have "plain_text out" "plain_text None" using set(2) by (auto simp: plain_text_def)
  then show ?thesis
    using san set(1) unfolding session_finish_def by (cases "ret = 0") (simp_all del: One_nat_def)
qed

lemma session_parent_ok:
  assumes "length (buf1 x) = MAXLINE + 1" and "length (buf2 x) = MAXLINE + 1"
  shows "\<exists>out var. session_parent x pipe st = Inr (PAM_SUCCESS, out, var) \<and> plain_text out"
proof -
  obtain ret e n where r: "retrieve_from_child (buf1 x) (buf2 x) (parent_fdopen x) (parent_fclose x) pipe = (ret, e, n)"
    by (metis prod_cases3)
  have "plain_text None" by (simp add: plain_text_def)
  with session_finish_ok [OF retrieve_length [OF r assms], of x] r show ?thesis by (simp add: session_parent_def)
qed

lemma open_session_cases:
  "pam_sm_open_session x = Inr (PAM_SUCCESS, None, None) \<or>
   (\<exists>uid dir pipe st. passwd x = Some (uid, dir) \<and> uid \<noteq> 0 \<and> pam_sm_open_session x = session_parent x pipe st)"
proof (cases "passwd x")
  case None
  then show ?thesis by (simp add: pam_sm_open_session_def)
next
  case (Some u)
  obtain uid dir where u: "u = (uid, dir)" by (cases u)
  then show ?thesis using Some by (cases "uid = 0") (auto simp: pam_sm_open_session_def split: sum.split)
qed

lemma sanitize_name_safe: "\<exists>w s'. sanitize_name s (length s) = Inr (w, s')"
  using sanitize_str_ok [of "length s" s False] unfolding sanitize_name_def by (metis order_refl)

lemma read_chos_file_safe: "\<exists>r. read_chos_file f dir files = Inr r"
proof -
  have "\<exists>r. (case (if b = [] then (k, d) else (length b, b)) of (count, osenv) \<Rightarrow>
      ebind (sanitize_name (chomp osenv) (length (chomp osenv))) (\<lambda>(_, osenv). Inr (int count, cstr osenv))) = Inr r" for b d and k :: nat
    using sanitize_name_safe [of "chomp b"] sanitize_name_safe [of "chomp d"] by (cases "b = []") auto
  then show ?thesis
    unfolding read_chos_file_def Let_def by (simp only: split: option.split) blast
qed

text \<open>The only fault of the child: a null pointer in the place of the path, when there is no entry for \<^verbatim>\<open>default\<close>.\<close>

lemma get_chos_info_fault:
  assumes "get_chos_info argv env cf files dir opened closed = Inl e"
  shows "e = Null_Deref \<and> pam_check_chos cf ''default'' = None"
proof -
  obtain r cfg where cfg: "parse_pam_chos_args init_pam_chos_config argv = (r, cfg)" by (rule prod.exhaust)
  obtain k nm where read: "read_chos_file (user_conf_file cfg) dir files = Inr (k, nm)"
    using read_chos_file_safe by (metis prod.exhaust)
  obtain nm' where pick: "(case env of None \<Rightarrow> Inr nm | Some e \<Rightarrow> if MAXLINE < length e then Inr nm
      else ebind (sanitize_name e (length e)) (\<lambda>(_, e). Inr (cstr e))) = Inr nm'"
    using sanitize_name_safe by (cases env) (auto, metis ebind_simps(2) case_prod_conv)
  show ?thesis
    using assms cfg read pick
    by (auto simp: get_chos_info_def Let_def split: if_splits option.splits)
qed

section \<open>Properties\<close>

text \<open>
  C35. Opening a session never keeps a user out, and the process of the login never leaves its defined behaviour, whatever the configuration, the user's file and
  environment contain, whichever calls fail, and whatever becomes of the child: it returns \<^verbatim>\<open>PAM_SUCCESS\<close>, what it writes to \<^verbatim>\<open>setchos\<close> consists of
  bytes from 45 to 127 only, which are more characters than the comment above the test allows but no percent sign, so that it is printed as it stands, and for uid 0 it does nothing. The
  child has one way out of its defined behaviour: \<^verbatim>\<open>fputs\<close> of a null pointer, on a system without an entry for \<^verbatim>\<open>default\<close>.
\<close>

theorem session_never_fails:
  assumes "length (buf1 x) = MAXLINE + 1" and "length (buf2 x) = MAXLINE + 1"
  shows "\<exists>out var. pam_sm_open_session x = Inr (PAM_SUCCESS, out, var) \<and>
    plain_text out \<and>
    (\<forall>dir. passwd x = Some (0, dir) \<longrightarrow> out = None \<and> var = None) \<and>
    (\<forall>dir e. session_child x dir = Inl e \<longrightarrow> e = Null_Deref \<and> pam_check_chos (conf x) ''default'' = None)"
proof -
  have child: "e = Null_Deref \<and> pam_check_chos (conf x) ''default'' = None" if "session_child x dir = Inl e" for dir e
    using that get_chos_info_fault by (auto simp: session_child_def ebind_def split: if_splits sum.splits)
  consider (early) "pam_sm_open_session x = Inr (PAM_SUCCESS, None, None)"
    | (late) uid dir pipe st where "passwd x = Some (uid, dir)" "uid \<noteq> 0" "pam_sm_open_session x = session_parent x pipe st"
    using open_session_cases by metis
  then show ?thesis
  proof cases
    case early
    with child show ?thesis by (simp add: plain_text_def)
  next
    case late
    with session_parent_ok [OF assms, of pipe st] child show ?thesis by auto
  qed
qed

definition demo_session :: session where
  "demo_session =
     \<lparr>got_user = True, passwd = Some (500, ''/home/u''), pipe_ok = True, fork_ok = True, child_close = True,
      child_setgroups = True, child_setresgid = True, child_setresuid = True, args = [], chos_env = None,
      conf = Some \<lparr>contents = unlines [''%SHELLS'', ''sl6:/os/sl6''], st_uid = Some 0\<rparr>,
      home_files = (\<lambda>f. if f = ''/home/u/.chos'' then Some (Some (''sl6'' @ [NL]), True) else None),
      child_fdopen = True, child_fclose = True, parent_close = True, parent_fdopen = True, parent_fclose = True,
      setchos_open = True, setchos_print = True, buf1 = replicate 81 (CHR ''?''), buf2 = replicate 81 (CHR ''?''),
      crashed = (''/o'', 11)\<rparr>"

theorem session_never_fails_witness:
  "(\<exists>out var. pam_sm_open_session demo_session = Inr (PAM_SUCCESS, out, var) \<and> plain_text out) \<and>
   (\<exists>out var. pam_sm_open_session (demo_session\<lparr>home_files := (\<lambda>_. None)\<rparr>) = Inr (PAM_SUCCESS, out, var) \<and> plain_text out)"
  using session_never_fails [of demo_session] session_never_fails [of "demo_session\<lparr>home_files := (\<lambda>_. None)\<rparr>"]
  by (auto simp: demo_session_def)

lemma session_run:
  assumes calls: "got_user x" "pipe_ok x" "fork_ok x" "child_close x" "child_setgroups x" "child_setresgid x" "child_setresuid x"
      "child_fdopen x" "child_fclose x" "parent_close x" "parent_fdopen x" "parent_fclose x" "setchos_open x" "setchos_print x"
    and bufs: "length (buf1 x) = MAXLINE + 1" "length (buf2 x) = MAXLINE + 1"
    and user: "passwd x = Some (uid, dir)" "uid \<noteq> 0" "args x = []" "chos_env x = None"
    and dotfile: "home_files x (user_file_path dir ''.chos'') = Some (Some (name @ NL # rest), True)"
    and ls: "conf x = Some \<lparr>contents = unlines ls, st_uid = Some 0\<rparr>" "\<forall>l \<in> set ls. line_fits (MAXLINE + 1) l"
    and conf: "conf_lookup ls name = Some path"
    and name: "\<forall>c \<in> set name. is_valid_char c False \<and> c \<noteq> NUL" "length name + 2 \<le> MAXLINE"
    and path: "\<forall>c \<in> set path. is_valid_char c True \<and> c \<noteq> NUL" "length path + 2 \<le> MAXLINE"
  shows "pam_sm_open_session x = Inr (PAM_SUCCESS, Some path, Some (''CHOS='' @ take 40 name))"
proof -
  have cl: "\<forall>c \<in> set name. is_valid_char c False \<and> c \<noteq> NUL \<and> c \<noteq> NL" "\<forall>c \<in> set path. is_valid_char c True \<and> c \<noteq> NUL \<and> c \<noteq> NL"
    using name(1) path(1) invalid_NL by metis+
  obtain k where read: "read_chos_file ''.chos'' dir (home_files x) = Inr (k, name)" "0 \<le> k"
    using read_chos_file_line [of "home_files x" dir "''.chos''" name rest, OF dotfile cl(1)] name(2) by auto
  have "pam_check_chos (conf x) name = Some path"
    using ls conf pam_buffer.check_section [of ls name] by (simp add: pam_check_chos_def)
  then have info: "get_chos_info (args x) (chos_env x) (conf x) (home_files x) dir True True = Inr (1, path @ [NL] @ name @ [NL])"
    using read user(3,4) by (simp add: get_chos_info_def init_pam_chos_config_def)
  have child: "session_child x dir = Inr (path @ [NL] @ name @ [NL], 0)" using info calls by (simp add: session_child_def)
  have nl: "NL \<notin> set path" "NL \<notin> set name" using cl by metis+
  note ret = retrieve_lines [OF nl(1) path(2) nl(2) name(2), of "buf1 x" "buf2 x"]
  have len: "length (put_line (path @ [NL]) (buf1 x)) = MAXLINE + 1" "length (put_line (name @ [NL]) (buf2 x)) = MAXLINE + 1"
    using bufs path(2) name(2) by (intro length_put_line; simp)+
  obtain w w' where san: "sanitize_path (put_line (path @ [NL]) (buf1 x)) (MAXLINE + 1) = Inr (w, map (clean True) (put_line (path @ [NL]) (buf1 x)))"
      "sanitize_name (put_line (name @ [NL]) (buf2 x)) (MAXLINE + 1) = Inr (w', map (clean False) (put_line (name @ [NL]) (buf2 x)))"
    using sanitize_whole [OF len(1), of True] sanitize_whole [OF len(2), of False] by (auto simp: sanitize_path_def sanitize_name_def)
  have "CHR ''%'' \<notin> set path" using path(1) invalid_percent by metis
  then have "pam_set_multi True True path = Inr (0, Some path)" using printf_literal by (simp add: pam_set_multi_def)
  then show ?thesis
    using calls user(1,2) child ret san clean_line [OF cl(1), of "buf2 x"] clean_line [OF cl(2), of "buf1 x"]
    by (simp add: pam_sm_open_session_def session_parent_def session_finish_def)
qed

text \<open>
  The session of a user who has named a tree in \<^verbatim>\<open>.chos\<close> enters it: when every call succeeds and \<^verbatim>\<open>/etc/chos\<close> defines the name, the
  text written to \<^verbatim>\<open>setchos\<close> is exactly the path that it defines, and \<^verbatim>\<open>CHOS\<close> in the session is the name, for paths and names of
  allowed characters that fit the buffer of the pipe.
\<close>

theorem session_enters_tree:
  assumes calls: "got_user x" "pipe_ok x" "fork_ok x" "child_close x" "child_setgroups x" "child_setresgid x" "child_setresuid x"
      "child_fdopen x" "child_fclose x" "parent_close x" "parent_fdopen x" "parent_fclose x" "setchos_open x" "setchos_print x"
    and bufs: "length (buf1 x) = MAXLINE + 1" "length (buf2 x) = MAXLINE + 1"
    and user: "passwd x = Some (uid, dir)" "uid \<noteq> 0" "args x = []" "chos_env x = None"
    and dotfile: "home_files x (user_file_path dir ''.chos'') = Some (Some (name @ NL # rest), True)"
    and ls: "conf x = Some \<lparr>contents = unlines ls, st_uid = Some 0\<rparr>" "\<forall>l \<in> set ls. line_fits (MAXLINE + 1) l"
    and conf: "conf_lookup ls name = Some path"
    and name: "\<forall>c \<in> set name. is_valid_char c False \<and> c \<noteq> NUL" "length name + 2 \<le> MAXLINE"
    and path: "\<forall>c \<in> set path. is_valid_char c True \<and> c \<noteq> NUL" "length path + 2 \<le> MAXLINE"
  shows "pam_sm_open_session x = Inr (PAM_SUCCESS, Some path, Some (''CHOS='' @ take 40 name))"
  by (rule session_run [OF assms])

theorem session_enters_tree_witness:
  "pam_sm_open_session demo_session = Inr (PAM_SUCCESS, Some ''/os/sl6'', Some ''CHOS=sl6'')"
  using session_enters_tree [where x = demo_session and ls = "[''%SHELLS'', ''sl6:/os/sl6'']" and name = "''sl6''"
      and path = "''/os/sl6''" and uid = 500 and dir = "''/home/u''" and rest = "[]"]
  by (simp add: demo_session_def user_file_path_def line_fits_def conf_lookup_def comment_def map_filter_simps
      is_valid_char_def schar_def)

section \<open>Where the module does not do what it says\<close>

text \<open>
  The comment above the test of a path's characters allows letters, digits, \<^verbatim>\<open>-._\<close> and the slash; the code allows everything from the slash on.
\<close>

theorem path_characters: "is_valid_char (CHR '';'') True \<and> is_valid_char (CHR ''|'') True \<and> is_valid_char (CHR 0x60) True"
  by (simp add: is_valid_char_def schar_def)

text \<open>
  A user without a file and without \<^verbatim>\<open>$CHOS\<close>, on a system whose \<^verbatim>\<open>/etc/chos\<close> has no entry for \<^verbatim>\<open>default\<close>, makes the child print a null
  pointer.
\<close>

theorem no_default_entry:
  assumes "pam_check_chos cf ''default'' = None" and "files (user_file_path dir ''.chos'') = None"
  shows "get_chos_info [] None cf files dir True closed = Inl Null_Deref"
proof -
  have "map (clean False) ''default'' = ''default''" by (simp add: clean_def is_valid_char_def schar_def)
  then have san: "\<exists>w. sanitize_name ''default'' (length ''default'') = Inr (w, ''default'')"
    using sanitize_str_ok [of "length ''default''" "''default''" False] by (auto simp: sanitize_name_def)
  then have "read_chos_file ''.chos'' dir files = Inr (8, ''default'')"
    using assms(2) by (auto simp: read_chos_file_def Let_def)
  with assms(1) show ?thesis by (simp add: get_chos_info_def init_pam_chos_config_def Let_def)
qed

text \<open>
  A path of 79 characters or more does not fit the parent's buffer with its newline: the parent takes the rest of it for the name.
\<close>

theorem long_path_desynchronizes:
  assumes "length p = MAXLINE - 1" and "NL \<notin> set p" and "NL \<notin> set q" and "length q + 2 \<le> MAXLINE"
  shows "retrieve_from_child b1 b2 True True (p @ q @ [NL] @ nm @ [NL]) = (1, put_line p b1, put_line (q @ [NL]) b2)"
proof -
  have take: "take_line (length p) (p @ r) = (p, r)" for r using assms(2) by (induction p) auto
  have "p @ r \<noteq> []" for r using assms(1) by auto
  then have "read_line_from_file (p @ q @ NL # nm @ [NL]) = Some (p, q @ NL # nm @ [NL])"
    using assms(1) take [of "q @ NL # nm @ [NL]"] by (simp add: read_line_from_file_def fgets_def)
  with read_line_fits [OF assms(3,4), of "nm @ [NL]"] show ?thesis by (simp add: retrieve_from_child_def)
qed

end
