(* ===== verification/Slot_Locks.thy ===== *)
theory Slot_Locks
  imports Link_Lookup
begin

text \<open>
  The link table under concurrency. \<^verbatim>\<open>reset_link\<close>, \<^verbatim>\<open>set_link\<close> and \<^verbatim>\<open>lookup_link\<close> of \<^verbatim>\<open>kernel/chos_lkm.c\<close> hold the lock of a
  slot only while they read or write that slot; between these sections, and around the atomic operations on a
  reference count, other processors may run. Here the three functions are cut at these points: every region under a lock and
  every access to a link is one instruction, a thread is the list of instructions it has still to execute, and the
  threads are interleaved in any order. No region takes a second lock, so a thread is never blocked for ever and a
  region is one indivisible step. A thread that runs alone does exactly what the functions of the link table do.
\<close>

section \<open>Instructions\<close>

datatype instr =
    Take nat  \<comment> \<open>\<^verbatim>\<open>reset_link\<close>: empty the slot under the write lock\<close>
  | Dec addr  \<comment> \<open>\<^verbatim>\<open>reset_link\<close>: \<^verbatim>\<open>atomic_dec\<close>\<close>
  | Test addr  \<comment> \<open>\<^verbatim>\<open>reset_link\<close>: \<^verbatim>\<open>atomic_read(&(link->count))==0\<close>\<close>
  | Destroy addr  \<comment> \<open>\<^verbatim>\<open>reset_link\<close>: \<^verbatim>\<open>destroy_link\<close>\<close>
  | Set "addr option" "tid option"  \<comment> \<open>\<^verbatim>\<open>set_link\<close>: the call with its \<^verbatim>\<open>BUG_ON\<close>s\<close>
  | Check nat  \<comment> \<open>\<^verbatim>\<open>set_link\<close>: \<^verbatim>\<open>p->link!=NULL\<close> under the read lock\<close>
  | Inc "addr option"  \<comment> \<open>\<^verbatim>\<open>set_link\<close>: \<^verbatim>\<open>atomic_inc\<close>\<close>
  | Store "addr option" nat "64 word"  \<comment> \<open>\<^verbatim>\<open>set_link\<close>: fill the slot under the write lock\<close>
  | Look "tid option"  \<comment> \<open>\<^verbatim>\<open>lookup_link\<close>: the call and its reading under the read lock\<close>
  | Cache tid  \<comment> \<open>\<^verbatim>\<open>lookup_link\<close>: what follows the call for the parent\<close>
  | Give tid  \<comment> \<open>\<^verbatim>\<open>chos_do_fork\<close>: \<^verbatim>\<open>set_link(parent_link,t)\<close> for the child, after the lookup for the parent\<close>

text \<open>
  \<^verbatim>\<open>lookup_link\<close> up to the recursive call, which is left to be executed next, and what follows it.
\<close>

definition look_instr :: "tasks \<Rightarrow> tid option \<Rightarrow> addr option \<Rightarrow> link_state \<Rightarrow> fault + instr list \<times> addr option \<times> link_state" where
  "look_instr ts t r s =
     (case t of
        None \<Rightarrow> Inr ([], None, s)
      | Some a \<Rightarrow>
         (case ts a of
            None \<Rightarrow> Inl Use_After_Free
          | Some k \<Rightarrow>
             if tpid k = 0 \<or> tpid k = 1 then Inr ([], None, s)
             else if unat (pid_max s) < tpid k then Inl BUG
             else if length (procs s) \<le> tpid k then Inl Out_Of_Bounds
             else if plink (procs s ! tpid k) = None \<or> pstart (procs s ! tpid k) \<noteq> tstart k then
               Inr ([Look (tparent k), Cache a], r, s)
             else Inr ([], plink (procs s ! tpid k), s)))"

definition cache_instr :: "tasks \<Rightarrow> tid \<Rightarrow> addr option \<Rightarrow> link_state \<Rightarrow> fault + instr list \<times> addr option \<times> link_state" where
  "cache_instr ts a r s =
     (case ts a of
        None \<Rightarrow> Inl Use_After_Free
      | Some k \<Rightarrow> Inr (if r \<noteq> None then [Set r (Some a)] else [Take (tpid k)], r, s))"

declare look_instr_def [simp] cache_instr_def [simp]

text \<open>
  One instruction: the instructions that it puts in front of the thread's rest, the value that the last \<^verbatim>\<open>lookup_link\<close> has
  returned, and the new table.
\<close>

fun exec :: "tasks \<Rightarrow> instr \<Rightarrow> addr option \<Rightarrow> link_state \<Rightarrow> fault + instr list \<times> addr option \<times> link_state" where
  "exec ts (Take i) r s =
     (if length (procs s) \<le> i then Inl Out_Of_Bounds
      else Inr (case plink (procs s ! i) of None \<Rightarrow> [] | Some l \<Rightarrow> [Dec l, Test l], r,
                s\<lparr>procs := (procs s)[i := \<lparr>plink = None, pstart = 0\<rparr>]\<rparr>))"
| "exec ts (Dec l) r s = ebind (atomic_dec l s) (\<lambda>s'. Inr ([], r, s'))"
| "exec ts (Test l) r s =
     (case links s l of
        None \<Rightarrow> Inl Use_After_Free
      | Some k \<Rightarrow> Inr (if lcount k = 0 then [Destroy l] else [], r, s))"
| "exec ts (Destroy l) r s = ebind (destroy_link (Some l) s) (\<lambda>s'. Inr ([], r, s'))"
| "exec ts (Set lk t) r s =
     (case t of
        None \<Rightarrow> Inl BUG
      | Some a \<Rightarrow>
         (case ts a of
            None \<Rightarrow> Inl Use_After_Free
          | Some k \<Rightarrow>
             if unat (pid_max s) < tpid k then Inl BUG
             else Inr ([Check (tpid k), Inc lk, Store lk (tpid k) (tstart k)], r, s)))"
| "exec ts (Check i) r s =
     (if length (procs s) \<le> i then Inl Out_Of_Bounds
      else Inr (if plink (procs s ! i) \<noteq> None then [Take i] else [], r, s))"
| "exec ts (Inc lk) r s =
     (case lk of None \<Rightarrow> Inr ([], r, s) | Some l \<Rightarrow> ebind (atomic_inc l s) (\<lambda>s'. Inr ([], r, s')))"
| "exec ts (Store lk i st) r s =
     (if length (procs s) \<le> i then Inl Out_Of_Bounds
      else Inr ([], r, s\<lparr>procs := (procs s)[i := \<lparr>plink = lk, pstart = st\<rparr>]\<rparr>))"
| "exec ts (Look t) r s = look_instr ts t r s"
| "exec ts (Cache a) r s = cache_instr ts a r s"
| "exec ts (Give a) r s = Inr ([Set r (Some a)], r, s)"

record thread =
  code :: "instr list"
  reg :: "addr option"

section \<open>Interleaving\<close>

inductive lstep :: "tasks \<Rightarrow> thread list \<times> link_state \<Rightarrow> thread list \<times> link_state \<Rightarrow> bool" where
  run: "n < length T \<Longrightarrow> code (T ! n) = i # is \<Longrightarrow> exec ts i (reg (T ! n)) s = Inr (new, r, s') \<Longrightarrow>
    lstep ts (T, s) (T[n := \<lparr>code = new @ is, reg = r\<rparr>], s')"

inductive_cases lstepE: "lstep ts (T, s) X"

text \<open>Some thread can make its next instruction fail with fault \<open>f\<close>.\<close>

definition lfault :: "tasks \<Rightarrow> fault \<Rightarrow> thread list \<times> link_state \<Rightarrow> bool" where
  "lfault ts f X \<longleftrightarrow>
     (\<exists>n i is. n < length (fst X) \<and> code (fst X ! n) = i # is \<and> exec ts i (reg (fst X ! n)) (snd X) = Inl f)"

text \<open>The run that a given schedule makes, a list of the threads that move, if every one of them can.\<close>

fun sched_step :: "tasks \<Rightarrow> nat \<Rightarrow> thread list \<times> link_state \<Rightarrow> (thread list \<times> link_state) option" where
  "sched_step ts n (T, s) =
     (if n < length T then
        (case code (T ! n) of
           [] \<Rightarrow> None
         | i # is \<Rightarrow>
            (case exec ts i (reg (T ! n)) s of
               Inl f \<Rightarrow> None
             | Inr (new, r, s') \<Rightarrow> Some (T[n := \<lparr>code = new @ is, reg = r\<rparr>], s')))
      else None)"

primrec sched :: "tasks \<Rightarrow> nat list \<Rightarrow> thread list \<times> link_state \<Rightarrow> (thread list \<times> link_state) option" where
  "sched ts [] X = Some X"
| "sched ts (n # ns) X = Option.bind (sched_step ts n X) (sched ts ns)"

lemma sched_steps: "sched ts ns X = Some Y \<Longrightarrow> (lstep ts ^^ length ns) X Y"
proof (induction ns arbitrary: X)
  case (Cons n ns)
  obtain T s where X: "X = (T, s)" by (cases X)
  obtain Z where Z: "sched_step ts n X = Some Z" "sched ts ns Z = Some Y" using Cons.prems by (auto simp: bind_eq_Some_conv)
  have "lstep ts X Z"
    using Z(1) X by (auto intro: lstep.run split: if_splits list.splits sum.splits)
  from relpowp_Suc_I2 [of "lstep ts", OF this Cons.IH [OF Z(2)]] show ?case by simp
qed simp

lemma sched_run: "sched ts ns X = Some Y \<Longrightarrow> (lstep ts)\<^sup>*\<^sup>* X Y"
  using sched_steps relpowp_imp_rtranclp by metis

section \<open>A thread alone\<close>

text \<open>
  How a single thread ends its work before the instructions \<open>is\<close>: with the returned value and the table, or before an instruction
  that fails.
\<close>

definition ends :: "tasks \<Rightarrow> instr list \<Rightarrow> thread list \<times> link_state \<Rightarrow> fault + addr option \<times> link_state \<Rightarrow> bool" where
  "ends ts is X res \<longleftrightarrow>
     (case res of
        Inr (r', s') \<Rightarrow> (lstep ts)\<^sup>*\<^sup>* X ([\<lparr>code = is, reg = r'\<rparr>], s')
      | Inl f \<Rightarrow> \<exists>Y. (lstep ts)\<^sup>*\<^sup>* X Y \<and> lfault ts f Y)"

lemma ends_back: "(lstep ts)\<^sup>*\<^sup>* X Y \<Longrightarrow> ends ts is Y res \<Longrightarrow> ends ts is X res"
  unfolding ends_def by (cases res) (auto split: prod.splits intro: rtranclp_trans simp del: split_paired_Ex)

definition does :: "tasks \<Rightarrow> instr list \<Rightarrow> addr option \<Rightarrow> link_state \<Rightarrow> fault + addr option \<times> link_state \<Rightarrow> bool" where
  "does ts c r s res \<longleftrightarrow> (\<forall>is. ends ts is ([\<lparr>code = c @ is, reg = r\<rparr>], s) res)"

lemma does_Nil [simp]: "does ts [] r s (Inr (r, s))"
  by (simp add: does_def ends_def)

lemma step_alone:
  assumes "exec ts i r s = Inr (new, r1, s1)"
  shows "lstep ts ([\<lparr>code = i # is, reg = r\<rparr>], s) ([\<lparr>code = new @ is, reg = r1\<rparr>], s1)"
  using lstep.run [of 0 "[\<lparr>code = i # is, reg = r\<rparr>]" i "is" ts s new r1 s1] assms by simp

lemma does_step:
  assumes "exec ts i r s = Inr (new, r1, s1)" and "does ts (new @ c) r1 s1 res"
  shows "does ts (i # c) r s res"
  using assms(2) step_alone [OF assms(1)] unfolding does_def append_Cons append_assoc
  by (blast intro: ends_back)

lemma does_fault:
  assumes "exec ts i r s = Inl f"
  shows "does ts (i # c) r s (Inl f)"
proof -
  have "lfault ts f ([\<lparr>code = i # c @ is, reg = r\<rparr>], s)" for "is"
    using assms by (simp add: lfault_def)
  then show ?thesis unfolding does_def ends_def by auto
qed

lemma does_append:
  assumes "does ts c r s res" and "\<And>r1 s1. res = Inr (r1, s1) \<Longrightarrow> does ts d r1 s1 (k (r1, s1))"
  shows "does ts (c @ d) r s (ebind res k)"
proof (cases res)
  case (Inl f)
  with assms(1) show ?thesis by (simp add: does_def ends_def)
next
  case (Inr x)
  obtain r1 s1 where x: "x = (r1, s1)" by (cases x)
  have "(lstep ts)\<^sup>*\<^sup>* ([\<lparr>code = c @ d @ is, reg = r\<rparr>], s) ([\<lparr>code = d @ is, reg = r1\<rparr>], s1)" for "is"
    using assms(1) Inr x by (simp add: does_def ends_def)
  with assms(2) [of r1 s1] Inr x show ?thesis unfolding does_def by (auto intro: ends_back)
qed

text \<open>An instruction without continuation that keeps the returned value.\<close>

lemma ebind_map: "ebind m (\<lambda>x. Inr (f x)) = map_sum id f m"
  by (cases m) simp_all

lemma ebind_map_sum: "ebind (map_sum id g m) f = ebind m (\<lambda>x. f (g x))"
  by (cases m) simp_all

lemma map_sum_ebind: "map_sum id g (ebind m f) = ebind m (\<lambda>x. map_sum id g (f x))"
  by (cases m) simp_all

lemma map_sum_Inr_iff: "map_sum id g m = Inr y \<longleftrightarrow> (\<exists>x. m = Inr x \<and> y = g x)"
  by (cases m) auto

lemma does_single:
  assumes "exec ts i r s = map_sum id (\<lambda>s'. ([], r, s')) m"
  shows "does ts [i] r s (map_sum id (Pair r) m)"
proof (cases m)
  case (Inl f)
  with assms show ?thesis by (simp add: does_fault)
next
  case (Inr s')
  with assms have "exec ts i r s = Inr ([], r, s')" by simp
  from does_step [OF this, of "[]"] Inr show ?thesis by simp
qed

lemma reset_link_length: "reset_link i s = Inr s' \<Longrightarrow> length (procs s') = length (procs s)"
  by (auto simp: reset_link_def atomic_add_def destroy_link_def Let_def split: if_splits option.splits)

lemma does_reset: "does ts [Take i] r s (map_sum id (Pair r) (reset_link i s))"
proof -
  consider (out) "length (procs s) \<le> i" | (empty) "i < length (procs s)" "plink (procs s ! i) = None"
    | (held) l where "i < length (procs s)" "plink (procs s ! i) = Some l"
    by (cases "plink (procs s ! i)") force+
  then show ?thesis
  proof cases
    case out
    then show ?thesis by (auto simp: reset_link_def intro: does_fault)
  next
    case empty
    then have "reset_link i s = Inr (s\<lparr>procs := (procs s)[i := \<lparr>plink = None, pstart = 0\<rparr>]\<rparr>)"
      by (simp add: reset_link_def Let_def)
    then show ?thesis by (intro does_step [where new = "[]" and ?r1.0 = r]) (use empty in auto)
  next
    case l: (held l)
    let ?s1 = "s\<lparr>procs := (procs s)[i := \<lparr>plink = None, pstart = 0\<rparr>]\<rparr>"
    have test: "does ts [Test l] r s2 (map_sum id (Pair r)
        (case links s2 l of None \<Rightarrow> Inl Use_After_Free
         | Some k \<Rightarrow> if lcount k = 0 then destroy_link (Some l) s2 else Inr s2))" for s2
    proof (cases "links s2 l")
      case None
      then show ?thesis by (simp add: does_fault)
    next
      case (Some k)
      then have "exec ts (Test l) r s2 = Inr (if lcount k = 0 then [Destroy l] else [], r, s2)" by simp
      from does_step [OF this, of "[]"] Some show ?thesis
        using does_single [of ts "Destroy l" r s2 "destroy_link (Some l) s2"] by (simp add: ebind_map)
    qed
    have "does ts ([Dec l] @ [Test l]) r ?s1 (ebind (map_sum id (Pair r) (atomic_dec l ?s1)) (\<lambda>(_, s2). map_sum id (Pair r)
        (case links s2 l of None \<Rightarrow> Inl Use_After_Free
         | Some k \<Rightarrow> if lcount k = 0 then destroy_link (Some l) s2 else Inr s2)))"
      by (rule does_append [OF does_single]) (use test in \<open>auto simp: ebind_map map_sum_Inr_iff\<close>)
    also have "ebind (map_sum id (Pair r) (atomic_dec l ?s1)) (\<lambda>(_, s2). map_sum id (Pair r)
        (case links s2 l of None \<Rightarrow> Inl Use_After_Free
         | Some k \<Rightarrow> if lcount k = 0 then destroy_link (Some l) s2 else Inr s2)) = map_sum id (Pair r) (reset_link i s)"
      using l by (simp add: reset_link_def Let_def map_sum_ebind ebind_map_sum)
    finally have tail: "does ts ([Dec l, Test l] @ []) r ?s1 (map_sum id (Pair r) (reset_link i s))" by simp
    show ?thesis by (rule does_step [OF _ tail]) (use l in simp)
  qed
qed

lemma does_store:
  assumes "i < length (procs s)"
  shows "does ts ([Inc lk] @ [Store lk i st]) r s
    (ebind (map_sum id (Pair r) (case lk of None \<Rightarrow> Inr s | Some l \<Rightarrow> atomic_inc l s)) (\<lambda>(r2, s2).
     Inr (r, s2\<lparr>procs := (procs s2)[i := \<lparr>plink = lk, pstart = st\<rparr>]\<rparr>)))"
proof (rule does_append)
  show "does ts [Inc lk] r s (map_sum id (Pair r) (case lk of None \<Rightarrow> Inr s | Some l \<Rightarrow> atomic_inc l s))"
    by (rule does_single) (simp add: ebind_map split: option.split)
  fix r2 s2 assume "map_sum id (Pair r) (case lk of None \<Rightarrow> Inr s | Some l \<Rightarrow> atomic_inc l s) = Inr (r2, s2)"
  then have "r2 = r" "length (procs s2) = length (procs s)"
    by (cases lk; auto simp: map_sum_Inr_iff atomic_add_def split: option.splits)+
  with assms does_single [of ts "Store lk i st" r s2 "Inr (s2\<lparr>procs := (procs s2)[i := \<lparr>plink = lk, pstart = st\<rparr>]\<rparr>)"]
  show "does ts [Store lk i st] r2 s2 (case (r2, s2) of (r2, s2) \<Rightarrow> Inr (r, s2\<lparr>procs := (procs s2)[i := \<lparr>plink = lk, pstart = st\<rparr>]\<rparr>))"
    by simp
qed

lemma does_set: "does ts [Set lk t] r s (map_sum id (Pair r) (set_link ts lk t s))"
proof -
  consider (bug) f where "exec ts (Set lk t) r s = Inl f" "set_link ts lk t s = Inl f"
    | (ok) a k where "t = Some a" "ts a = Some k" "tpid k \<le> unat (pid_max s)"
    by (cases t; cases "ts (the t)"; cases "unat (pid_max s) < tpid (the (ts (the t)))")
      (auto simp: set_link_def not_less)
  then show ?thesis
  proof cases
    case bug
    then show ?thesis by (auto intro: does_fault)
  next
    case ok
    let ?i = "tpid k"
    show ?thesis
    proof (cases "length (procs s) \<le> ?i")
      case True
      have "does ts ([Check ?i, Inc lk, Store lk ?i (tstart k)] @ []) r s (Inl Out_Of_Bounds)"
        by (simp, rule does_fault) (use True in simp)
      from does_step [OF _ this] ok True show ?thesis by (simp add: set_link_def)
    next
      case False
      let ?first = "if plink (procs s ! ?i) \<noteq> None then reset_link ?i s else Inr s"
      let ?rest = "\<lambda>s1. ebind (map_sum id (Pair r) (case lk of None \<Rightarrow> Inr s1 | Some l \<Rightarrow> atomic_inc l s1)) (\<lambda>(r2, s2).
          Inr (r, s2\<lparr>procs := (procs s2)[?i := \<lparr>plink = lk, pstart = tstart k\<rparr>]\<rparr>))"
      have check: "does ts [Check ?i] r s (map_sum id (Pair r) ?first)"
        by (rule does_step, use False in simp) (use does_reset [of ts ?i r s] in simp)
      have "does ts ([Check ?i] @ [Inc lk] @ [Store lk ?i (tstart k)]) r s (ebind (map_sum id (Pair r) ?first) (\<lambda>(r1, s1). ?rest s1))"
      proof (rule does_append [OF check])
        fix r1 s1 assume "map_sum id (Pair r) ?first = Inr (r1, s1)"
        then have s1: "?first = Inr s1" "r1 = r" by (cases ?first; simp)+
        then have "?i < length (procs s1)" using False by (auto simp: reset_link_length split: if_splits)
        with does_store [of ?i s1 ts lk "tstart k" r] s1(2)
        show "does ts ([Inc lk] @ [Store lk ?i (tstart k)]) r1 s1 (case (r1, s1) of (r1, s1) \<Rightarrow> ?rest s1)" by simp
      qed
      then have all: "does ts ([Check ?i, Inc lk, Store lk ?i (tstart k)] @ []) r s (map_sum id (Pair r) (set_link ts lk t s))"
        using ok False by (simp add: set_link_def map_sum_ebind ebind_map_sum)
      show ?thesis by (rule does_step [OF _ all]) (use ok in simp)
    qed
  qed
qed

lemma does_look: "lookup_link ts t s = Some res \<Longrightarrow> does ts [Look t] r s res"
proof (induction arbitrary: r rule: lookup_link.raw_induct [rotated 1, consumes 1, case_names walk])
  case (walk walk ts t s res)
  show ?case
  proof (cases "\<exists>a k. t = Some a \<and> ts a = Some k \<and> 1 < tpid k \<and> tpid k \<le> unat (pid_max s) \<and> tpid k < length (procs s) \<and>
      (plink (procs s ! tpid k) = None \<or> pstart (procs s ! tpid k) \<noteq> tstart k)")
    case True
    then obtain a k where k: "t = Some a" "ts a = Some k" "1 < tpid k" "tpid k \<le> unat (pid_max s)" "tpid k < length (procs s)"
        "plink (procs s ! tpid k) = None \<or> pstart (procs s ! tpid k) \<noteq> tstart k" by blast
    have look: "exec ts (Look t) r s = Inr ([Look (tparent k), Cache a], r, s)" using k by auto
    obtain res1 where res1: "walk ts (tparent k) s = Some res1"
        "res = ebind res1 (\<lambda>(lk, s1).
           if lk \<noteq> None then ebind (set_link ts lk t s1) (\<lambda>s2. Inr (lk, s2))
           else ebind (reset_link (tpid k) s1) (\<lambda>s2. Inr (lk, s2)))"
      using walk(2) k by (auto simp: bind_eq_Some_conv)
    have cache: "does ts [Cache a] lk s1 (if lk \<noteq> None then ebind (set_link ts lk t s1) (\<lambda>s2. Inr (lk, s2))
           else ebind (reset_link (tpid k) s1) (\<lambda>s2. Inr (lk, s2)))" for lk s1
      by (rule does_step, use k in simp)
        (use does_set [of ts lk t lk s1] does_reset [of ts "tpid k" lk s1] k in \<open>auto simp: ebind_map\<close>)
    have "does ts ([Look (tparent k)] @ [Cache a]) r s res"
      unfolding res1(2) by (rule does_append [OF walk(1) [OF res1(1)]]) (use cache in simp)
    with does_step [OF look, of "[]"] show ?thesis by simp
  next
    case False
    then have "exec ts (Look t) r s = map_sum id (Pair []) res"
      using walk(2) by (auto split: option.splits if_splits simp: not_less not_le)
    with does_step [of ts "Look t" r s "[]" _ _ "[]"] show ?thesis
      by (cases res) (auto simp: does_fault)
  qed
qed

lemma does_give:
  assumes "lookup_link ts t s = Some res"
  shows "does ts [Look t, Give c] r s (ebind res (\<lambda>(lk, s1). map_sum id (Pair lk) (set_link ts lk (Some c) s1)))"
proof -
  have "does ts [Give c] lk s1 (map_sum id (Pair lk) (set_link ts lk (Some c) s1))" for lk s1
    using does_set [of ts lk "Some c" lk s1] by (intro does_step [where new = "[Set lk (Some c)]" and ?r1.0 = lk and ?s1.0 = s1]) simp_all
  with does_append [OF does_look [OF assms, of r], of "[Give c]"] show ?thesis by simp
qed

section \<open>Properties\<close>

text \<open>
  C16. The functions of the link table are the threads that run alone: a thread that calls \<^verbatim>\<open>lookup_link\<close>, \<^verbatim>\<open>set_link\<close> or
  \<^verbatim>\<open>reset_link\<close>, or that makes the two calls of \<^verbatim>\<open>chos_do_fork\<close>, with nothing else running returns the same value and leaves the same table, or comes to an
  instruction that fails with the same fault when the function does.
\<close>

theorem atomic_calls_refine:
  "(\<forall>res. lookup_link ts t s = Some res \<longrightarrow> ends ts [] ([\<lparr>code = [Look t], reg = r\<rparr>], s) res) \<and>
   (\<forall>res c. lookup_link ts t s = Some res \<longrightarrow> ends ts [] ([\<lparr>code = [Look t, Give c], reg = r\<rparr>], s)
      (ebind res (\<lambda>(lk, s1). map_sum id (Pair lk) (set_link ts lk (Some c) s1)))) \<and>
   ends ts [] ([\<lparr>code = [Set lk t], reg = r\<rparr>], s) (map_sum id (Pair r) (set_link ts lk t s)) \<and>
   ends ts [] ([\<lparr>code = [Take i], reg = r\<rparr>], s) (map_sum id (Pair r) (reset_link i s))"
proof -
  have alone: "ends ts [] ([\<lparr>code = c, reg = r\<rparr>], s) res" if "does ts c r s res" for c res
    using that [unfolded does_def, rule_format, of "[]"] by simp
  show ?thesis using alone [OF does_look] alone [OF does_give] alone [OF does_set] alone [OF does_reset] by blast
qed

theorem atomic_calls_refine_witness:
  "\<exists>lk s'. lookup_link demo_tasks (Some 6) demo_table = Some (Inr (lk, s')) \<and>
     (lstep demo_tasks)\<^sup>*\<^sup>* ([\<lparr>code = [Look (Some 6)], reg = None\<rparr>], demo_table) ([\<lparr>code = [], reg = lk\<rparr>], s')"
proof -
  have "task_tree (length (procs demo_table)) demo_tasks" by (simp add: demo_length demo_tree)
  then obtain lk s' where s': "lookup_link demo_tasks (Some 6) demo_table = Some (Inr (lk, s'))"
    using lookup_link_ok [of demo_table demo_tasks "Some 6"] demo_inv demo_at(2) by (metis option.distinct(1) option.inject)
  then have "ends demo_tasks [] ([\<lparr>code = [Look (Some 6)], reg = None\<rparr>], demo_table) (Inr (lk, s'))"
    using atomic_calls_refine by blast
  with s' show ?thesis by (auto simp: ends_def)
qed

end
