(* ===== verification/Slot_Races.thy ===== *)
theory Slot_Races
  imports Slot_Locks
begin

text \<open>
  What holds and what fails when calls of \<^verbatim>\<open>reset_link\<close>, \<^verbatim>\<open>set_link\<close> and \<^verbatim>\<open>lookup_link\<close> overlap. An invariant over the table and the
  instructions that all threads have still to execute counts the references in flight; it gives what the locks achieve, and
  that every call ends. Three schedules show what they do not prevent: a double free, an access to a freed link, and a link
  that is never freed.
\<close>

section \<open>What the threads hold\<close>

text \<open>
  How much the instructions that a thread has still to execute change the difference between the reference count of \<open>l\<close> and the number
  of slots that hold \<open>l\<close>; the references in flight.
\<close>

fun weight :: "addr \<Rightarrow> instr \<Rightarrow> int" where
  "weight l (Dec m) = (if m = l then 1 else 0)"
| "weight l (Inc lk) = (if lk = Some l then - 1 else 0)"
| "weight l (Store lk i st) = (if lk = Some l then 1 else 0)"
| "weight l _ = 0"

abbreviation weights :: "addr \<Rightarrow> instr list \<Rightarrow> int" where
  "weights l c \<equiv> sum_list (map (weight l) c)"

definition in_flight :: "addr \<Rightarrow> thread list \<Rightarrow> int" where
  "in_flight l T = sum_list (map (\<lambda>t. weights l (code t)) T)"

text \<open>The links that a thread will give back or store, those it drops, and those it has not counted yet.\<close>

definition holds :: "instr list \<Rightarrow> addr set" where
  "holds c = {l. Dec l \<in> set c \<or> (\<exists>i st. Store (Some l) i st \<in> set c)}"

definition drops :: "instr list \<Rightarrow> addr set" where
  "drops c = {l. Dec l \<in> set c \<or> Test l \<in> set c \<or> Destroy l \<in> set c}"

definition brings :: "instr list \<Rightarrow> addr set" where
  "brings c = {l. Inc (Some l) \<in> set c \<or> (\<exists>t. Set (Some l) t \<in> set c)}"

text \<open>The code of a call of \<^verbatim>\<open>reset_link\<close> or \<^verbatim>\<open>set_link\<close> at any of its points, on a table of \<open>n\<close> slots.\<close>

definition rest :: "nat \<Rightarrow> instr list \<Rightarrow> bool" where
  "rest n d \<longleftrightarrow> d = [] \<or> (\<exists>lk i st. i < n \<and> d = [Inc lk, Store lk i st])"

fun prog :: "tasks \<Rightarrow> nat \<Rightarrow> instr list \<Rightarrow> bool" where
  "prog ts n [] = True"
| "prog ts n (Take i # d) = (i < n \<and> rest n d)"
| "prog ts n (Dec l # d) = (\<exists>e. d = Test l # e \<and> rest n e)"
| "prog ts n (Test l # d) = rest n d"
| "prog ts n (Destroy l # d) = rest n d"
| "prog ts n (Set lk t # d) = (d = [] \<and> (\<exists>a k. t = Some a \<and> ts a = Some k \<and> tpid k < n))"
| "prog ts n (Check i # d) = (i < n \<and> rest n d)"
| "prog ts n (Inc lk # d) = rest n (Inc lk # d)"
| "prog ts n (Store lk i st # d) = (i < n \<and> d = [])"
| "prog ts n (Look t # d) = False"
| "prog ts n (Cache a # d) = False"
| "prog ts n (Give a # d) = False"

lemma rest_Nil [simp]: "rest n []"
  by (simp add: rest_def)

lemma rest_prog: "rest n d \<Longrightarrow> prog ts n d"
  by (auto simp: rest_def)

lemma prog_weights: "prog ts n c \<Longrightarrow> 0 \<le> weights l c"
  by (induction ts n c rule: prog.induct) (auto simp: rest_def)

lemma prog_held: "prog ts n c \<Longrightarrow> l \<in> holds c \<Longrightarrow> l \<in> brings c \<or> 1 \<le> weights l c"
  by (induction ts n c rule: prog.induct) (auto simp: rest_def holds_def brings_def)

lemma in_flight_update:
  assumes "n < length T"
  shows "in_flight l (T[n := t]) = in_flight l T - weights l (code (T ! n)) + weights l (code t)"
  using assms by (simp add: in_flight_def map_update sum_list_slot)

lemma in_flight_ge:
  assumes "n < length T" and "\<forall>t \<in> set T. prog ts m (code t)"
  shows "weights l (code (T ! n)) \<le> in_flight l T"
proof -
  have "\<forall>x \<in> set (map (\<lambda>t. weights l (code t)) T). 0 \<le> x" using assms(2) prog_weights by auto
  with member_le_sum_list [of "weights l (code (T ! n))" "map (\<lambda>t. weights l (code t)) T"] assms(1)
  show ?thesis by (auto simp: in_flight_def)
qed

section \<open>The invariant of the threads\<close>

text \<open>
  Every link in a slot or in a thread's hands is live; the reference count of a live link is at least the number of its
  references, those in flight included; and a link that a \<^verbatim>\<open>set_link\<close> brings is known to that call only and has not been counted.
\<close>

definition lock_inv :: "tasks \<Rightarrow> thread list \<Rightarrow> link_state \<Rightarrow> bool" where
  "lock_inv ts T s \<longleftrightarrow>
     length (procs s) = unat (pid_max s) \<and>
     (\<forall>t \<in> set T. prog ts (length (procs s)) (code t) \<and> (\<forall>l \<in> holds (code t). links s l \<noteq> None)) \<and>
     (\<forall>i < length (procs s). \<forall>l. plink (procs s ! i) = Some l \<longrightarrow> links s l \<noteq> None) \<and>
     (\<forall>l k. links s l = Some k \<longrightarrow> bufs s (ltext k) \<noteq> None \<and> int (refs s l) + in_flight l T \<le> int (unat (lcount k))) \<and>
     (\<forall>l k l' k'. links s l = Some k \<longrightarrow> links s l' = Some k' \<longrightarrow> ltext k = ltext k' \<longrightarrow> l = l') \<and>
     (\<forall>n < length T. \<forall>l \<in> brings (code (T ! n)).
        (\<exists>k. links s l = Some k \<and> lcount k = 0) \<and> refs s l = 0 \<and> l \<notin> drops (code (T ! n)) \<and>
        (\<forall>m < length T. m \<noteq> n \<longrightarrow> l \<notin> holds (code (T ! m)) \<union> drops (code (T ! m)) \<union> brings (code (T ! m))))"

lemma lock_invD:
  assumes "lock_inv ts T s"
  shows "length (procs s) = unat (pid_max s)"
    and "n < length T \<Longrightarrow> prog ts (length (procs s)) (code (T ! n))"
    and "n < length T \<Longrightarrow> l \<in> holds (code (T ! n)) \<Longrightarrow> links s l \<noteq> None"
    and "i < length (procs s) \<Longrightarrow> plink (procs s ! i) = Some l \<Longrightarrow> links s l \<noteq> None"
    and "links s l = Some k \<Longrightarrow> bufs s (ltext k) \<noteq> None"
    and "links s l = Some k \<Longrightarrow> int (refs s l) + in_flight l T \<le> int (unat (lcount k))"
    and "links s l = Some k \<Longrightarrow> links s l' = Some k' \<Longrightarrow> ltext k = ltext k' \<Longrightarrow> l = l'"
    and "n < length T \<Longrightarrow> l \<in> brings (code (T ! n)) \<Longrightarrow> (\<exists>k. links s l = Some k \<and> lcount k = 0) \<and> refs s l = 0"
    and "n < length T \<Longrightarrow> l \<in> brings (code (T ! n)) \<Longrightarrow> l \<notin> drops (code (T ! n))"
    and "n < length T \<Longrightarrow> l \<in> brings (code (T ! n)) \<Longrightarrow> m < length T \<Longrightarrow> m \<noteq> n \<Longrightarrow>
      l \<notin> holds (code (T ! m)) \<union> drops (code (T ! m)) \<union> brings (code (T ! m))"
    and "\<forall>t \<in> set T. prog ts (length (procs s)) (code t)"
proof -
  show "length (procs s) = unat (pid_max s)" using assms unfolding lock_inv_def by (elim conjE)
  have th: "\<forall>t \<in> set T. prog ts (length (procs s)) (code t) \<and> (\<forall>l \<in> holds (code t). links s l \<noteq> None)"
    using assms unfolding lock_inv_def by (elim conjE)
  then show "\<forall>t \<in> set T. prog ts (length (procs s)) (code t)" by blast
  show "prog ts (length (procs s)) (code (T ! n))" if "n < length T" using th nth_mem [OF that] by blast
  show "links s l \<noteq> None" if "n < length T" "l \<in> holds (code (T ! n))" using th nth_mem [OF that(1)] that(2) by blast
  have sl: "\<forall>i < length (procs s). \<forall>l. plink (procs s ! i) = Some l \<longrightarrow> links s l \<noteq> None"
    using assms unfolding lock_inv_def by (elim conjE)
  then show "links s l \<noteq> None" if "i < length (procs s)" "plink (procs s ! i) = Some l" using that by blast
  have ct: "\<forall>l k. links s l = Some k \<longrightarrow> bufs s (ltext k) \<noteq> None \<and> int (refs s l) + in_flight l T \<le> int (unat (lcount k))"
    using assms unfolding lock_inv_def by (elim conjE)
  then show "bufs s (ltext k) \<noteq> None" "int (refs s l) + in_flight l T \<le> int (unat (lcount k))" if "links s l = Some k"
    using that by blast+
  have ij: "\<forall>l k l' k'. links s l = Some k \<longrightarrow> links s l' = Some k' \<longrightarrow> ltext k = ltext k' \<longrightarrow> l = l'"
    using assms unfolding lock_inv_def by (elim conjE)
  then show "l = l'" if "links s l = Some k" "links s l' = Some k'" "ltext k = ltext k'" using that by blast
  have br: "\<forall>n < length T. \<forall>l \<in> brings (code (T ! n)).
      (\<exists>k. links s l = Some k \<and> lcount k = 0) \<and> refs s l = 0 \<and> l \<notin> drops (code (T ! n)) \<and>
      (\<forall>m < length T. m \<noteq> n \<longrightarrow> l \<notin> holds (code (T ! m)) \<union> drops (code (T ! m)) \<union> brings (code (T ! m)))"
    using assms unfolding lock_inv_def by (elim conjE)
  then show "(\<exists>k. links s l = Some k \<and> lcount k = 0) \<and> refs s l = 0" "l \<notin> drops (code (T ! n))"
    if "n < length T" "l \<in> brings (code (T ! n))" using that by blast+
  show "l \<notin> holds (code (T ! m)) \<union> drops (code (T ! m)) \<union> brings (code (T ! m))"
    if "n < length T" "l \<in> brings (code (T ! n))" "m < length T" "m \<noteq> n" using br that by blast
qed

text \<open>
  The invariant after one thread has moved on: what has to be shown of the new code and the new table.
\<close>

lemma lock_inv_move:
  assumes inv: "lock_inv ts T s" and n: "n < length T" "code (T ! n) = c" and t: "code t = c'"
    and size: "length (procs s') = length (procs s)" "pid_max s' = pid_max s"
    and prog: "prog ts (length (procs s)) c'"
    and slots: "\<And>i l. i < length (procs s) \<Longrightarrow> plink (procs s' ! i) = Some l \<Longrightarrow> links s' l \<noteq> None"
    and held: "\<And>l. l \<in> holds c' \<Longrightarrow> links s' l \<noteq> None"
      "\<And>m l. m < length T \<Longrightarrow> m \<noteq> n \<Longrightarrow> l \<in> holds (code (T ! m)) \<Longrightarrow> links s' l \<noteq> None"
    and count: "\<And>l k'. links s' l = Some k' \<Longrightarrow> \<exists>k. links s l = Some k \<and> ltext k' = ltext k \<and> bufs s' (ltext k) = bufs s (ltext k) \<and>
      int (refs s' l) + weights l c' - int (unat (lcount k')) \<le> int (refs s l) + weights l c - int (unat (lcount k))"
    and brings: "brings c' \<subseteq> brings c" "drops c' \<inter> brings c \<subseteq> {}"
    and known: "\<And>l. l \<in> holds c' \<union> drops c' \<Longrightarrow> l \<in> holds c \<union> drops c \<union> brings c \<or> 0 < refs s l"
    and kept: "\<And>m l. m < length T \<Longrightarrow> l \<in> brings (if m = n then c' else code (T ! m)) \<Longrightarrow> links s' l = links s l \<and> refs s' l = 0"
  shows "lock_inv ts (T[n := t]) s'"
proof -
  have cnt: "int (refs s' l) + in_flight l (T[n := t]) \<le> int (unat (lcount k'))" if "links s' l = Some k'" for l k'
    using count [OF that] lock_invD(6) [OF inv, of l] in_flight_update [OF n(1), of l t] n(2) t by fastforce
  have tx: "bufs s' (ltext k') \<noteq> None" if "links s' l = Some k'" for l k'
    using count [OF that] lock_invD(5) [OF inv, of l] by force
  have inj: "l = l'" if "links s' l = Some k" "links s' l' = Some k'" "ltext k = ltext k'" for l k l' k'
    using count [OF that(1)] count [OF that(2)] that(3) lock_invD(7) [OF inv, of l _ l'] by metis
  have threads: "prog ts (length (procs s)) (code (T[n := t] ! m)) \<and> (\<forall>l \<in> holds (code (T[n := t] ! m)). links s' l \<noteq> None)"
    if "m < length T" for m
    using that n t prog held lock_invD(2) [OF inv that] by (cases "m = n") auto
  have priv: "(\<exists>k. links s' l = Some k \<and> lcount k = 0) \<and> refs s' l = 0 \<and> l \<notin> drops (code (T[n := t] ! m)) \<and>
      (\<forall>j < length T. j \<noteq> m \<longrightarrow> l \<notin> holds (code (T[n := t] ! j)) \<union> drops (code (T[n := t] ! j)) \<union> brings (code (T[n := t] ! j)))"
    if m: "m < length T" and l: "l \<in> brings (code (T[n := t] ! m))" for m l
  proof -
    have old: "l \<in> brings (code (T ! m))" using l n t brings(1) m by (cases "m = n") auto
    have *: "links s' l = links s l" "refs s' l = 0" using kept [OF m, of l] l n t m by (cases "m = n"; simp)+
    have "l \<notin> holds (code (T[n := t] ! j)) \<union> drops (code (T[n := t] ! j)) \<union> brings (code (T[n := t] ! j))"
      if "j < length T" "j \<noteq> m" for j
      using lock_invD(10) [OF inv m old that] lock_invD(8) [OF inv m old] known [of l] brings(1) n t that
      by (cases "j = n") auto
    moreover have "l \<notin> drops (code (T[n := t] ! m))"
      using lock_invD(9) [OF inv m old] old brings(2) n t m by (cases "m = n") auto
    ultimately show ?thesis using lock_invD(8) [OF inv m old] * by simp
  qed
  show ?thesis
    unfolding lock_inv_def size length_list_update all_set_conv_all_nth
    using lock_invD(1) [OF inv] threads slots tx cnt inj priv by auto
qed

section \<open>One instruction keeps the invariant\<close>

lemma code_sets [simp]:
  "holds [] = {}" "drops [] = {}" "brings [] = {}"
  "holds (Take i # c) = holds c" "drops (Take i # c) = drops c" "brings (Take i # c) = brings c"
  "holds (Dec l # c) = insert l (holds c)" "drops (Dec l # c) = insert l (drops c)" "brings (Dec l # c) = brings c"
  "holds (Test l # c) = holds c" "drops (Test l # c) = insert l (drops c)" "brings (Test l # c) = brings c"
  "holds (Destroy l # c) = holds c" "drops (Destroy l # c) = insert l (drops c)" "brings (Destroy l # c) = brings c"
  "holds (Set lk t # c) = holds c" "drops (Set lk t # c) = drops c" "brings (Set lk t # c) = set_option lk \<union> brings c"
  "holds (Check i # c) = holds c" "drops (Check i # c) = drops c" "brings (Check i # c) = brings c"
  "holds (Inc lk # c) = holds c" "drops (Inc lk # c) = drops c" "brings (Inc lk # c) = set_option lk \<union> brings c"
  "holds (Store lk i st # c) = set_option lk \<union> holds c" "drops (Store lk i st # c) = drops c"
  "brings (Store lk i st # c) = brings c"
  by (auto simp: holds_def drops_def brings_def elem_set)

lemma move_code:
  assumes inv: "lock_inv ts T s" and n: "n < length T" "code (T ! n) = c" and prog: "prog ts (length (procs s)) c'"
    and sub: "holds c' \<subseteq> holds c \<union> brings c" "drops c' \<subseteq> drops c" "brings c' \<subseteq> brings c"
    and le: "\<And>l. weights l c' \<le> weights l c"
  shows "lock_inv ts (T[n := \<lparr>code = c', reg = r\<rparr>]) s"
proof (rule lock_inv_move [OF inv n, where c' = c'])
  show "links s l \<noteq> None" if "l \<in> holds c'" for l
    using that sub(1) lock_invD(3,8) [OF inv n(1), of l] n(2) by auto
  show "drops c' \<inter> brings c \<subseteq> {}" using sub(2) lock_invD(9) [OF inv n(1)] n(2) by auto
  show "links s l = links s l \<and> refs s l = 0" if "m < length T" "l \<in> brings (if m = n then c' else code (T ! m))" for m l
    using that sub(3) n(2) lock_invD(8) [OF inv that(1), of l] by (auto split: if_splits)
  show "\<exists>k. links s l = Some k \<and> ltext k' = ltext k \<and> bufs s (ltext k) = bufs s (ltext k) \<and>
      int (refs s l) + weights l c' - int (unat (lcount k')) \<le> int (refs s l) + weights l c - int (unat (lcount k))"
    if "links s l = Some k'" for l k'
    using that le [of l] by simp
qed (use prog sub lock_invD(3,4) [OF inv] in auto)

lemma in_flight_pos:
  assumes "lock_inv ts T s" and "n < length T" "code (T ! n) = Dec l # c"
  shows "1 \<le> in_flight l T"
proof -
  have "prog ts (length (procs s)) (Dec l # c)" using lock_invD(2) [OF assms(1,2)] assms(3) by simp
  then have "1 \<le> weights l (Dec l # c)" by (auto simp: rest_def)
  with in_flight_ge [OF assms(2) lock_invD(11) [OF assms(1)], of l] assms(3) show ?thesis by simp
qed

lemma take_step:
  assumes inv: "lock_inv ts T s" and n: "n < length T" "code (T ! n) = Take i # c"
  shows "lock_inv ts (T[n := \<lparr>code = (case plink (procs s ! i) of None \<Rightarrow> [] | Some l \<Rightarrow> [Dec l, Test l]) @ c, reg = r\<rparr>])
    (s\<lparr>procs := (procs s)[i := \<lparr>plink = None, pstart = 0\<rparr>]\<rparr>)"
proof -
  let ?s = "s\<lparr>procs := (procs s)[i := \<lparr>plink = None, pstart = 0\<rparr>]\<rparr>"
  let ?new = "case plink (procs s ! i) of None \<Rightarrow> [] | Some l \<Rightarrow> [Dec l, Test l]"
  have p: "i < length (procs s)" "rest (length (procs s)) c" using lock_invD(2) [OF inv n(1)] n(2) by auto
  have refs: "int (refs ?s l) = int (refs s l) - (if plink (procs s ! i) = Some l then 1 else 0)" for l
    using refs_update [OF p(1), of "\<lparr>plink = None, pstart = 0\<rparr>" l] by auto
  have held: "0 < refs s l" if "plink (procs s ! i) = Some l" for l using that p(1) refs_pos_iff by blast
  have wt: "weights l (?new @ c) = weights l (Take i # c) + (if plink (procs s ! i) = Some l then 1 else 0)" for l
    by (auto split: option.split)
  have sets: "holds (?new @ c) = holds c \<union> set_option (plink (procs s ! i))"
      "drops (?new @ c) = drops c \<union> set_option (plink (procs s ! i))" "brings (?new @ c) = brings c"
    by (auto split: option.split)
  note fresh = lock_invD(8,9) [OF inv n(1)]
  show ?thesis
  proof (rule lock_inv_move [OF inv n, where c' = "?new @ c"])
    show "prog ts (length (procs s)) (?new @ c)" using p(2) rest_prog by (auto split: option.split)
    show "links ?s l \<noteq> None" if "j < length (procs s)" "plink (procs ?s ! j) = Some l" for j l
      using that lock_invD(4) [OF inv, of j l] by (cases "j = i") auto
    show "links ?s l \<noteq> None" if "l \<in> holds (?new @ c)" for l
      using that lock_invD(3) [OF inv n(1), of l] lock_invD(4) [OF inv p(1), of l] n(2) by (auto simp: sets elem_set)
    show "drops (?new @ c) \<inter> brings (Take i # c) \<subseteq> {}"
      using fresh n(2) held by (fastforce simp: sets elem_set)
    show "l \<in> holds (Take i # c) \<union> drops (Take i # c) \<union> brings (Take i # c) \<or> 0 < refs s l"
      if "l \<in> holds (?new @ c) \<union> drops (?new @ c)" for l
      using that held by (auto simp: sets elem_set)
    show "links ?s l = links s l \<and> refs ?s l = 0" if "m < length T" "l \<in> brings (if m = n then ?new @ c else code (T ! m))" for m l
      using that n(2) lock_invD(8) [OF inv that(1), of l] refs [of l] by (auto simp: sets split: if_splits)
    show "\<exists>k. links s l = Some k \<and> ltext k' = ltext k \<and> bufs ?s (ltext k) = bufs s (ltext k) \<and>
        int (refs ?s l) + weights l (?new @ c) - int (unat (lcount k')) \<le>
        int (refs s l) + weights l (Take i # c) - int (unat (lcount k))"
      if "links ?s l = Some k'" for l k'
      using that unfolding refs wt by simp
  qed (use lock_invD(3) [OF inv] in \<open>simp_all add: sets\<close>)
qed

lemma dec_step:
  assumes inv: "lock_inv ts T s" and n: "n < length T" "code (T ! n) = Dec l # c"
  shows "\<exists>k. links s l = Some k \<and>
    lock_inv ts (T[n := \<lparr>code = c, reg = r\<rparr>]) (s\<lparr>links := (links s)(l \<mapsto> k\<lparr>lcount := lcount k - 1\<rparr>)\<rparr>)"
proof -
  obtain k where k: "links s l = Some k" using lock_invD(3) [OF inv n(1), of l] n(2) by auto
  let ?s = "s\<lparr>links := (links s)(l \<mapsto> k\<lparr>lcount := lcount k - 1\<rparr>)\<rparr>"
  have pos: "1 \<le> unat (lcount k)"
    using lock_invD(6) [OF inv k] in_flight_pos [OF inv n] by linarith
  then have "unat (lcount k - 1) = unat (lcount k) - 1" by (intro unat_minus_one) auto
  then have cnt: "int (unat (lcount k - 1)) = int (unat (lcount k)) - 1" using pos by simp
  have p: "prog ts (length (procs s)) c" using lock_invD(2) [OF inv n(1)] n(2) rest_prog by auto
  have other: "l' \<noteq> l" if "m < length T" "l' \<in> brings (if m = n then c else code (T ! m))" for m l'
    using that lock_invD(9) [OF inv n(1), of l'] lock_invD(10) [OF inv that(1) _ n(1), of l'] n(2) by (auto split: if_splits)
  have "lock_inv ts (T[n := \<lparr>code = c, reg = r\<rparr>]) ?s"
  proof (rule lock_inv_move [OF inv n, where c' = c])
    show "drops c \<inter> brings (Dec l # c) \<subseteq> {}" using lock_invD(9) [OF inv n(1)] n(2) by auto
    show "links ?s l' = links s l' \<and> refs ?s l' = 0" if "m < length T" "l' \<in> brings (if m = n then c else code (T ! m))" for m l'
      using other [OF that] that n(2) lock_invD(8) [OF inv that(1), of l'] by (auto split: if_splits)
    show "\<exists>k0. links s l' = Some k0 \<and> ltext k' = ltext k0 \<and> bufs ?s (ltext k0) = bufs s (ltext k0) \<and>
        int (refs ?s l') + weights l' c - int (unat (lcount k')) \<le>
        int (refs s l') + weights l' (Dec l # c) - int (unat (lcount k0))"
      if "links ?s l' = Some k'" for l' k'
      using that k cnt by (cases "l' = l") auto
  qed (use p lock_invD(3,4) [OF inv] lock_invD(3) [OF inv n(1)] n(2) k in auto)
  with k show ?thesis by blast
qed

lemma inc_step:
  assumes inv: "lock_inv ts T s" and n: "n < length T" "code (T ! n) = Inc (Some l) # c"
  shows "\<exists>k. links s l = Some k \<and>
    lock_inv ts (T[n := \<lparr>code = c, reg = r\<rparr>]) (s\<lparr>links := (links s)(l \<mapsto> k\<lparr>lcount := lcount k + 1\<rparr>)\<rparr>)"
proof -
  obtain k where k: "links s l = Some k" "lcount k = 0" using lock_invD(8) [OF inv n(1), of l] n(2) by auto
  let ?s = "s\<lparr>links := (links s)(l \<mapsto> k\<lparr>lcount := lcount k + 1\<rparr>)\<rparr>"
  have "rest (length (procs s)) (Inc (Some l) # c)" using lock_invD(2) [OF inv n(1)] n(2) by auto
  then obtain i st where c: "c = [Store (Some l) i st]" "i < length (procs s)" by (auto simp: rest_def)
  have other: "m \<noteq> n \<and> l' \<noteq> l" if "m < length T" "l' \<in> brings (if m = n then c else code (T ! m))" for m l'
    using that c lock_invD(10) [OF inv that(1) _ n(1), of l'] n(2) by (auto split: if_splits)
  have "lock_inv ts (T[n := \<lparr>code = c, reg = r\<rparr>]) ?s"
  proof (rule lock_inv_move [OF inv n, where c' = c])
    show "links ?s l' = links s l' \<and> refs ?s l' = 0" if "m < length T" "l' \<in> brings (if m = n then c else code (T ! m))" for m l'
      using other [OF that] that n(2) lock_invD(8) [OF inv that(1), of l'] by (auto split: if_splits)
    show "\<exists>k0. links s l' = Some k0 \<and> ltext k' = ltext k0 \<and> bufs ?s (ltext k0) = bufs s (ltext k0) \<and>
        int (refs ?s l') + weights l' c - int (unat (lcount k')) \<le>
        int (refs s l') + weights l' (Inc (Some l) # c) - int (unat (lcount k0))"
      if "links ?s l' = Some k'" for l' k'
      using that k by (cases "l' = l") auto
  qed (use c lock_invD(3,4) [OF inv] k in auto)
  with k show ?thesis by blast
qed

lemma store_step:
  assumes inv: "lock_inv ts T s" and n: "n < length T" "code (T ! n) = Store lk i st # c"
  shows "lock_inv ts (T[n := \<lparr>code = c, reg = r\<rparr>]) (s\<lparr>procs := (procs s)[i := \<lparr>plink = lk, pstart = st\<rparr>]\<rparr>)"
proof -
  let ?s = "s\<lparr>procs := (procs s)[i := \<lparr>plink = lk, pstart = st\<rparr>]\<rparr>"
  have p: "i < length (procs s)" "c = []" using lock_invD(2) [OF inv n(1)] n(2) by auto
  have refs: "int (refs ?s l) = int (refs s l) + (if lk = Some l then 1 else 0) - (if plink (procs s ! i) = Some l then 1 else 0)" for l
    using refs_update [OF p(1), of "\<lparr>plink = lk, pstart = st\<rparr>" l] by auto
  have lk: "links s l \<noteq> None" if "lk = Some l" for l using that lock_invD(3) [OF inv n(1), of l] n(2) by auto
  show ?thesis
  proof (rule lock_inv_move [OF inv n, where c' = c])
    show "links ?s l \<noteq> None" if "j < length (procs s)" "plink (procs ?s ! j) = Some l" for j l
      using that lock_invD(4) [OF inv, of j l] lk by (cases "j = i") auto
    show "links ?s l = links s l \<and> refs ?s l = 0" if "m < length T" "l \<in> brings (if m = n then c else code (T ! m))" for m l
    proof -
      have "m \<noteq> n" "l \<in> brings (code (T ! m))" using that p(2) by (auto split: if_splits)
      then have "refs s l = 0" "lk \<noteq> Some l"
        using lock_invD(8) [OF inv that(1), of l] lock_invD(10) [OF inv that(1) _ n(1), of l] n(2) by auto
      with refs [of l] show ?thesis by (auto split: if_splits)
    qed
    show "\<exists>k. links s l = Some k \<and> ltext k' = ltext k \<and> bufs ?s (ltext k) = bufs s (ltext k) \<and>
        int (refs ?s l) + weights l c - int (unat (lcount k')) \<le>
        int (refs s l) + weights l (Store lk i st # c) - int (unat (lcount k))"
      if "links ?s l = Some k'" for l k'
      using that unfolding refs by simp
  qed (use p lock_invD(3) [OF inv] in auto)
qed

lemma destroy_step:
  assumes inv: "lock_inv ts T s" and n: "n < length T" "code (T ! n) = Destroy l # c"
    and k: "links s l = Some k" "lcount k = 0"
  shows "lock_inv ts (T[n := \<lparr>code = c, reg = r\<rparr>]) (s\<lparr>bufs := (bufs s)(ltext k := None), links := (links s)(l := None)\<rparr>)"
proof -
  let ?s = "s\<lparr>bufs := (bufs s)(ltext k := None), links := (links s)(l := None)\<rparr>"
  have p: "prog ts (length (procs s)) c" using lock_invD(2) [OF inv n(1)] n(2) rest_prog by auto
  have zero: "refs s l = 0" "weights l (code (T ! m)) \<le> 0" if "m < length T" for m
    using lock_invD(6) [OF inv k(1)] k(2) in_flight_ge [OF n(1) lock_invD(11) [OF inv], of l]
      prog_weights [OF lock_invD(2) [OF inv n(1)], of l] in_flight_ge [OF that lock_invD(11) [OF inv], of l] by auto
  have new: "l \<notin> brings (code (T ! m))" if "m < length T" for m
    using that lock_invD(9) [OF inv n(1), of l] lock_invD(10) [OF inv that _ n(1), of l] n(2) by (cases "m = n") auto
  have free: "l \<notin> holds (code (T ! m))" if "m < length T" for m
    using prog_held [OF lock_invD(2) [OF inv that], of l] zero(2) [OF that] new [OF that] by auto
  show ?thesis
  proof (rule lock_inv_move [OF inv n, where c' = c])
    show "links ?s l' \<noteq> None" if "j < length (procs s)" "plink (procs ?s ! j) = Some l'" for j l'
      using that lock_invD(4) [OF inv, of j l'] zero(1) [OF n(1)] refs_pos_iff [of s l] by auto
    show "links ?s l' \<noteq> None" if "l' \<in> holds c" for l'
      using that free [OF n(1)] lock_invD(3) [OF inv n(1), of l'] n(2) by auto
    show "links ?s l' \<noteq> None" if "m < length T" "m \<noteq> n" "l' \<in> holds (code (T ! m))" for m l'
      using that free [OF that(1)] lock_invD(3) [OF inv that(1,3)] by auto
    show "drops c \<inter> brings (Destroy l # c) \<subseteq> {}" using lock_invD(9) [OF inv n(1)] n(2) by auto
    show "links ?s l' = links s l' \<and> refs ?s l' = 0" if "m < length T" "l' \<in> brings (if m = n then c else code (T ! m))" for m l'
      using that n(2) new [OF that(1)] lock_invD(8) [OF inv that(1), of l'] by (auto split: if_splits)
    show "\<exists>k0. links s l' = Some k0 \<and> ltext k' = ltext k0 \<and> bufs ?s (ltext k0) = bufs s (ltext k0) \<and>
        int (refs ?s l') + weights l' c - int (unat (lcount k')) \<le>
        int (refs s l') + weights l' (Destroy l # c) - int (unat (lcount k0))"
      if "links ?s l' = Some k'" for l' k'
      using that lock_invD(7) [OF inv k(1), of l' k'] by (auto split: if_splits)
  qed (use p in auto)
qed

lemma exec_keeps:
  assumes inv: "lock_inv ts T s" and n: "n < length T" "code (T ! n) = i # c" and ex: "exec ts i r s = Inr (new, r', s')"
  shows "lock_inv ts (T[n := \<lparr>code = new @ c, reg = r'\<rparr>]) s'"
proof -
  note p = lock_invD(2) [OF inv n(1), unfolded n(2)]
  note same = move_code [OF inv n]
  show ?thesis
  proof (cases i)
    case (Take j)
    with take_step [OF inv n(1), of j c r'] n(2) ex show ?thesis by (auto split: if_splits)
  next
    case (Dec l)
    with dec_step [OF inv n(1), of l c r'] n(2) ex show ?thesis by (auto simp: atomic_add_def)
  next
    case (Test l)
    have "lock_inv ts (T[n := \<lparr>code = d @ c, reg = r\<rparr>]) s" if "d = [] \<or> d = [Destroy l]" for d
      using that p Test rest_prog by (intro same) auto
    from this [of "[]"] this [of "[Destroy l]"] ex Test show ?thesis by (auto split: option.splits if_splits)
  next
    case (Destroy l)
    have "lock_inv ts (T[n := \<lparr>code = c, reg = r\<rparr>]) s"
      using p Destroy rest_prog by (intro same) auto
    with destroy_step [OF inv n(1), of l c] n(2) ex Destroy show ?thesis
      by (auto simp: destroy_link_def split: option.splits if_splits)
  next
    case (Set lk t)
    then obtain a k where a: "t = Some a" "ts a = Some k" "tpid k < length (procs s)" "c = []" using p by auto
    then have "lock_inv ts (T[n := \<lparr>code = [Check (tpid k), Inc lk, Store lk (tpid k) (tstart k)], reg = r\<rparr>]) s"
      using Set by (intro same) (auto simp: rest_def)
    with ex Set a show ?thesis by (auto split: if_splits)
  next
    case (Check j)
    have "lock_inv ts (T[n := \<lparr>code = d @ c, reg = r\<rparr>]) s" if "d = [] \<or> d = [Take j]" for d
      using that p Check rest_prog by (intro same) auto
    from this [of "[]"] this [of "[Take j]"] ex Check show ?thesis by (auto split: if_splits)
  next
    case (Inc lk)
    have "lock_inv ts (T[n := \<lparr>code = c, reg = r\<rparr>]) s" if "lk = None"
      using that p Inc by (intro same) (auto simp: rest_def)
    with inc_step [OF inv n(1), of _ c r'] n(2) ex Inc show ?thesis
      by (auto simp: atomic_add_def split: option.splits)
  next
    case (Store lk j st)
    with store_step [OF inv n(1), of lk j st c r'] n(2) ex show ?thesis by (auto split: if_splits)
  qed (use p in simp_all)
qed

lemma exec_faults:
  assumes inv: "lock_inv ts T s" and n: "n < length T" "code (T ! n) = i # c" and ex: "exec ts i r s = Inl f"
  shows "f = Use_After_Free \<and> (\<exists>l. (i = Test l \<or> i = Destroy l) \<and> links s l = None)"
proof -
  note p = lock_invD(2) [OF inv n(1), unfolded n(2)]
  note live = lock_invD(3) [OF inv n(1), unfolded n(2)] and own = lock_invD(8) [OF inv n(1), unfolded n(2)]
  note tx = lock_invD(5) [OF inv] and size = lock_invD(1) [OF inv]
  show ?thesis
  proof (cases i)
    case (Dec l)
    with live [of l] ex show ?thesis by (auto simp: atomic_add_def)
  next
    case (Destroy l)
    with tx [of l] ex show ?thesis by (auto simp: destroy_link_def split: option.splits if_splits)
  next
    case (Inc lk)
    with own [of "the lk"] ex show ?thesis by (cases lk) (auto simp: atomic_add_def split: option.splits)
  qed (use p ex size in \<open>auto split: option.splits if_splits\<close>)
qed

section \<open>Concurrent calls\<close>

text \<open>
  Any number of threads, each about to call \<^verbatim>\<open>reset_link\<close> for a slot, or \<^verbatim>\<open>set_link\<close> for a task with no link or with a new one
  that \<^verbatim>\<open>create_link\<close> has given to this call alone, as \<^verbatim>\<open>write_resetchos\<close> and \<^verbatim>\<open>write_setchos\<close> do.
\<close>

definition lock_start :: "tasks \<Rightarrow> thread list \<Rightarrow> link_state \<Rightarrow> bool" where
  "lock_start ts T s \<longleftrightarrow>
     link_inv s \<and>
     (\<forall>t \<in> set T. (\<exists>i < length (procs s). code t = [Take i]) \<or>
        (\<exists>lk a k. code t = [Set lk (Some a)] \<and> ts a = Some k \<and> tpid k < length (procs s) \<and> set_option lk \<subseteq> orphans s)) \<and>
     (\<forall>n m. n < length T \<longrightarrow> m < length T \<longrightarrow> n \<noteq> m \<longrightarrow> brings (code (T ! n)) \<inter> brings (code (T ! m)) = {})"

lemma start_inv:
  assumes "lock_start ts T s"
  shows "lock_inv ts T s"
proof -
  have inv: "link_inv s" using assms by (simp add: lock_start_def)
  have code: "prog ts (length (procs s)) (code t)" "holds (code t) = {}" "drops (code t) = {}" "brings (code t) \<subseteq> orphans s"
      "weights l (code t) = 0" if t: "t \<in> set T" for t l
  proof -
    have "(\<exists>i < length (procs s). code t = [Take i]) \<or>
        (\<exists>lk a k. code t = [Set lk (Some a)] \<and> ts a = Some k \<and> tpid k < length (procs s) \<and> set_option lk \<subseteq> orphans s)"
      using assms t unfolding lock_start_def by blast
    then show "prog ts (length (procs s)) (code t)" "holds (code t) = {}" "drops (code t) = {}" "brings (code t) \<subseteq> orphans s"
        "weights l (code t) = 0"
      by auto
  qed
  have fly: "in_flight l T = 0" for l
    unfolding in_flight_def using code(5) by (simp cong: map_cong)
  have br: "(\<exists>k. links s l = Some k \<and> lcount k = 0) \<and> refs s l = 0" if "l \<in> orphans s" for l
    using that link_count_zero_iff [OF inv] by (auto simp: orphans_def)
  have apart: "brings (code (T ! n)) \<inter> brings (code (T ! m)) = {}" if "n < length T" "m < length T" "m \<noteq> n" for n m
    using assms that by (auto simp: lock_start_def)
  note nth = code [OF nth_mem]
  have priv: "(\<exists>k. links s l = Some k \<and> lcount k = 0) \<and> refs s l = 0 \<and> l \<notin> drops (code (T ! n)) \<and>
      (\<forall>m < length T. m \<noteq> n \<longrightarrow> l \<notin> holds (code (T ! m)) \<union> drops (code (T ! m)) \<union> brings (code (T ! m)))"
    if "n < length T" "l \<in> brings (code (T ! n))" for n l
    using that br [of l] nth(2,3) nth(4) [OF that(1)] apart [OF that(1)] by blast
  show ?thesis
    unfolding lock_inv_def using link_invD(1,3,4,5,6) [OF inv] code(1,2) fly priv by auto
qed

interpretation locks: invariant_machine "\<lambda>X. lock_start ts (fst X) (snd X)" "lstep ts" "\<lambda>X. lock_inv ts (fst X) (snd X)" for ts
proof
  show "lock_inv ts (fst X) (snd X)" if "lock_start ts (fst X) (snd X)" for X using that by (rule start_inv)
  show "lock_inv ts (fst Y) (snd Y)" if inv: "lock_inv ts (fst X) (snd X)" and step: "lstep ts X Y" for X Y
    using step inv by cases (auto intro: exec_keeps)
qed

section \<open>Every call comes to its end\<close>

text \<open>How many instructions a thread can still execute.\<close>

fun size_of :: "instr \<Rightarrow> nat" where
  "size_of (Take i) = 4"
| "size_of (Test l) = 2"
| "size_of (Check i) = 5"
| "size_of (Set lk t) = 8"
| "size_of _ = 1"

definition todo :: "thread list \<Rightarrow> nat" where
  "todo T = sum_list (map (\<lambda>t. sum_list (map size_of (code t))) T)"

lemma todo_step:
  assumes inv: "lock_inv ts (fst X) (snd X)" and step: "lstep ts X Y"
  shows "todo (fst Y) < todo (fst X)"
  using step
proof cases
  case (run n T i c s new r s')
  have p: "prog ts (length (procs s)) (i # c)" using lock_invD(2) [OF inv, of n] run by simp
  have "sum_list (map size_of new) < size_of i"
    using run(5) p by (cases i) (auto simp: ebind_Inr_iff split: option.splits if_splits)
  moreover have "sum_list (map size_of (i # c)) \<le> todo T"
    unfolding todo_def using run member_le_sum_list [of "sum_list (map size_of (code (T ! n)))"] by (auto simp: run(4) [symmetric])
  ultimately show ?thesis
    using run by (simp add: todo_def map_update sum_list_update)
qed

lemma run_bounded:
  assumes "lock_inv ts (fst X) (snd X)" and "(lstep ts ^^ n) X Y"
  shows "n + todo (fst Y) \<le> todo (fst X)"
  using assms(2)
proof (induction n arbitrary: Y)
  case (Suc n)
  then obtain Z where Z: "(lstep ts ^^ n) X Z" "lstep ts Z Y" by auto
  have "lock_inv ts (fst Z) (snd Z)" using locks.inv_run [of ts X Z] assms(1) relpowp_imp_rtranclp [OF Z(1)] by blast
  from todo_step [OF this Z(2)] Suc.IH [OF Z(1)] show ?case by simp
qed simp

lemma start_todo: "lock_start ts T s \<Longrightarrow> todo T \<le> 8 * length T"
proof -
  assume start: "lock_start ts T s"
  have "sum_list (map size_of (code t)) \<le> 8" if "t \<in> set T" for t
    using start that unfolding lock_start_def by fastforce
  then have "todo T \<le> sum_list (map (\<lambda>_. 8) T)" unfolding todo_def by (intro sum_list_mono)
  then show ?thesis by (simp add: sum_list_triv)
qed

section \<open>Properties\<close>

text \<open>
  C14. What the locks achieve: however any number of calls of \<^verbatim>\<open>reset_link\<close> and of \<^verbatim>\<open>set_link\<close> with new links are interleaved, every slot
  holds a live link with a live text, whose reference count covers all slots that hold it, so no link is freed while a slot leads
  to it; and the only instructions that can ever fail are those in which a \<^verbatim>\<open>reset_link\<close> looks at the count of a link, or
  frees it, after another call has freed it.
\<close>

theorem concurrent_slots_live:
  assumes "lock_start ts T0 s0" and "(lstep ts)\<^sup>*\<^sup>* (T0, s0) (T, s)"
  shows "(\<forall>i < length (procs s). \<forall>l. plink (procs s ! i) = Some l \<longrightarrow>
      (\<exists>k. links s l = Some k \<and> bufs s (ltext k) \<noteq> None \<and> refs s l \<le> unat (lcount k))) \<and>
    (\<forall>n < length T. \<forall>x c f. code (T ! n) = x # c \<longrightarrow> exec ts x (reg (T ! n)) s = Inl f \<longrightarrow>
      f = Use_After_Free \<and> (\<exists>l. (x = Test l \<or> x = Destroy l) \<and> links s l = None))"
proof -
  have inv: "lock_inv ts T s" using locks.inv_reachable [of ts "(T0, s0)" "(T, s)"] assms by simp
  have fly: "0 \<le> in_flight l T" for l
    unfolding in_flight_def using lock_invD(11) [OF inv] by (intro sum_list_nonneg) (auto intro: prog_weights)
  have "\<exists>k. links s l = Some k \<and> bufs s (ltext k) \<noteq> None \<and> refs s l \<le> unat (lcount k)"
    if slot: "i < length (procs s)" "plink (procs s ! i) = Some l" for i l
  proof -
    obtain k where k: "links s l = Some k" using lock_invD(4) [OF inv slot] by blast
    have "refs s l \<le> unat (lcount k)" using lock_invD(6) [OF inv k] fly [of l] by linarith
    with k lock_invD(5) [OF inv k] show ?thesis by blast
  qed
  then show ?thesis using exec_faults [OF inv] by blast
qed

text \<open>
  No call waits for ever: a run of \<open>k\<close> such calls has at most \<open>8 k\<close> steps, and where no further step is possible, every
  call has returned or the next instruction of one of them fails.
\<close>

theorem concurrent_calls_end:
  assumes start: "lock_start ts T0 s0" and run: "(lstep ts ^^ n) (T0, s0) (T, s)"
  shows "n \<le> 8 * length T0 \<and>
    ((\<forall>Y. \<not> lstep ts (T, s) Y) \<longrightarrow> (\<forall>t \<in> set T. code t = []) \<or> lfault ts Use_After_Free (T, s))"
proof -
  have inv: "lock_inv ts T s"
    using locks.inv_reachable [of ts "(T0, s0)" "(T, s)"] start relpowp_imp_rtranclp [OF run] by simp
  have "(\<forall>t \<in> set T. code t = []) \<or> lfault ts Use_After_Free (T, s)" if stuck: "\<forall>Y. \<not> lstep ts (T, s) Y"
  proof (rule disjCI)
    assume nf: "\<not> lfault ts Use_After_Free (T, s)"
    have "code (T ! m) = []" if m: "m < length T" for m
    proof (cases "code (T ! m)")
      case (Cons i c)
      then show ?thesis
        using stuck nf m lstep.run [OF m Cons, of ts s] exec_faults [OF inv m Cons]
        by (cases "exec ts i (reg (T ! m)) s") (auto simp: lfault_def)
    qed
    then show "\<forall>t \<in> set T. code t = []" by (metis in_set_conv_nth)
  qed
  moreover have "n \<le> 8 * length T0"
    using run_bounded [of ts "(T0, s0)" n "(T, s)"] start_inv [OF start] start_todo [OF start] run by simp
  ultimately show ?thesis by blast
qed

text \<open>
  The test of the count is not part of the decrement, so the locks do not prevent a double free: when two processes share a
  link and nobody else has it, two calls of \<^verbatim>\<open>reset_link\<close> for their slots can both see the count at zero, and one of them uses and
  frees the link after the other has freed it.
\<close>

theorem reset_race_double_free:
  assumes inv: "link_inv s" and i: "i < length (procs s)" "plink (procs s ! i) = Some l"
    and j: "j < length (procs s)" "plink (procs s ! j) = Some l" and two: "i \<noteq> j" "refs s l = 2"
  shows "\<exists>T s'. (lstep ts)\<^sup>*\<^sup>* ([\<lparr>code = [Take i], reg = None\<rparr>, \<lparr>code = [Take j], reg = None\<rparr>], s) (T, s') \<and>
    code (T ! 0) = [] \<and> code (T ! 1) = [Destroy l] \<and> links s' l = None \<and> lfault ts Use_After_Free (T, s')"
proof -
  obtain k where k: "links s l = Some k" using link_invD(3) [OF inv i] by blast
  have "unat (lcount k) = 2" using link_invD(5) [OF inv k] two(2) by simp
  then have c: "lcount k = 2" by (simp add: word_unat_eq_iff)
  obtain b where b: "bufs s (ltext k) = Some b" using link_invD(4) [OF inv k] by blast
  let ?t = "\<lambda>c. \<lparr>code = c, reg = None\<rparr>"
  let ?e = "\<lparr>plink = None, pstart = 0 :: 64 word\<rparr>"
  let ?s = "s\<lparr>procs := (procs s)[i := ?e, j := ?e], links := (links s)(l := None), bufs := (bufs s)(ltext k := None)\<rparr>"
  have run: "sched ts [0, 1, 0, 1, 1, 0, 0] ([?t [Take i], ?t [Take j]], s) = Some ([?t [], ?t [Destroy l]], ?s)"
    using i j two(1) k c b by (simp add: atomic_add_def destroy_link_def)
  have "lfault ts Use_After_Free ([?t [], ?t [Destroy l]], ?s)"
    unfolding lfault_def by (intro exI [of _ 1] exI [of _ "Destroy l"] exI [of _ "[]"]) (simp add: destroy_link_def)
  then show ?thesis
    using sched_run [OF run] by (intro exI [of _ "[?t [], ?t [Destroy l]]"] exI [of _ ?s]) simp
qed

text \<open>
  \<^verbatim>\<open>lookup_link\<close> hands out the parent's link without a reference: when the parent gives up its link, which only it has, between the
  lookup and the caching in the child's slot, the child's \<^verbatim>\<open>atomic_inc\<close> is an access to freed memory.
\<close>

theorem lookup_race_use_after_free:
  assumes inv: "link_inv s" and a: "ts a = Some k" "1 < tpid k" "tpid k < length (procs s)"
      "plink (procs s ! tpid k) = None"
    and b: "tparent k = Some b" "ts b = Some p" "1 < tpid p" "tpid p < length (procs s)"
      "plink (procs s ! tpid p) = Some l" "pstart (procs s ! tpid p) = tstart p"
    and one: "refs s l = 1"
  shows "\<exists>T s'. (lstep ts)\<^sup>*\<^sup>* ([\<lparr>code = [Look (Some a)], reg = None\<rparr>, \<lparr>code = [Take (tpid p)], reg = None\<rparr>], s) (T, s') \<and>
    (\<exists>c. code (T ! 0) = Inc (Some l) # c) \<and> links s' l = None \<and> lfault ts Use_After_Free (T, s')"
proof -
  obtain q where q: "links s l = Some q" using link_invD(3) [OF inv b(4,5)] by blast
  have "unat (lcount q) = 1" using link_invD(5) [OF inv q] one by simp
  then have c: "lcount q = 1" by (simp add: word_unat_eq_iff)
  obtain x where x: "bufs s (ltext q) = Some x" using link_invD(4) [OF inv q] by blast
  have le: "tpid k \<le> unat (pid_max s)" "tpid p \<le> unat (pid_max s)" "tpid k \<noteq> tpid p"
    using a(3,4) b(4,5) link_invD(1) [OF inv] by auto
  let ?t = "\<lambda>c r. \<lparr>code = c, reg = r\<rparr>"
  let ?s = "s\<lparr>procs := (procs s)[tpid p := \<lparr>plink = None, pstart = 0\<rparr>], links := (links s)(l := None),
    bufs := (bufs s)(ltext q := None)\<rparr>"
  let ?T = "[?t [Inc (Some l), Store (Some l) (tpid k) (tstart k)] (Some l), ?t [] None]"
  have run: "sched ts [0, 0, 1, 1, 1, 1, 0, 0, 0] ([?t [Look (Some a)] None, ?t [Take (tpid p)] None], s) = Some (?T, ?s)"
    using a b q c x le by (simp add: atomic_add_def destroy_link_def)
  have "lfault ts Use_After_Free (?T, ?s)"
    unfolding lfault_def by (intro exI [of _ 0]) (simp add: atomic_add_def)
  then show ?thesis using sched_run [OF run] by (intro exI [of _ ?T] exI [of _ ?s]) simp
qed

text \<open>
  \<^verbatim>\<open>set_link\<close> empties the slot and fills it in two sections, so two calls for the same task can lose a link: both return
  without a fault, but the link that was stored first is overwritten, keeps the reference count 1 with no slot that holds it,
  and is never freed.
\<close>

theorem set_race_loses_link:
  assumes inv: "link_inv s" and a: "ts a = Some k" "tpid k < length (procs s)" "plink (procs s ! tpid k) = None"
    and l: "l \<in> orphans s" "m \<in> orphans s" "l \<noteq> m"
  shows "\<exists>T s'. (lstep ts)\<^sup>*\<^sup>* ([\<lparr>code = [Set (Some l) (Some a)], reg = None\<rparr>, \<lparr>code = [Set (Some m) (Some a)], reg = None\<rparr>], s)
      (T, s') \<and> (\<forall>t \<in> set T. code t = []) \<and> plink (procs s' ! tpid k) = Some m \<and>
    refs s' l = 0 \<and> map_option lcount (links s' l) = Some 1"
proof -
  obtain x y where x: "links s l = Some x" "refs s l = 0" "links s m = Some y" using l by (auto simp: orphans_def)
  have c: "lcount x = 0" using link_count_zero_iff [OF inv x(1)] x(2) by simp
  have le: "tpid k \<le> unat (pid_max s)" using a(2) link_invD(1) [OF inv] by simp
  let ?t = "\<lambda>c. \<lparr>code = c, reg = None\<rparr>"
  let ?s = "s\<lparr>links := (links s)(l \<mapsto> x\<lparr>lcount := 1\<rparr>, m \<mapsto> y\<lparr>lcount := lcount y + 1\<rparr>),
    procs := (procs s)[tpid k := \<lparr>plink = Some m, pstart = tstart k\<rparr>]\<rparr>"
  have run: "sched ts [0, 0, 1, 1, 0, 1, 0, 1] ([?t [Set (Some l) (Some a)], ?t [Set (Some m) (Some a)]], s) =
      Some ([?t [], ?t []], ?s)"
    using a x c l(3) le by (simp add: atomic_add_def)
  have "refs ?s l = 0"
    using refs_update [OF a(2), of "\<lparr>plink = Some m, pstart = tstart k\<rparr>" l] x(2) a(3) l(3) by (simp add: refs_def)
  then show ?thesis
    using sched_run [OF run] a(2) l(3) by (intro exI [of _ "[?t [], ?t []]"] exI [of _ ?s]) simp
qed

section \<open>Concrete runs\<close>

text \<open>A table in which two slots share a link and two new links wait to be set.\<close>

definition demo_shared :: link_state where
  "demo_shared =
     \<lparr>links = (\<lambda>l. if l = 10 then Some \<lparr>ltext = 20, lcount = 2\<rparr> else if l = 12 then Some \<lparr>ltext = 22, lcount = 0\<rparr>
               else if l = 13 then Some \<lparr>ltext = 23, lcount = 0\<rparr> else None),
      bufs = (\<lambda>b. if b \<in> {20, 22, 23} then Some (''/os/sl6'' @ [NUL]) else None),
      procs = [\<lparr>plink = None, pstart = 0\<rparr>, \<lparr>plink = None, pstart = 0\<rparr>, \<lparr>plink = Some 10, pstart = 100\<rparr>,
        \<lparr>plink = None, pstart = 0\<rparr>, \<lparr>plink = Some 10, pstart = 90\<rparr>],
      pid_max = 5\<rparr>"

lemma demo_shared_refs: "refs demo_shared l = (if l = 10 then 2 else 0)"
  by (simp add: refs_def demo_shared_def)

lemma demo_shared_inv: "link_inv demo_shared"
  unfolding link_inv_def demo_shared_refs by (auto simp: demo_shared_def split: if_splits)

lemma demo_shared_orphans: "orphans demo_shared = {12, 13}"
  unfolding orphans_def demo_shared_refs by (auto simp: demo_shared_def split: if_splits)

definition demo_threads :: "thread list" where
  "demo_threads =
     [\<lparr>code = [Take 2], reg = None\<rparr>, \<lparr>code = [Take 4], reg = None\<rparr>, \<lparr>code = [Set (Some 12) (Some 6)], reg = None\<rparr>,
      \<lparr>code = [Set (Some 13) (Some 6)], reg = None\<rparr>]"

lemma demo_start: "lock_start demo_tasks demo_threads demo_shared"
proof -
  have "brings (code (demo_threads ! n)) = (if n = 2 then {12} else if n = 3 then {13} else {})" if "n < 4" for n
    using that by (auto simp: demo_threads_def less_Suc_eq numeral_eq_Suc)
  then show ?thesis
    using demo_shared_inv demo_shared_orphans demo_at(2) by (auto simp: lock_start_def demo_threads_def demo_shared_def)
qed

lemma demo_race: "\<exists>T s. sched demo_tasks [2, 2, 3, 3, 0, 2, 3, 2, 3] (demo_threads, demo_shared) = Some (T, s) \<and>
    length (procs s) = 5 \<and> plink (procs s ! 3) = Some 13"
  by (simp add: demo_threads_def demo_shared_def demo_at atomic_add_def)

theorem concurrent_slots_live_witness:
  "\<exists>T s. (lstep demo_tasks)\<^sup>*\<^sup>* (demo_threads, demo_shared) (T, s) \<and> plink (procs s ! 3) = Some 13 \<and>
     (\<exists>k. links s 13 = Some k \<and> bufs s (ltext k) \<noteq> None \<and> refs s 13 \<le> unat (lcount k))"
proof -
  obtain T s where run: "sched demo_tasks [2, 2, 3, 3, 0, 2, 3, 2, 3] (demo_threads, demo_shared) = Some (T, s)"
      "length (procs s) = 5" "plink (procs s ! 3) = Some 13"
    using demo_race by blast
  have "\<exists>k. links s 13 = Some k \<and> bufs s (ltext k) \<noteq> None \<and> refs s 13 \<le> unat (lcount k)"
    using conjunct1 [OF concurrent_slots_live [OF demo_start sched_run [OF run(1)]], rule_format, of 3 13] run(2,3) by simp
  with sched_run [OF run(1)] run(3) show ?thesis by blast
qed

theorem concurrent_calls_end_witness:
  "\<exists>T s. (lstep demo_tasks ^^ 9) (demo_threads, demo_shared) (T, s) \<and> 9 \<le> 8 * length demo_threads"
proof -
  obtain T s where run: "sched demo_tasks [2, 2, 3, 3, 0, 2, 3, 2, 3] (demo_threads, demo_shared) = Some (T, s)"
    using demo_race by blast
  from sched_steps [OF this] have "(lstep demo_tasks ^^ 9) (demo_threads, demo_shared) (T, s)" by (simp add: eval_nat_numeral)
  with concurrent_calls_end [OF demo_start this] show ?thesis by blast
qed

theorem reset_race_double_free_witness:
  "\<exists>T s'. (lstep demo_tasks)\<^sup>*\<^sup>* ([\<lparr>code = [Take 2], reg = None\<rparr>, \<lparr>code = [Take 4], reg = None\<rparr>], demo_shared) (T, s') \<and>
     lfault demo_tasks Use_After_Free (T, s')"
proof -
  have "plink (procs demo_shared ! 2) = Some 10" "plink (procs demo_shared ! 4) = Some 10" "length (procs demo_shared) = 5"
    by (simp_all add: demo_shared_def)
  with reset_race_double_free [OF demo_shared_inv, of 2 10 4 demo_tasks] demo_shared_refs [of 10] show ?thesis by auto
qed

theorem lookup_race_use_after_free_witness:
  "\<exists>T s'. (lstep demo_tasks)\<^sup>*\<^sup>* ([\<lparr>code = [Look (Some 6)], reg = None\<rparr>, \<lparr>code = [Take 2], reg = None\<rparr>], demo_table) (T, s') \<and>
     lfault demo_tasks Use_After_Free (T, s')"
proof -
  have "plink (procs demo_table ! 3) = None" "plink (procs demo_table ! 2) = Some 10" "pstart (procs demo_table ! 2) = 100"
    by (simp_all add: demo_table_def demo_procs_def)
  with lookup_race_use_after_free [of demo_table demo_tasks 6 _ 5 _ 10, OF demo_inv demo_at(2) _ _ _ _ demo_at(1)]
    demo_refs [of 10] demo_length show ?thesis by auto
qed

theorem set_race_loses_link_witness:
  "\<exists>T s'. (lstep demo_tasks)\<^sup>*\<^sup>* ([\<lparr>code = [Set (Some 12) (Some 6)], reg = None\<rparr>, \<lparr>code = [Set (Some 13) (Some 6)], reg = None\<rparr>],
       demo_shared) (T, s') \<and> refs s' 12 = 0 \<and> map_option lcount (links s' 12) = Some 1"
proof -
  have "plink (procs demo_shared ! 3) = None" "length (procs demo_shared) = 5" by (simp_all add: demo_shared_def)
  with set_race_loses_link [of demo_shared demo_tasks 6 _ 12 13, OF demo_shared_inv demo_at(2)] demo_shared_orphans
  show ?thesis by auto
qed

end
