(* ===== verification/Reader_Races.thy ===== *)
theory Reader_Races
  imports Slot_Races
begin

text \<open>
  Concurrent readers of the special link, and concurrent forks. \<^verbatim>\<open>lookup_link\<close> writes what it finds into the slots on its way, so readers race with each other:
  two of them may fill, empty and refill the slot of a common ancestor. Here any number of calls of \<^verbatim>\<open>lookup_link\<close>, and of \<^verbatim>\<open>chos_do_fork\<close>, which looks up the link of the
  parent and sets it for the child, cut into the instructions of \<^verbatim>\<open>Slot_Locks\<close>, are interleaved in any order. As long as no slot of a
  living process is stale the races are harmless: no call fails, every call ends, and a lookup returns the link that its process inherits.
  With stale slots they are not: two readers can free the same link twice. The task list stands still meanwhile, with the children of the
  forks already in it.
\<close>

section \<open>The link that a lookup finds\<close>

definition found :: "tasks \<Rightarrow> link_state \<Rightarrow> tid option \<Rightarrow> addr option" where
  "found ts s t = (case lookup_link ts t s of Some (Inr (lk, _)) \<Rightarrow> lk | _ \<Rightarrow> None)"

text \<open>No slot of a living process is left from a process that had the same pid before.\<close>

definition current_slots :: "tasks \<Rightarrow> link_state \<Rightarrow> bool" where
  "current_slots ts s \<longleftrightarrow>
     (\<forall>a k. ts a = Some k \<longrightarrow> 1 < tpid k \<longrightarrow> plink (procs s ! tpid k) \<noteq> None \<longrightarrow> pstart (procs s ! tpid k) = tstart k)"

lemma found_None [simp]: "found ts s None = None"
  by (simp add: found_def lookup_link_None)

lemma found_init: "ts a = Some k \<Longrightarrow> tpid k \<le> 1 \<Longrightarrow> found ts s (Some a) = None"
proof -
  assume k: "ts a = Some k" "tpid k \<le> 1"
  then have "tpid k = 0 \<or> tpid k = 1" by linarith
  with k show ?thesis by (simp add: found_def lookup_link.simps [of ts "Some a"])
qed

lemma found_here:
  assumes "link_inv s" "current_slots ts s" "ts a = Some k" "1 < tpid k" "tpid k < length (procs s)"
    and "plink (procs s ! tpid k) = Some l"
  shows "found ts s (Some a) = Some l"
proof -
  have "pstart (procs s ! tpid k) = tstart k" using assms(2,3,4,6) by (simp add: current_slots_def)
  with assms link_invD(1) [OF assms(1)] show ?thesis by (simp add: found_def lookup_link.simps [of ts "Some a"])
qed

lemma found_up:
  assumes inv: "link_inv s" and tree: "task_tree (length (procs s)) ts" and k: "ts a = Some k" "1 < tpid k"
    and slot: "plink (procs s ! tpid k) = None"
  shows "found ts s (Some a) = found ts s (tparent k)"
proof -
  have p: "tpid k < length (procs s)" "tpid k < unat (pid_max s)"
    using task_treeD(1) [OF tree k(1)] link_invD(1) [OF inv] by simp_all
  have parent: "ts b \<noteq> None" if "tparent k = Some b" for b using task_treeD(3) [OF tree k(1) that] .
  obtain lk s1 where s1: "lookup_link ts (tparent k) s = Some (Inr (lk, s1))"
    using lookup_link_ok [OF tree inv parent] by metis
  obtain lk' s2 where s2: "lookup_link ts (Some a) s = Some (Inr (lk', s2))"
    using lookup_link_ok [OF tree inv, of "Some a"] k(1) by (metis option.inject option.distinct(1))
  have "lk' = lk"
    using s2 s1 k p slot by (auto simp: lookup_link.simps [of ts "Some a"] ebind_Inr_iff split: if_splits)
  with s1 s2 show ?thesis by (simp add: found_def)
qed

lemma found_held:
  assumes inv: "link_inv s" and tree: "task_tree (length (procs s)) ts" and cur: "current_slots ts s" and t: "found ts s t = Some l"
    and ex: "\<And>a. t = Some a \<Longrightarrow> ts a \<noteq> None"
  shows "0 < refs s l"
proof -
  obtain d :: "tid \<Rightarrow> nat" where d: "\<And>a k p. ts a = Some k \<Longrightarrow> 1 < tpid k \<Longrightarrow> tparent k = Some p \<Longrightarrow> d p < d a"
    using task_tree_depth [OF tree] by metis
  have "found ts s (Some a) = Some l \<Longrightarrow> ts a \<noteq> None \<Longrightarrow> 0 < refs s l" for a
  proof (induction "d a" arbitrary: a rule: less_induct)
    case less
    obtain k where k: "ts a = Some k" using less.prems(2) by blast
    have pid: "1 < tpid k" using less.prems(1) found_init [of ts a k s] k by (metis not_less option.distinct(1))
    note p = task_treeD(1) [OF tree k]
    show ?case
    proof (cases "plink (procs s ! tpid k)")
      case (Some l')
      then have "l' = l" using found_here [OF inv cur k pid p Some] less.prems(1) by simp
      with Some p show ?thesis using refs_pos_iff by blast
    next
      case None
      then have up: "found ts s (tparent k) = Some l" using found_up [OF inv tree k pid None] less.prems(1) by simp
      then obtain b where b: "tparent k = Some b" by (cases "tparent k") simp_all
      show ?thesis by (rule less.hyps [OF d [OF k pid b]]) (use up b task_treeD(3) [OF tree k b] in simp_all)
    qed
  qed
  then show ?thesis using t ex by (cases t) auto
qed

text \<open>What is found is what is inherited.\<close>

lemma found_inherits:
  assumes inv: "link_inv s" and tree: "task_tree (length (procs s)) ts" and ex: "\<And>a. t = Some a \<Longrightarrow> ts a \<noteq> None"
  shows "inherits ts (view s) t (map_option (link_string s) (found ts s t))"
proof -
  obtain lk s' where s': "lookup_link ts t s = Some (Inr (lk, s'))" "walk_ok ts s t lk s'"
    using lookup_link_ok [OF tree inv ex] by metis
  have "link_string s' l = link_string s l" if "lk = Some l" for l
    by (rule shrinks_link_string) (use s'(2) that in \<open>simp_all add: walk_ok_def\<close>)
  then have "map_option (link_string s') lk = map_option (link_string s) lk" by (cases lk) simp_all
  with s' show ?thesis by (simp add: found_def walk_ok_def)
qed

section \<open>Readers\<close>

text \<open>
  A task whose slot was empty at first and for which \<open>lk\<close> is found; a slot and a start time that belong to such a task. \<open>s0\<close> is the table at
  the beginning.
\<close>

definition waits :: "tasks \<Rightarrow> link_state \<Rightarrow> addr option \<Rightarrow> tid \<Rightarrow> bool" where
  "waits ts s0 lk b \<longleftrightarrow>
     (\<exists>k. ts b = Some k \<and> 1 < tpid k \<and> tpid k < length (procs s0) \<and> plink (procs s0 ! tpid k) = None \<and> found ts s0 (Some b) = lk)"

definition fills :: "tasks \<Rightarrow> link_state \<Rightarrow> addr option \<Rightarrow> nat \<Rightarrow> 64 word \<Rightarrow> bool" where
  "fills ts s0 lk i st \<longleftrightarrow> (\<exists>b k. ts b = Some k \<and> tpid k = i \<and> tstart k = st \<and> waits ts s0 lk b)"

lemma fillsD:
  assumes "fills ts s0 lk i st"
  shows "i < length (procs s0)" "plink (procs s0 ! i) = None"
  using assms by (auto simp: fills_def waits_def)

lemma fills_unique:
  assumes "task_tree n ts" and "fills ts s0 lk i st" "fills ts s0 lk' i st'"
  shows "lk = lk'" "st = st'"
  using assms task_treeD(2) [OF assms(1)] unfolding fills_def waits_def by fastforce+

text \<open>The code of a call at any of its points, when \<open>lk\<close> is what it is to find; \<open>r\<close> is what the last lookup has returned.\<close>

definition tail :: "tasks \<Rightarrow> link_state \<Rightarrow> addr option \<Rightarrow> instr list \<Rightarrow> bool" where
  "tail ts s0 lk c \<longleftrightarrow> (\<forall>x \<in> set c. \<exists>b. (x = Cache b \<or> x = Give b) \<and> waits ts s0 lk b)"

definition pending :: "tasks \<Rightarrow> link_state \<Rightarrow> addr option \<Rightarrow> nat \<Rightarrow> instr list \<Rightarrow> bool" where
  "pending ts s0 lk i c \<longleftrightarrow>
     (\<exists>st d. c = Inc lk # Store lk i st # d \<and> fills ts s0 lk i st \<and> tail ts s0 lk d)"

fun reader :: "tasks \<Rightarrow> link_state \<Rightarrow> addr option \<Rightarrow> addr option \<Rightarrow> instr list \<Rightarrow> bool" where
  "reader ts s0 lk r [] = (r = lk)"
| "reader ts s0 lk r (Look t # c) = (found ts s0 t = lk \<and> (\<forall>a. t = Some a \<longrightarrow> ts a \<noteq> None) \<and> tail ts s0 lk c)"
| "reader ts s0 lk r (Cache b # c) = (r = lk \<and> waits ts s0 lk b \<and> tail ts s0 lk c)"
| "reader ts s0 lk r (Give b # c) = (r = lk \<and> waits ts s0 lk b \<and> tail ts s0 lk c)"
| "reader ts s0 lk r (Set l t # c) = (r = lk \<and> l = lk \<and> (\<exists>b. t = Some b \<and> waits ts s0 lk b) \<and> tail ts s0 lk c)"
| "reader ts s0 lk r (Check i # c) = (r = lk \<and> pending ts s0 lk i c)"
| "reader ts s0 lk r (Take i # c) =
     (r = lk \<and> (pending ts s0 lk i c \<or> lk = None \<and> (\<exists>st. fills ts s0 lk i st) \<and> tail ts s0 lk c))"
| "reader ts s0 lk r (Dec l # c) = (r = lk \<and> lk = Some l \<and> (\<exists>i d. c = Test l # d \<and> pending ts s0 lk i d))"
| "reader ts s0 lk r (Test l # c) = (r = lk \<and> lk = Some l \<and> (\<exists>i. pending ts s0 lk i c))"
| "reader ts s0 lk r (Destroy l # c) = False"
| "reader ts s0 lk r (Inc l # c) = (r = lk \<and> (\<exists>i. pending ts s0 lk i (Inc l # c)))"
| "reader ts s0 lk r (Store l i st # c) = (r = lk \<and> l = lk \<and> fills ts s0 lk i st \<and> tail ts s0 lk c)"

lemma tail_simps [simp]:
  "tail ts s0 lk []" "tail ts s0 lk (Cache b # c) \<longleftrightarrow> waits ts s0 lk b \<and> tail ts s0 lk c"
  "tail ts s0 lk (Give b # c) \<longleftrightarrow> waits ts s0 lk b \<and> tail ts s0 lk c"
  by (auto simp: tail_def)

lemma tail_reader: "tail ts s0 lk c \<Longrightarrow> reader ts s0 lk lk c"
  by (cases c) (auto simp: tail_def)

lemma pending_reader: "pending ts s0 lk i c \<Longrightarrow> reader ts s0 lk lk c"
  by (auto simp: pending_def)

lemma tail_weights: "tail ts s0 lk c \<Longrightarrow> weights l c = 0"
  by (induction c) (auto simp: tail_def)

lemma pending_weights: "pending ts s0 lk i c \<Longrightarrow> weights l c = 0"
  by (auto simp: pending_def tail_weights)

lemma reader_weights: "reader ts s0 lk r c \<Longrightarrow> 0 \<le> weights l c"
  by (cases "(ts, s0, lk, r, c)" rule: reader.cases) (auto simp: tail_weights dest: pending_weights [where l = l])

section \<open>The table under readers\<close>

definition count :: "link_state \<Rightarrow> addr \<Rightarrow> nat" where
  "count s l = (case links s l of None \<Rightarrow> 0 | Some k \<Rightarrow> unat (lcount k))"

text \<open>
  What readers do to the table: a slot that held a link is never changed, an empty one is empty or holds what its task inherits, and of the links
  only the counts change.
\<close>

definition grown :: "tasks \<Rightarrow> link_state \<Rightarrow> link_state \<Rightarrow> bool" where
  "grown ts s0 s \<longleftrightarrow>
     length (procs s) = length (procs s0) \<and> pid_max s = pid_max s0 \<and> bufs s = bufs s0 \<and>
     (\<forall>l. map_option ltext (links s l) = map_option ltext (links s0 l)) \<and>
     (\<forall>i < length (procs s0). procs s ! i = procs s0 ! i \<or>
        plink (procs s0 ! i) = None \<and>
        (plink (procs s ! i) = None \<or> (\<exists>l st. procs s ! i = \<lparr>plink = Some l, pstart = st\<rparr> \<and> fills ts s0 (Some l) i st)))"

lemma grownD:
  assumes "grown ts s0 s"
  shows "length (procs s) = length (procs s0)" "pid_max s = pid_max s0" "bufs s = bufs s0"
    and "map_option ltext (links s l) = map_option ltext (links s0 l)"
    and "i < length (procs s0) \<Longrightarrow> plink (procs s0 ! i) = Some l \<Longrightarrow> procs s ! i = procs s0 ! i"
    and "i < length (procs s0) \<Longrightarrow> plink (procs s0 ! i) = None \<Longrightarrow> plink (procs s ! i) = Some l \<Longrightarrow>
      \<exists>st. procs s ! i = \<lparr>plink = Some l, pstart = st\<rparr> \<and> fills ts s0 (Some l) i st"
  using assms unfolding grown_def by (fastforce)+

lemma grown_live: "grown ts s0 s \<Longrightarrow> links s0 l \<noteq> None \<Longrightarrow> links s l \<noteq> None"
  using grownD(4) [of ts s0 s l] by auto

lemma grown_held:
  assumes "grown ts s0 s" and "0 < refs s0 l"
  shows "0 < refs s l"
proof -
  obtain i where i: "i < length (procs s0)" "plink (procs s0 ! i) = Some l" using assms(2) refs_pos_iff by blast
  with grownD(1,5) [OF assms(1)] have "i < length (procs s)" "plink (procs s ! i) = Some l" by auto
  then show ?thesis using refs_pos_iff by blast
qed

lemma grown_link_string: "grown ts s0 s \<Longrightarrow> link_string s l = link_string s0 l"
  using grownD(3) [of ts s0 s] grownD(4) [of ts s0 s l] by (auto simp: link_string_def split: option.splits)

lemma grown_count:
  assumes "grown ts s0 s" and "links s l = Some k"
  shows "grown ts s0 (s\<lparr>links := (links s)(l \<mapsto> k\<lparr>lcount := x\<rparr>)\<rparr>)"
  using assms grownD(4) [OF assms(1), of l] unfolding grown_def by auto

lemma grown_slot:
  assumes "grown ts s0 s" and "i < length (procs s0)" "plink (procs s0 ! i) = None"
    and "plink p = None \<or> (\<exists>l st. p = \<lparr>plink = Some l, pstart = st\<rparr> \<and> fills ts s0 (Some l) i st)"
  shows "grown ts s0 (s\<lparr>procs := (procs s)[i := p]\<rparr>)"
  using assms unfolding grown_def by (auto simp: nth_list_update)

section \<open>One instruction of a reader\<close>

text \<open>
  What an instruction may do to the references of the links that were held at first: the difference between the references, those in flight
  included, and the count does not grow, and the count grows by at most 1.
\<close>

definition drift :: "link_state \<Rightarrow> instr list \<Rightarrow> link_state \<Rightarrow> instr list \<Rightarrow> bool" where
  "drift s c s' c' \<longleftrightarrow>
     (\<forall>l. int (refs s' l) + weights l c' - int (count s' l) \<le> int (refs s l) + weights l c - int (count s l) \<and>
       count s' l \<le> Suc (count s l))"

lemma drift_code:
  assumes "\<And>l. weights l c' \<le> weights l c"
  shows "drift s c s c'"
  using assms by (simp add: drift_def)

lemma unat_succ: "unat w + 1 < 2 ^ 32 \<Longrightarrow> unat (w + 1) = Suc (unat w)" for w :: "32 word"
  by (simp add: unat_word_ariths)

lemma unat_pred: "0 < unat w \<Longrightarrow> unat (w - 1) = unat w - 1" for w :: "32 word"
  by (rule unat_minus_one) auto

lemma inc_drift:
  assumes k: "links s l = Some k" and small: "count s l + 1 < 2 ^ 32"
  shows "drift s (Inc (Some l) # c) (s\<lparr>links := (links s)(l \<mapsto> k\<lparr>lcount := lcount k + 1\<rparr>)\<rparr>) c"
  using k unat_succ [of "lcount k"] small by (auto simp: drift_def count_def)

lemma dec_drift:
  assumes k: "links s l = Some k" and pos: "0 < count s l"
  shows "drift s (Dec l # c) (s\<lparr>links := (links s)(l \<mapsto> k\<lparr>lcount := lcount k - 1\<rparr>)\<rparr>) c"
  using k unat_pred [of "lcount k"] pos by (auto simp: drift_def count_def)

lemma take_drift:
  assumes "i < length (procs s)" and "plink p = None"
  shows "drift s (Take i # c) (s\<lparr>procs := (procs s)[i := p]\<rparr>)
    ((case plink (procs s ! i) of None \<Rightarrow> [] | Some l \<Rightarrow> [Dec l, Test l]) @ c)"
proof -
  have "int (refs (s\<lparr>procs := (procs s)[i := p]\<rparr>) l) = int (refs s l) - (if plink (procs s ! i) = Some l then 1 else 0)" for l
    using refs_update [OF assms(1), of p l] assms(2) by auto
  then show ?thesis by (auto simp: drift_def count_def split: option.split)
qed

lemma store_drift:
  assumes "i < length (procs s)" and "plink (procs s ! i) = None \<or> plink (procs s ! i) = plink p" and "plink p = lk"
  shows "drift s (Store lk i st # c) (s\<lparr>procs := (procs s)[i := p]\<rparr>) c"
proof -
  have "int (refs (s\<lparr>procs := (procs s)[i := p]\<rparr>) l) \<le> int (refs s l) + (if lk = Some l then 1 else 0)" for l
    using refs_update [OF assms(1), of p l] assms(2,3) by auto
  then show ?thesis using assms(3) by (auto simp: drift_def count_def)
qed

text \<open>What a slot of a waiting task can hold, and what the lookup at a task sees.\<close>

lemma fills_slot:
  assumes tree: "task_tree n ts" and g: "grown ts s0 s" and f: "fills ts s0 lk i st"
  shows "plink (procs s ! i) = None \<or> plink (procs s ! i) = lk"
proof (cases "plink (procs s ! i)")
  case (Some l)
  with grownD(6) [OF g fillsD [OF f]] obtain st' where "fills ts s0 (Some l) i st'" by blast
  from fills_unique(1) [OF tree f this] Some show ?thesis by simp
qed simp

lemma look_here:
  assumes inv: "link_inv s0" and tree: "task_tree (length (procs s0)) ts" and cur: "current_slots ts s0" and g: "grown ts s0 s"
    and k: "ts a = Some k" "1 < tpid k" and slot: "plink (procs s ! tpid k) = Some l"
  shows "found ts s0 (Some a) = Some l"
proof (cases "plink (procs s0 ! tpid k)")
  case (Some l')
  note p = task_treeD(1) [OF tree k(1)]
  have "l' = l" using grownD(5) [OF g p Some] Some slot by simp
  with found_here [OF inv cur k p Some] show ?thesis by simp
next
  case None
  then have "fills ts s0 (found ts s0 (Some a)) (tpid k) (tstart k)"
    using k task_treeD(1) [OF tree k(1)] by (auto simp: fills_def waits_def)
  from fills_slot [OF tree g this] slot show ?thesis by simp
qed

lemma look_up:
  assumes inv: "link_inv s0" and tree: "task_tree (length (procs s0)) ts" and cur: "current_slots ts s0" and g: "grown ts s0 s"
    and k: "ts a = Some k" "1 < tpid k" and slot: "plink (procs s ! tpid k) = None \<or> pstart (procs s ! tpid k) \<noteq> tstart k"
  shows "waits ts s0 (found ts s0 (Some a)) a" "found ts s0 (tparent k) = found ts s0 (Some a)"
proof -
  note p = task_treeD(1) [OF tree k(1)]
  have none: "plink (procs s0 ! tpid k) = None"
    using grownD(5) [OF g p] cur k slot by (cases "plink (procs s0 ! tpid k)") (auto simp: current_slots_def)
  with k p show "waits ts s0 (found ts s0 (Some a)) a" by (auto simp: waits_def)
  show "found ts s0 (tparent k) = found ts s0 (Some a)" using found_up [OF inv tree k none] by simp
qed

text \<open>An instruction of a reader never fails, and what is left is the code of a reader.\<close>

definition moves :: "tasks \<Rightarrow> link_state \<Rightarrow> addr option \<Rightarrow> instr \<Rightarrow> instr list \<Rightarrow> addr option \<Rightarrow> link_state \<Rightarrow> bool" where
  "moves ts s0 lk x c r s \<longleftrightarrow>
     (\<exists>new r' s'. exec ts x r s = Inr (new, r', s') \<and> reader ts s0 lk r' (new @ c) \<and> grown ts s0 s' \<and> drift s (x # c) s' (new @ c))"

lemma movesI:
  "exec ts x r s = Inr (new, r', s') \<Longrightarrow> reader ts s0 lk r' (new @ c) \<Longrightarrow> grown ts s0 s' \<Longrightarrow> drift s (x # c) s' (new @ c) \<Longrightarrow>
   moves ts s0 lk x c r s"
  by (auto simp: moves_def)

lemma reader_look:
  assumes inv: "link_inv s0" and tree: "task_tree (length (procs s0)) ts" and cur: "current_slots ts s0"
    and g: "grown ts s0 s" and code: "reader ts s0 lk r (Look t # c)"
  shows "moves ts s0 lk (Look t) c r s"
proof -
  have t: "found ts s0 t = lk" "\<And>a. t = Some a \<Longrightarrow> ts a \<noteq> None" "tail ts s0 lk c" using code by auto
  have fin: ?thesis if "exec ts (Look t) r s = Inr ([], lk, s)"
    using tail_reader [OF t(3)] by (intro movesI [OF that _ g]) (auto intro: drift_code)
  show ?thesis
  proof (cases t)
    case None
    with t(1) show ?thesis by (intro fin) simp
  next
    case (Some a)
    obtain k where k: "ts a = Some k" using t(2) [OF Some] by blast
    have p: "tpid k < length (procs s)" "tpid k \<le> unat (pid_max s)"
      using task_treeD(1) [OF tree k] grownD(1,2) [OF g] link_invD(1) [OF inv] by simp_all
    consider (init) "tpid k \<le> 1" | (own) l where "1 < tpid k" "plink (procs s ! tpid k) = Some l" "pstart (procs s ! tpid k) = tstart k"
      | (up) "1 < tpid k" "plink (procs s ! tpid k) = None \<or> pstart (procs s ! tpid k) \<noteq> tstart k"
      by (cases "plink (procs s ! tpid k)") force+
    then show ?thesis
    proof cases
      case init
      then have "tpid k = 0 \<or> tpid k = 1" by linarith
      with Some k t(1) found_init [of ts a k s0] show ?thesis by (intro fin) auto
    next
      case own
      then have "lk = Some l" using look_here [OF inv tree cur g k] t(1) Some by simp
      with own Some k p show ?thesis by (intro fin) simp
    next
      case up
      note w = look_up [OF inv tree cur g k up]
      have "ts b \<noteq> None" if "tparent k = Some b" for b using task_treeD(3) [OF tree k that] .
      with up Some k p w t g show ?thesis
        by (intro movesI [where new = "[Look (tparent k), Cache a]" and s' = s]) (auto intro: drift_code)
    qed
  qed
qed

lemma reader_slots:
  assumes inv: "link_inv s0" and tree: "task_tree (length (procs s0)) ts" and g: "grown ts s0 s" and code: "reader ts s0 lk r (x # c)"
    and x: "x \<in> {Take i, Check i} \<or> x = Store l i st"
  shows "moves ts s0 lk x c r s"
proof -
  obtain st' where f: "r = lk" "fills ts s0 lk i st'" using code x by (auto simp: pending_def)
  have i: "i < length (procs s)" using fillsD(1) [OF f(2)] grownD(1) [OF g] by simp
  note held = fills_slot [OF tree g f(2)]
  consider (take) "x = Take i" "pending ts s0 lk i c \<or> lk = None \<and> tail ts s0 lk c" | (check) "x = Check i" "pending ts s0 lk i c"
    | (store) "x = Store lk i st" "fills ts s0 lk i st" "tail ts s0 lk c"
    using code x by auto
  then show ?thesis
  proof cases
    case take
    let ?p = "\<lparr>plink = None, pstart = 0\<rparr>"
    let ?new = "case plink (procs s ! i) of None \<Rightarrow> [] | Some l \<Rightarrow> [Dec l, Test l]"
    have "exec ts x r s = Inr (?new, lk, s\<lparr>procs := (procs s)[i := ?p]\<rparr>)" using take(1) i f(1) by simp
    moreover have "reader ts s0 lk lk (?new @ c)"
      using held take(2) pending_reader tail_reader by (auto split: option.split)
    moreover have "grown ts s0 (s\<lparr>procs := (procs s)[i := ?p]\<rparr>)" by (rule grown_slot [OF g fillsD [OF f(2)]]) simp
    ultimately show ?thesis using take_drift [OF i, of ?p c] take(1) by (intro movesI) auto
  next
    case check
    then show ?thesis using i f g by (auto simp: moves_def intro: drift_code pending_reader)
  next
    case store
    let ?p = "\<lparr>plink = lk, pstart = st\<rparr>"
    have "grown ts s0 (s\<lparr>procs := (procs s)[i := ?p]\<rparr>)"
      by (rule grown_slot [OF g fillsD [OF f(2)]]) (use store(2) in \<open>cases lk; simp\<close>)
    moreover have "drift s (Store lk i st # c) (s\<lparr>procs := (procs s)[i := ?p]\<rparr>) c"
      using held i by (intro store_drift) auto
    ultimately show ?thesis using store f(1) i tail_reader by (intro movesI [where new = "[]"]) auto
  qed
qed

lemma reader_counts:
  assumes g: "grown ts s0 s" and code: "reader ts s0 lk r (x # c)" and x: "x \<in> {Dec l, Test l} \<or> x = Inc m"
    and cnt: "\<And>l. lk = Some l \<Longrightarrow> weights l (x # c) < int (count s l) \<and> count s l + 1 < 2 ^ 32 \<and> links s l \<noteq> None"
  shows "moves ts s0 lk x c r s"
proof (cases lk)
  case None
  with code x have "x = Inc None" "r = None" "reader ts s0 None None c" by (auto simp: pending_def)
  with None g show ?thesis by (auto simp: moves_def intro: drift_code)
next
  case (Some l')
  obtain k where k: "links s l' = Some k" using cnt [OF Some] by blast
  have pos: "0 < count s l'" using cnt [OF Some] reader_weights [OF code, of l'] by linarith
  then have "lcount k \<noteq> 0" using k by (auto simp: count_def)
  have small: "count s l' + 1 < 2 ^ 32" using cnt [OF Some] by blast
  have r: "r = Some l'" using code x Some by auto
  consider (dec) "x = Dec l'" | (test) "x = Test l'" | (inc) "x = Inc (Some l')" using code x Some by (auto simp: pending_def)
  then show ?thesis
  proof cases
    case dec
    then have "reader ts s0 lk r c" using code by auto
    with dec r k grown_count [OF g k] dec_drift [OF k pos] show ?thesis by (auto simp: moves_def atomic_add_def)
  next
    case test
    then have "reader ts s0 lk r c" using code pending_reader by auto
    with test r k \<open>lcount k \<noteq> 0\<close> g show ?thesis by (auto simp: moves_def intro: drift_code)
  next
    case inc
    then have "reader ts s0 lk r c" using code by (auto simp: pending_def)
    with inc r k grown_count [OF g k] inc_drift [OF k small] show ?thesis by (auto simp: moves_def atomic_add_def)
  qed
qed

lemma exec_reader:
  assumes inv: "link_inv s0" and tree: "task_tree (length (procs s0)) ts" and cur: "current_slots ts s0"
    and g: "grown ts s0 s" and code: "reader ts s0 lk r (x # c)"
    and cnt: "\<And>l. lk = Some l \<Longrightarrow> weights l (x # c) < int (count s l) \<and> count s l + 1 < 2 ^ 32 \<and> links s l \<noteq> None"
  shows "moves ts s0 lk x c r s"
proof (cases x)
  case (Look t)
  from code [unfolded Look] have "moves ts s0 lk (Look t) c r s" by (rule reader_look [OF inv tree cur g])
  with Look show ?thesis by simp
next
  case (Cache b)
  then obtain k where k: "ts b = Some k" "waits ts s0 lk b" "r = lk" "tail ts s0 lk c" using code by (auto simp: waits_def)
  then have "fills ts s0 lk (tpid k) (tstart k)" by (auto simp: fills_def)
  with Cache k g show ?thesis by (auto simp: moves_def intro: drift_code)
next
  case (Give b)
  with code g show ?thesis by (auto simp: moves_def intro: drift_code)
next
  case (Set l t)
  then obtain b where b: "t = Some b" "waits ts s0 lk b" "r = lk" "l = lk" "tail ts s0 lk c" using code by auto
  then obtain k where k: "ts b = Some k" "tpid k < length (procs s0)" by (auto simp: waits_def)
  then have "fills ts s0 lk (tpid k) (tstart k)" using b(2) by (auto simp: fills_def)
  with Set k b g grownD(2) [OF g] link_invD(1) [OF inv] show ?thesis by (auto simp: moves_def pending_def intro!: drift_code)
qed (use code reader_slots [OF inv tree g code] reader_counts [OF g code _ cnt] in auto)

section \<open>Any number of readers and forks\<close>

text \<open>
  A call is that of a task that reads the link, or that of a task that forks, with its child; and the threads that make the calls.
\<close>

type_synonym call = "tid \<times> tid option"

definition call_ok :: "tasks \<Rightarrow> link_state \<Rightarrow> call \<Rightarrow> bool" where
  "call_ok ts s = (\<lambda>(a, child). ts a \<noteq> None \<and>
     (\<forall>c. child = Some c \<longrightarrow> (\<exists>k. ts c = Some k \<and> 1 < tpid k \<and> tparent k = Some a \<and> plink (procs s ! tpid k) = None)))"

definition readers :: "call list \<Rightarrow> thread list" where
  "readers as = map (\<lambda>(a, child). \<lparr>code = Look (Some a) # (case child of None \<Rightarrow> [] | Some c \<Rightarrow> [Give c]), reg = None\<rparr>) as"

text \<open>The invariant of the threads after at most \<open>n\<close> steps.\<close>

definition read_inv :: "tasks \<Rightarrow> link_state \<Rightarrow> call list \<Rightarrow> nat \<Rightarrow> thread list \<times> link_state \<Rightarrow> bool" where
  "read_inv ts s0 as n X \<longleftrightarrow>
     length (fst X) = length as \<and> grown ts s0 (snd X) \<and>
     (\<forall>j < length as. reader ts s0 (found ts s0 (Some (fst (as ! j)))) (reg (fst X ! j)) (code (fst X ! j))) \<and>
     (\<forall>l. 0 < refs s0 l \<longrightarrow>
        int (refs (snd X) l) + in_flight l (fst X) \<le> int (count (snd X) l) \<and> count (snd X) l \<le> length (procs s0) + n)"

lemma call_okD:
  assumes "\<forall>a \<in> set as. call_ok ts s0 a" and "j < length as"
  shows "ts (fst (as ! j)) \<noteq> None"
  using assms(1) [rule_format, OF nth_mem [OF assms(2)]] by (simp add: call_ok_def case_prod_unfold)

lemma read_inv_start:
  assumes inv: "link_inv s0" and tree: "task_tree (length (procs s0)) ts" and ex: "\<forall>a \<in> set as. call_ok ts s0 a"
  shows "read_inv ts s0 as 0 (readers as, s0)"
proof -
  have "count s0 l = refs s0 l" if h: "0 < refs s0 l" for l
  proof -
    obtain i where "i < length (procs s0)" "plink (procs s0 ! i) = Some l" using h unfolding refs_pos_iff by blast
    from link_invD(3) [OF inv this] obtain k where k: "links s0 l = Some k" by blast
    with link_invD(5) [OF inv k] show ?thesis by (simp add: count_def)
  qed
  moreover have "in_flight l (readers as) = 0" for l
    by (induction as) (auto simp: in_flight_def readers_def split: option.split)
  moreover have "grown ts s0 s0" by (simp add: grown_def)
  moreover have "reader ts s0 (found ts s0 (Some (fst (as ! j)))) (reg (readers as ! j)) (code (readers as ! j))" if "j < length as" for j
  proof -
    obtain a child where a: "as ! j = (a, child)" by (cases "as ! j")
    have ok: "call_ok ts s0 (a, child)" using ex nth_mem [OF that] a by simp
    have "waits ts s0 (found ts s0 (Some a)) c" if c: "child = Some c" for c
    proof -
      obtain k where k: "ts c = Some k" "1 < tpid k" "tparent k = Some a" "plink (procs s0 ! tpid k) = None"
        using ok c by (auto simp: call_ok_def)
      then show ?thesis using found_up [OF inv tree k(1,2,4)] task_treeD(1) [OF tree k(1)] by (auto simp: waits_def)
    qed
    with ok a that show ?thesis by (auto simp: readers_def call_ok_def split: option.split)
  qed
  ultimately show ?thesis by (simp add: read_inv_def refs_le) (simp add: readers_def)
qed

lemma read_inv_exec:
  assumes inv: "link_inv s0" and tree: "task_tree (length (procs s0)) ts" and cur: "current_slots ts s0"
    and ex: "\<forall>a \<in> set as. call_ok ts s0 a" and r: "read_inv ts s0 as n (T, s)" and small: "length (procs s0) + n + 1 < 2 ^ 32"
    and j: "j < length T" "code (T ! j) = x # c"
  shows "\<exists>new q s'. exec ts x (reg (T ! j)) s = Inr (new, q, s') \<and> read_inv ts s0 as (Suc n) (T[j := \<lparr>code = new @ c, reg = q\<rparr>], s')"
proof -
  have len: "length T = length as" and g: "grown ts s0 s" using r by (simp_all add: read_inv_def)
  have rd: "reader ts s0 (found ts s0 (Some (fst (as ! i)))) (reg (T ! i)) (code (T ! i))" if "i < length as" for i
    using r that by (simp add: read_inv_def)
  have cn: "int (refs s l) + in_flight l T \<le> int (count s l)" "count s l \<le> length (procs s0) + n" if "0 < refs s0 l" for l
    using r that by (simp_all add: read_inv_def)
  let ?lk = "found ts s0 (Some (fst (as ! j)))"
  have rj: "reader ts s0 ?lk (reg (T ! j)) (x # c)" using rd [of j] j len by simp
  have fly: "weights l (x # c) \<le> in_flight l T" for l
  proof -
    have "\<forall>t \<in> set T. 0 \<le> weights l (code t)" using rd len reader_weights by (metis in_set_conv_nth)
    then have "weights l (code (T ! j)) \<le> sum_list (map (\<lambda>t. weights l (code t)) T)" using j(1) by (intro member_le_sum_list) auto
    then show ?thesis using j(2) by (simp add: in_flight_def)
  qed
  have cnt: "weights l (x # c) < int (count s l) \<and> count s l + 1 < 2 ^ 32 \<and> links s l \<noteq> None" if l: "?lk = Some l" for l
  proof -
    have "ts (fst (as ! j)) \<noteq> None" using call_okD [OF ex] j(1) len by simp
    then have h: "0 < refs s0 l" using found_held [OF inv tree cur l] by simp
    obtain i where "i < length (procs s0)" "plink (procs s0 ! i) = Some l" using h refs_pos_iff by blast
    then have "links s0 l \<noteq> None" using link_invD(3) [OF inv] by blast
    with cn [OF h] fly [of l] grown_held [OF g h] grown_live [OF g] small show ?thesis by force
  qed
  obtain new q s' where new: "exec ts x (reg (T ! j)) s = Inr (new, q, s')" "reader ts s0 ?lk q (new @ c)" "grown ts s0 s'"
      "drift s (x # c) s' (new @ c)"
    using exec_reader [OF inv tree cur g rj cnt] unfolding moves_def by blast
  have "int (refs s' l) + in_flight l (T[j := \<lparr>code = new @ c, reg = q\<rparr>]) \<le> int (count s' l) \<and> count s' l \<le> length (procs s0) + Suc n"
    if "0 < refs s0 l" for l
    using new(4) [unfolded drift_def, rule_format, of l] cn [OF that] in_flight_update [OF j(1), of l "\<lparr>code = new @ c, reg = q\<rparr>"] j(2)
    by auto
  moreover have "reader ts s0 (found ts s0 (Some (fst (as ! i)))) (reg (T[j := \<lparr>code = new @ c, reg = q\<rparr>] ! i)) (code (T[j := \<lparr>code = new @ c, reg = q\<rparr>] ! i))"
    if "i < length as" for i
    using rd [OF that] new(2) that len by (cases "i = j") simp_all
  ultimately show ?thesis using new(1,3) len by (simp add: read_inv_def)
qed

section \<open>Every reader comes to its end\<close>

text \<open>A depth of the process tree that is below the number of slots: how many tasks are less deep.\<close>

lemma task_tree_rank:
  assumes tree: "task_tree n ts"
  obtains d :: "tid \<Rightarrow> nat"
  where "\<And>a k p. ts a = Some k \<Longrightarrow> 1 < tpid k \<Longrightarrow> tparent k = Some p \<Longrightarrow> d p < d a" and "\<And>a. d a \<le> n"
proof -
  obtain d :: "tid \<Rightarrow> nat" where d: "\<And>a k p. ts a = Some k \<Longrightarrow> 1 < tpid k \<Longrightarrow> tparent k = Some p \<Longrightarrow> d p < d a"
    using task_tree_depth [OF tree] by metis
  define S where "S a = {tpid k |b k. ts b = Some k \<and> d b < d a}" for a
  have sub: "S a \<subseteq> {..<n}" for a using task_treeD(1) [OF tree] by (auto simp: S_def)
  then have fin: "finite (S a)" for a by (rule finite_subset) simp
  have "card (S p) < card (S a)" if k: "ts a = Some k" "1 < tpid k" "tparent k = Some p" for a k p
  proof (rule psubset_card_mono [OF fin])
    obtain q where q: "ts p = Some q" using task_treeD(3) [OF tree k(1,3)] by blast
    have "tpid q \<in> S a" using q d [OF k] by (auto simp: S_def)
    moreover have "tpid q \<notin> S p" using task_treeD(2) [OF tree q] by (auto simp: S_def)
    moreover have "S p \<subseteq> S a" using d [OF k] less_trans by (auto simp: S_def) blast
    ultimately show "S p \<subset> S a" by blast
  qed
  moreover have "card (S a) \<le> n" for a using card_mono [OF _ sub [of a]] by simp
  ultimately show ?thesis by (rule that [of "\<lambda>a. card (S a)"])
qed

text \<open>How many instructions a reader can still execute.\<close>

fun read_size :: "(tid \<Rightarrow> nat) \<Rightarrow> instr \<Rightarrow> nat" where
  "read_size d (Look t) = (case t of None \<Rightarrow> 1 | Some a \<Rightarrow> 11 + 10 * d a)"
| "read_size d (Cache a) = 9"
| "read_size d (Give a) = 9"
| "read_size d x = size_of x"

definition read_todo :: "(tid \<Rightarrow> nat) \<Rightarrow> thread list \<Rightarrow> nat" where
  "read_todo d T = sum_list (map (\<lambda>t. sum_list (map (read_size d) (code t))) T)"

lemma read_todo_step:
  assumes d: "\<And>a k p. ts a = Some k \<Longrightarrow> 1 < tpid k \<Longrightarrow> tparent k = Some p \<Longrightarrow> d p < d a"
    and j: "j < length T" "code (T ! j) = x # c" and ex: "exec ts x r s = Inr (new, q, s')"
  shows "read_todo d (T[j := \<lparr>code = new @ c, reg = q\<rparr>]) < read_todo d T"
proof -
  have look: "sum_list (map (read_size d) new) < read_size d x" if "x = Look t" for t
    using ex that d by (auto split: option.splits if_splits) (fastforce+)
  have "sum_list (map (read_size d) new) < read_size d x"
  proof (cases x)
    case (Look t)
    then show ?thesis by (rule look)
  qed (use ex in \<open>auto simp: ebind_Inr_iff split: option.splits if_splits\<close>)
  moreover have "sum_list (map (read_size d) (x # c)) \<le> read_todo d T"
    unfolding read_todo_def using j member_le_sum_list [of "sum_list (map (read_size d) (code (T ! j)))"] by (auto simp: j(2) [symmetric])
  ultimately show ?thesis using j by (simp add: read_todo_def map_update sum_list_update)
qed

text \<open>A bound on the steps of all readers.\<close>

definition read_steps :: "link_state \<Rightarrow> call list \<Rightarrow> nat" where
  "read_steps s as = length as * (20 + 10 * length (procs s))"

lemma read_run:
  assumes inv: "link_inv s0" and tree: "task_tree (length (procs s0)) ts" and cur: "current_slots ts s0"
    and ex: "\<forall>a \<in> set as. call_ok ts s0 a" and small: "length (procs s0) + read_steps s0 as < 2 ^ 32"
    and run: "(lstep ts ^^ n) (readers as, s0) X"
  shows "n \<le> read_steps s0 as \<and> read_inv ts s0 as n X"
proof -
  obtain d :: "tid \<Rightarrow> nat" where d: "\<And>a k p. ts a = Some k \<Longrightarrow> 1 < tpid k \<Longrightarrow> tparent k = Some p \<Longrightarrow> d p < d a"
      and le: "\<And>a. d a \<le> length (procs s0)"
    using task_tree_rank [OF tree] by blast
  have "10 * d a \<le> 10 * length (procs s0)" for a using le by simp
  then have "read_todo d (readers as) \<le> sum_list (map (\<lambda>_. 20 + 10 * length (procs s0)) as)"
    unfolding read_todo_def readers_def map_map by (intro sum_list_mono) (auto simp: trans_le_add2 split: option.split)
  then have start: "read_todo d (readers as) \<le> read_steps s0 as" by (simp add: read_steps_def sum_list_triv)
  have "n + read_todo d (fst X) \<le> read_todo d (readers as) \<and> read_inv ts s0 as n X"
    using run
  proof (induction n arbitrary: X)
    case 0
    then show ?case using read_inv_start [OF inv tree ex] by auto
  next
    case (Suc n)
    then obtain T s where Z: "(lstep ts ^^ n) (readers as, s0) (T, s)" "lstep ts (T, s) X" by auto
    note IH = Suc.IH [OF Z(1)]
    from Z(2) obtain j x c new q s' where j: "j < length T" "code (T ! j) = x # c" "exec ts x (reg (T ! j)) s = Inr (new, q, s')"
        and X: "X = (T[j := \<lparr>code = new @ c, reg = q\<rparr>], s')"
      by (rule lstepE)
    have todo: "read_todo d (fst X) < read_todo d T" using read_todo_step [OF d j] X by simp
    then have "length (procs s0) + n + 1 < 2 ^ 32" using IH start small by simp
    from read_inv_exec [OF inv tree cur ex conjunct2 [OF IH] this j(1,2)] j(3) X have "read_inv ts s0 as (Suc n) X" by auto
    with IH todo show ?case by simp
  qed
  with start show ?thesis by simp
qed

lemma read_inv_no_fault:
  assumes inv: "link_inv s0" and tree: "task_tree (length (procs s0)) ts" and cur: "current_slots ts s0"
    and ex: "\<forall>a \<in> set as. call_ok ts s0 a" and small: "length (procs s0) + n + 1 < 2 ^ 32" and r: "read_inv ts s0 as n (T, s)"
  shows "\<not> lfault ts f (T, s)"
proof
  assume "lfault ts f (T, s)"
  then obtain j x c where j: "j < length T" "code (T ! j) = x # c" "exec ts x (reg (T ! j)) s = Inl f" by (auto simp: lfault_def)
  with read_inv_exec [OF inv tree cur ex r small j(1,2)] show False by auto
qed

lemma read_inv_caches:
  assumes inv: "link_inv s0" and tree: "task_tree (length (procs s0)) ts" and g: "grown ts s0 s"
  shows "caches ts (view s0) (view s)"
  unfolding caches_def
proof (intro allI impI)
  fix a k assume k: "ts a = Some k" "1 < tpid k"
  note p = task_treeD(1) [OF tree k(1)]
  have view: "view s (tpid k) = map_option (\<lambda>l. (link_string s0 l, pstart (procs s ! tpid k))) (plink (procs s ! tpid k))"
    using p grownD(1) [OF g] by (simp add: view_def grown_link_string [OF g])
  show "own (view s) k = own (view s0) k \<or>
      own (view s0) k = None \<and> (\<exists>x. own (view s) k = Some x \<and> inherits ts (view s0) (Some a) (Some x))"
  proof (cases "plink (procs s0 ! tpid k)")
    case (Some l)
    with grownD(5) [OF g p Some] p view show ?thesis by (simp add: own_def view_def)
  next
    case None
    then have own0: "own (view s0) k = None" by (simp add: own_def view_def)
    show ?thesis
    proof (cases "plink (procs s ! tpid k)")
      case None
      with own0 view show ?thesis by (simp add: own_def)
    next
      case (Some l)
      obtain st where st: "procs s ! tpid k = \<lparr>plink = Some l, pstart = st\<rparr>" "fills ts s0 (Some l) (tpid k) st"
        using grownD(6) [OF g p None Some] by blast
      then obtain b q where b: "ts b = Some q" "tpid q = tpid k" "tstart q = st" "waits ts s0 (Some l) b" by (auto simp: fills_def)
      have "b = a" using task_treeD(2) [OF tree b(1) k(1)] b(2) by simp
      with b k have eq: "st = tstart k" "found ts s0 (Some a) = Some l" by (auto simp: waits_def)
      have "inherits ts (view s0) (Some a) (Some (link_string s0 l))"
        using found_inherits [OF inv tree, of "Some a"] k(1) eq(2) by simp
      with own0 view st eq show ?thesis by (simp add: own_def)
    qed
  qed
qed

section \<open>Properties\<close>

text \<open>
  C15. Concurrent readers and forks are safe as long as no slot of a living process is stale: however any number of calls of \<^verbatim>\<open>lookup_link\<close> and of
  \<^verbatim>\<open>chos_do_fork\<close>, by any processes, are interleaved, no instruction ever fails; every call that has returned has found the link whose text its process
  inherits, and that link is live at every later time; and what every process inherits, the new children included, is what it inherited at the
  beginning. All calls together have at most \<open>read_steps\<close> steps, and where no further step is possible all have returned.
\<close>

theorem concurrent_readers_correct:
  assumes inv: "link_inv s0" and tree: "task_tree (length (procs s0)) ts" and cur: "current_slots ts s0"
    and ex: "\<forall>a \<in> set as. call_ok ts s0 a" and small: "length (procs s0) + read_steps s0 as + 1 < 2 ^ 32"
    and run: "(lstep ts ^^ n) (readers as, s0) (T, s)"
  shows "n \<le> read_steps s0 as \<and> (\<forall>f. \<not> lfault ts f (T, s)) \<and> ((\<forall>Y. \<not> lstep ts (T, s) Y) \<longrightarrow> (\<forall>t \<in> set T. code t = [])) \<and>
    (\<forall>j < length as. code (T ! j) = [] \<longrightarrow>
       inherits ts (view s0) (Some (fst (as ! j))) (map_option (link_string s) (reg (T ! j))) \<and> (\<forall>l. reg (T ! j) = Some l \<longrightarrow> links s l \<noteq> None)) \<and>
    (\<forall>u q. inherits ts (view s) u q \<longleftrightarrow> inherits ts (view s0) u q)"
proof -
  have n: "n \<le> read_steps s0 as" and r: "read_inv ts s0 as n (T, s)" using read_run [OF inv tree cur ex _ run] small by simp_all
  have g: "grown ts s0 s" and len: "length T = length as" using r by (simp_all add: read_inv_def)
  have sm: "length (procs s0) + n + 1 < 2 ^ 32" using n small by simp
  have nf: "\<not> lfault ts f (T, s)" for f by (rule read_inv_no_fault [OF inv tree cur ex sm r])
  have fin: "code (T ! j) = []" if stuck: "\<forall>Y. \<not> lstep ts (T, s) Y" and j: "j < length T" for j
  proof (cases "code (T ! j)")
    case (Cons x c)
    from read_inv_exec [OF inv tree cur ex r sm j Cons] lstep.run [OF j Cons] stuck show ?thesis by blast
  qed
  have res: "inherits ts (view s0) (Some (fst (as ! j))) (map_option (link_string s) (reg (T ! j))) \<and> (\<forall>l. reg (T ! j) = Some l \<longrightarrow> links s l \<noteq> None)"
    if j: "j < length as" "code (T ! j) = []" for j
  proof -
    have reg: "reg (T ! j) = found ts s0 (Some (fst (as ! j)))"
      using r j unfolding read_inv_def by (metis fst_conv reader.simps(1))
    have t: "ts (fst (as ! j)) \<noteq> None" by (rule call_okD [OF ex j(1)])
    have "inherits ts (view s0) (Some (fst (as ! j))) (map_option (link_string s0) (found ts s0 (Some (fst (as ! j)))))"
      using found_inherits [OF inv tree, of "Some (fst (as ! j))"] t by simp
    moreover have "links s l \<noteq> None" if "found ts s0 (Some (fst (as ! j))) = Some l" for l
    proof -
      have "0 < refs s0 l" using found_held [OF inv tree cur that] t by simp
      then show ?thesis using link_invD(3) [OF inv] grown_live [OF g] unfolding refs_pos_iff by blast
    qed
    ultimately show ?thesis unfolding reg by (simp add: grown_link_string [OF g] cong: option.map_cong)
  qed
  have same: "inherits ts (view s) u q \<longleftrightarrow> inherits ts (view s0) u q" for u q
    by (rule caches_inherits_iff [OF tree read_inv_caches [OF inv tree g]])
  have "\<forall>t \<in> set T. code t = []" if "\<forall>Y. \<not> lstep ts (T, s) Y" using fin [OF that] by (metis in_set_conv_nth)
  with n nf res same show ?thesis by blast
qed

text \<open>
  \<^verbatim>\<open>cleanup_links\<close>, which every accepted write to \<^verbatim>\<open>setchos\<close> and every write to \<^verbatim>\<open>resetchos\<close> call, brings this about: after it no slot is stale.
\<close>

lemma cleanup_makes_current:
  assumes inv: "link_inv s" and tree: "task_tree (length (procs s)) ts" and f: "finds ts find_task"
  shows "\<exists>s'. cleanup_links ts find_task s = Inr s' \<and> link_inv s' \<and> current_slots ts s'"
proof -
  obtain s' where s': "cleanup_links ts find_task s = Inr s'" "link_inv s'" "shrinks s s'" "\<And>i. view s' i = prune ts find_task i (view s) i"
    using cleanup_links_sweeps [OF inv finds_imp_live [OF f]] by metis
  have "pstart (procs s' ! tpid k) = tstart k" if k: "ts a = Some k" "plink (procs s' ! tpid k) \<noteq> None" for a k
  proof -
    obtain l where l: "plink (procs s' ! tpid k) = Some l" using k(2) by blast
    have "tpid k < length (procs s')" using task_treeD(1) [OF tree k(1)] shrinksD(1) [OF s'(3)] by simp
    then have "view s' (tpid k) = Some (link_string s' l, pstart (procs s' ! tpid k))" using l by (simp add: view_def)
    then have "\<not> stale ts find_task (tpid k) (pstart (procs s' ! tpid k))"
      using s'(4) [of "tpid k"] by (auto simp: prune_def split: option.splits if_splits)
    then show ?thesis using stale_iff [OF tree f] task_treeD(2) [OF tree] k(1) by (metis option.inject)
  qed
  with s'(1,2) show ?thesis by (auto simp: current_slots_def)
qed

text \<open>
  C40. With stale slots even reading is not safe: when two new processes, children of the init task, have got the pids of two dead processes that shared a link,
  and both read the special link at the same time, both drop the link of their slot, both see its count at zero, and one frees
  it after the other has.
\<close>

theorem reader_race_double_free:
  assumes inv: "link_inv s" and a: "ts a = Some ka" "1 < tpid ka" "tpid ka < length (procs s)" "tparent ka = Some p"
      "plink (procs s ! tpid ka) = Some l" "pstart (procs s ! tpid ka) \<noteq> tstart ka"
    and b: "ts b = Some kb" "1 < tpid kb" "tpid kb < length (procs s)" "tparent kb = Some p"
      "plink (procs s ! tpid kb) = Some l" "pstart (procs s ! tpid kb) \<noteq> tstart kb"
    and p: "ts p = Some kp" "tpid kp = 1" and two: "tpid ka \<noteq> tpid kb" "refs s l = 2"
  shows "\<exists>T s'. (lstep ts)\<^sup>*\<^sup>* (readers [(a, None), (b, None)], s) (T, s') \<and> code (T ! 1) = [Destroy l] \<and> links s' l = None \<and> lfault ts Use_After_Free (T, s')"
proof -
  obtain k where k: "links s l = Some k" using link_invD(3) [OF inv a(3,5)] by blast
  have "unat (lcount k) = 2" using link_invD(5) [OF inv k] two(2) by simp
  then have c: "lcount k = 2" by (simp add: word_unat_eq_iff)
  obtain x where x: "bufs s (ltext k) = Some x" using link_invD(4) [OF inv k] by blast
  have le: "tpid ka \<le> unat (pid_max s)" "tpid kb \<le> unat (pid_max s)" using a(3) b(3) link_invD(1) [OF inv] by simp_all
  let ?t = "\<lambda>c. \<lparr>code = c, reg = None\<rparr>"
  let ?e = "\<lparr>plink = None, pstart = 0 :: 64 word\<rparr>"
  let ?s = "s\<lparr>procs := (procs s)[tpid ka := ?e, tpid kb := ?e], links := (links s)(l := None), bufs := (bufs s)(ltext k := None)\<rparr>"
  let ?T = "[?t [], ?t [Destroy l]]"
  have look: "sched ts [0, 0, 0, 1, 1, 1] (readers [(a, None), (b, None)], s) = Some ([?t [Take (tpid ka)], ?t [Take (tpid kb)]], s)"
    using a b p le by (simp add: readers_def)
  have drop: "sched ts [0, 1, 0, 1, 1, 0, 0] ([?t [Take (tpid ka)], ?t [Take (tpid kb)]], s) = Some (?T, ?s)"
    using a b two(1) k c x by (simp add: atomic_add_def destroy_link_def)
  have "lfault ts Use_After_Free (?T, ?s)"
    unfolding lfault_def by (intro exI [of _ 1] exI [of _ "Destroy l"] exI [of _ "[]"]) (simp add: destroy_link_def)
  then show ?thesis
    using rtranclp_trans [OF sched_run [OF look] sched_run [OF drop]] by (intro exI [of _ ?T] exI [of _ ?s]) simp
qed

text \<open>A process reads twice at the same time while its parent, which has a link, forks another child.\<close>

definition demo_calls :: "call list" where
  "demo_calls = [(6, None), (6, None), (5, Some 8)]"

definition demo_family :: tasks where
  "demo_family = demo_tasks(8 \<mapsto> \<lparr>tpid = 4, tstart = 300, tparent = Some 5, tfs = 3, tcred = 1\<rparr>)"

definition demo_clean :: link_state where
  "demo_clean =
     \<lparr>links = [10 \<mapsto> \<lparr>ltext = 20, lcount = 1\<rparr>], bufs = [20 \<mapsto> ''/os/sl6'' @ [NUL]],
      procs = [\<lparr>plink = None, pstart = 0\<rparr>, \<lparr>plink = None, pstart = 0\<rparr>, \<lparr>plink = Some 10, pstart = 100\<rparr>,
        \<lparr>plink = None, pstart = 0\<rparr>, \<lparr>plink = None, pstart = 0\<rparr>],
      pid_max = 5\<rparr>"

lemma demo_clean_inv: "link_inv demo_clean"
proof -
  have "refs demo_clean l = (if l = 10 then 1 else 0)" for l by (simp add: refs_def demo_clean_def)
  then show ?thesis unfolding link_inv_def by (auto simp: demo_clean_def split: if_splits)
qed

lemma demo_family_tree: "task_tree (length (procs demo_clean)) demo_family"
proof -
  have "\<exists>d :: tid \<Rightarrow> nat. \<forall>a k p. demo_family a = Some k \<longrightarrow> 1 < tpid k \<longrightarrow> tparent k = Some p \<longrightarrow> d p < d a"
    by (rule exI [of _ "\<lambda>a. a"]) (auto simp: demo_family_def demo_tasks_def split: if_splits)
  moreover have "length (procs demo_clean) = 5" by (simp add: demo_clean_def)
  ultimately show ?thesis
    unfolding task_tree_def by (auto simp: demo_family_def demo_tasks_def split: if_splits)
qed

lemma demo_clean_current: "current_slots demo_family demo_clean"
  by (auto simp: current_slots_def demo_family_def demo_tasks_def demo_clean_def split: if_splits)

lemma demo_calls_ok: "\<forall>a \<in> set demo_calls. call_ok demo_family demo_clean a"
  by (simp add: demo_calls_def call_ok_def demo_family_def demo_tasks_def demo_clean_def)

theorem concurrent_readers_correct_witness:
  "\<exists>T s. (lstep demo_family ^^ 8) (readers demo_calls, demo_clean) (T, s) \<and> code (T ! 2) = [] \<and> plink (procs s ! 4) = Some 10 \<and>
     (\<forall>f. \<not> lfault demo_family f (T, s)) \<and> inherits demo_family (view demo_clean) (Some 5) (map_option (link_string s) (reg (T ! 2)))"
proof -
  obtain T s where run: "sched demo_family [0, 1, 2, 2, 2, 2, 2, 2] (readers demo_calls, demo_clean) = Some (T, s)" "code (T ! 2) = []"
      "plink (procs s ! 4) = Some 10"
    by (simp add: readers_def demo_calls_def demo_clean_def demo_family_def demo_tasks_def atomic_add_def)
  have steps: "(lstep demo_family ^^ 8) (readers demo_calls, demo_clean) (T, s)"
    using sched_steps [OF run(1)] by (simp add: eval_nat_numeral)
  have "length (procs demo_clean) + read_steps demo_clean demo_calls + 1 < 2 ^ 32"
    by (simp add: read_steps_def demo_calls_def demo_clean_def)
  note all = concurrent_readers_correct [OF demo_clean_inv demo_family_tree demo_clean_current demo_calls_ok this steps]
  have nf: "\<forall>f. \<not> lfault demo_family f (T, s)" using all by (elim conjE)
  have res: "\<forall>j < length demo_calls. code (T ! j) = [] \<longrightarrow>
      inherits demo_family (view demo_clean) (Some (fst (demo_calls ! j))) (map_option (link_string s) (reg (T ! j))) \<and>
      (\<forall>l. reg (T ! j) = Some l \<longrightarrow> links s l \<noteq> None)"
    using all by (elim conjE)
  have "2 < length demo_calls" "fst (demo_calls ! 2) = 5" by (simp_all add: demo_calls_def)
  with res [rule_format, of 2, OF _ run(2)]
  have "inherits demo_family (view demo_clean) (Some 5) (map_option (link_string s) (reg (T ! 2)))" by simp
  with steps run(2,3) nf show ?thesis by blast
qed

theorem reader_race_double_free_witness:
  "\<exists>ts T s'. (lstep ts)\<^sup>*\<^sup>* (readers [(5, None), (7, None)], demo_shared) (T, s') \<and> lfault ts Use_After_Free (T, s')"
proof -
  let ?a = "\<lparr>tpid = 2, tstart = 150, tparent = Some 0, tfs = 1, tcred = 1\<rparr>"
  let ?b = "\<lparr>tpid = 4, tstart = 160, tparent = Some 0, tfs = 1, tcred = 1\<rparr>"
  let ?p = "\<lparr>tpid = 1, tstart = 1, tparent = None, tfs = 0, tcred = 0\<rparr>"
  have "\<exists>T s'. (lstep [0 \<mapsto> ?p, 5 \<mapsto> ?a, 7 \<mapsto> ?b])\<^sup>*\<^sup>* (readers [(5, None), (7, None)], demo_shared) (T, s') \<and> code (T ! 1) = [Destroy 10] \<and>
      links s' 10 = None \<and> lfault [0 \<mapsto> ?p, 5 \<mapsto> ?a, 7 \<mapsto> ?b] Use_After_Free (T, s')"
    by (rule reader_race_double_free [where ka = ?a and kb = ?b and kp = ?p and p = 0, OF demo_shared_inv])
      (simp_all add: demo_shared_refs, simp_all add: demo_shared_def)
  then show ?thesis by blast
qed
end
