(* ===== verification/Job_Starter.thy ===== *)
theory Job_Starter
  imports Chos_Util
begin

text \<open>
  The two programs that a batch system runs jobs through: \<^verbatim>\<open>utils/job_starter.c\<close>, which sets limits, logs the job and puts the
  \<^verbatim>\<open>chos\<close> command in front of it when \<^verbatim>\<open>CHOS\<close> is set, and \<^verbatim>\<open>utils/pam_job_starter.c\<close>, which opens a PAM session first. The macros that
  a site defines in the first one are a record, \<open>None\<close> where the macro is commented out. What a program does before it becomes the
  job is a list of effects in their order.
\<close>

section \<open>job_starter\<close>

record starter_config =
  LIMIT_MB :: "int option"
  LIMIT_PROC :: "int option"
  LOG :: bool
  CHOS :: "string option"

datatype resource = RLIMIT_AS | RLIMIT_NPROC

datatype effect = Setrlimit resource int int | Stdout string | Logged string

text \<open>Whether \<^verbatim>\<open>setrlimit\<close>, the \<^verbatim>\<open>fopen\<close> of the log and the \<^verbatim>\<open>malloc\<close> of the arguments succeed.\<close>

record starter_env =
  j_getenv :: "string \<Rightarrow> string option"
  j_setrlimit :: "resource \<Rightarrow> bool"
  j_log :: bool
  j_malloc :: bool

abbreviation MB_FACTOR :: int where "MB_FACTOR \<equiv> 1048580"

text \<open>Both factors of \<^verbatim>\<open>LIMIT_MB*MB_FACTOR\<close> are of type \<^verbatim>\<open>int\<close>.\<close>

definition int_times :: "int \<Rightarrow> int \<Rightarrow> fault + int" where
  "int_times a b = (if - (2 ^ 31) \<le> a * b \<and> a * b < 2 ^ 31 then Inr (a * b) else Inl Signed_Overflow)"

definition set_limit :: "starter_env \<Rightarrow> resource \<Rightarrow> int \<Rightarrow> effect list" where
  "set_limit e r n = Setrlimit r n n # (if j_setrlimit e r then [] else [Stdout (''resource failed to set'' @ [NL])])"

definition log_job :: "string list \<Rightarrow> string" where
  "log_job argv = concat (map (\<lambda>a. a @ '' '') argv) @ [NL]"

text \<open>The copy of the arguments into the array for \<^verbatim>\<open>execvp\<close>.\<close>

function copy_args :: "nat \<Rightarrow> string list \<Rightarrow> arg_array \<Rightarrow> fault + nat \<times> arg_array" where
  "copy_args i argv args =
     (if i < length argv then
        ebind (store_env i (Some (Some (argv ! i))) args) (\<lambda>args. copy_args (Suc i) argv args)
      else Inr (i, args))"
  by pat_completeness auto
termination
  by (relation "measure (\<lambda>(i, argv, args). length argv - i)") auto

declare copy_args.simps [simp del]

definition starter_args :: "starter_config \<Rightarrow> starter_env \<Rightarrow> string list \<Rightarrow> fault + string list" where
  "starter_args c e argv =
     (case Option.bind (CHOS c) (j_getenv e) of
        None \<Rightarrow> Inr (tl argv)
      | Some chos \<Rightarrow>
         if chos = [] then Inr (tl argv)
         else if \<not> j_malloc e then Inl Null_Deref
         else
           ebind (copy_args 1 argv (replicate (length argv + 1) None)) (\<lambda>(i, args).
           ebind (store_env i (Some None) args) (\<lambda>args.
           ebind (store_env 0 (Some (Some ''/usr/bin/chos'')) args) exec_args)))"

definition job_starter_main :: "starter_config \<Rightarrow> string list \<Rightarrow> starter_env \<Rightarrow> fault + effect list \<times> outcome" where
  "job_starter_main c argv e =
     (if length argv = 1 then Inr ([], Return (- 1))
      else
        ebind (case LIMIT_MB c of
                 None \<Rightarrow> Inr []
               | Some mb \<Rightarrow> ebind (int_times mb MB_FACTOR) (\<lambda>n. Inr (set_limit e RLIMIT_AS n))) (\<lambda>e1.
        let e2 = (case LIMIT_PROC c of None \<Rightarrow> [] | Some n \<Rightarrow> set_limit e RLIMIT_NPROC n);
            e3 = (if LOG c \<and> j_log e then [Logged (log_job argv)] else [])
        in ebind (starter_args c e argv) (\<lambda>args.
           case args of
             [] \<Rightarrow> Inl Undefined
           | a # _ \<Rightarrow> Inr (e1 @ e2 @ e3, Execvp a args))))"

section \<open>pam_job_starter\<close>

abbreviation PAM_NAME :: string where "PAM_NAME \<equiv> ''jobstarter''"

datatype pam_call = Pam_start string string | Pam_acct_mgmt | Pam_open_session | Pam_end int | Stderr string

text \<open>The user's name, if \<^verbatim>\<open>getpwuid\<close> finds one, and the results of the calls of the PAM library.\<close>

record pam_env =
  p_user :: "string option"
  p_start :: int
  p_acct :: int
  p_open :: int
  p_end :: int

definition pam_job_starter_main :: "string list \<Rightarrow> pam_env \<Rightarrow> fault + pam_call list \<times> outcome" where
  "pam_job_starter_main argv e =
     (if length argv = 1 then Inr ([], Return (- 1))
      else case p_user e of
        None \<Rightarrow> Inl Null_Deref
      | Some pw_name \<Rightarrow>
         let c1 = [Pam_start PAM_NAME pw_name];
             r1 = p_start e;
             (c2, r2) = (if r1 = PAM_SUCCESS then (c1 @ [Pam_acct_mgmt], p_acct e)
                         else (c1 @ [Stderr (PAM_NAME @ '': pam_start failed'' @ [NL])], r1));
             (c3, r3) = (if r2 = PAM_SUCCESS then (c2 @ [Pam_open_session], p_open e)
                         else (c2 @ [Stderr (PAM_NAME @ '': pam_acct failed'' @ [NL])], r2));
             c4 = (if r3 \<noteq> PAM_SUCCESS then c3 @ [Stderr (PAM_NAME @ '': pam_acct failed'' @ [NL])] else c3);
             c5 = c4 @ [Pam_end r3]
         in if p_end e \<noteq> PAM_SUCCESS then
              Inr (c5 @ [Stderr (''check_user: failed to release authenticator'' @ [NL])], Return 1)
            else if r3 \<noteq> PAM_SUCCESS then Inr (c5, Return 99)
            else if length argv = 0 then Inl Undefined
            else Inr (c5, Execvp (argv ! 1) (tl argv)))"

section \<open>Lemmas\<close>

lemma copy_args_ok:
  assumes "i \<le> length argv" and "length args = Suc (length argv)"
  shows "copy_args i argv args =
    Inr (length argv, take i args @ map (\<lambda>a. Some (Some a)) (drop i argv) @ drop (length argv) args)"
  using assms
proof (induction i argv args rule: copy_args.induct)
  case (1 i argv args)
  show ?case
  proof (cases "i < length argv")
    case True
    let ?args = "args[i := Some (Some (argv ! i))]"
    have st: "store_env i (Some (Some (argv ! i))) args = Inr ?args" using True "1.prems" by (simp add: store_env_def)
    have "copy_args (Suc i) argv ?args =
        Inr (length argv, take (Suc i) ?args @ map (\<lambda>a. Some (Some a)) (drop (Suc i) argv) @ drop (length argv) ?args)"
      using True "1.prems" by (intro "1.IH") simp_all
    moreover have "take (Suc i) ?args = take i args @ [Some (Some (argv ! i))]"
      using True "1.prems" by (simp add: take_Suc_conv_app_nth)
    ultimately show ?thesis
      using True "1.prems" st by (subst copy_args.simps) (simp add: Cons_nth_drop_Suc [symmetric])
  next
    case False
    with "1.prems" show ?thesis by (subst copy_args.simps) simp
  qed
qed

lemma starter_args_ok:
  assumes argv: "argv \<noteq> []" and mem: "j_malloc e"
  shows "starter_args c e argv =
    Inr (case Option.bind (CHOS c) (j_getenv e) of
           None \<Rightarrow> tl argv
         | Some chos \<Rightarrow> if chos = [] then tl argv else ''/usr/bin/chos'' # tl argv)"
proof -
  obtain a as where a: "argv = a # as" using argv by (cases argv) simp_all
  let ?n = "length argv" and ?P = "map (\<lambda>a. Some (Some a)) as :: arg_array"
  have copy: "copy_args 1 argv (replicate (?n + 1) None) = Inr (?n, None # ?P @ [None])"
    using copy_args_ok [of 1 argv "replicate (?n + 1) None"]
    by (simp add: a replicate_append_same [symmetric] del: replicate_Suc) (simp add: drop_replicate take_Suc)
  have stores: "store_env ?n (Some None) (None # ?P @ [None]) = Inr (None # ?P @ [Some None])"
    "store_env 0 (Some (Some x)) (None # ?P @ [Some None]) = Inr (Some (Some x) # ?P @ [Some None])" for x
    by (simp_all add: store_env_def a list_update_append)
  have "exec_args (Some (Some x) # ?P @ [Some None]) = Inr (x # as)" for x
    using exec_args_terminated [of as "[]"] by simp
  then show ?thesis
    unfolding starter_args_def copy ebind_simps prod.case stores using mem by (simp add: a split: option.split)
qed

lemma starter_run:
  assumes "2 \<le> length argv" and "j_malloc e" and "\<And>mb. LIMIT_MB c = Some mb \<Longrightarrow> 0 \<le> mb \<and> mb < 2048"
  shows "\<exists>es. job_starter_main c argv e =
    Inr (es, case Option.bind (CHOS c) (j_getenv e) of
               None \<Rightarrow> Execvp (argv ! 1) (tl argv)
             | Some chos \<Rightarrow> if chos = [] then Execvp (argv ! 1) (tl argv)
                            else Execvp ''/usr/bin/chos'' (''/usr/bin/chos'' # tl argv)) \<and>
    es = (case LIMIT_MB c of None \<Rightarrow> [] | Some mb \<Rightarrow> set_limit e RLIMIT_AS (mb * MB_FACTOR)) @
         (case LIMIT_PROC c of None \<Rightarrow> [] | Some n \<Rightarrow> set_limit e RLIMIT_NPROC n) @
         (if LOG c \<and> j_log e then [Logged (log_job argv)] else [])"
proof -
  obtain a b as where argv: "argv = a # b # as" using assms(1) by (cases argv; cases "tl argv") auto
  have lim: "int_times mb MB_FACTOR = Inr (mb * MB_FACTOR)" if "LIMIT_MB c = Some mb" for mb
  proof -
    have "0 \<le> mb" "mb \<le> 2047" using assms(3) [OF that] by auto
    then have "0 \<le> mb * MB_FACTOR" "mb * MB_FACTOR \<le> 2047 * MB_FACTOR" by simp_all
    then show ?thesis by (simp add: int_times_def)
  qed
  then show ?thesis
    using starter_args_ok [of argv e c] assms(2) argv
    by (auto simp: job_starter_main_def Let_def split: option.split)
qed

section \<open>Properties\<close>

text \<open>
  C34. A job that goes through \<^verbatim>\<open>job_starter\<close> while \<^verbatim>\<open>CHOS\<close> names a tree of \<^verbatim>\<open>/etc/chos\<close> runs in that tree with exactly its own arguments:
  the starter becomes \<^verbatim>\<open>/usr/bin/chos\<close> with an argument vector that is properly terminated, and that command writes the path of
  the tree and becomes the job, as if the job had been run directly. Before that the limits are set and the job is logged.
\<close>

theorem job_enters_tree:
  assumes argv: "2 \<le> length argv" and mem: "j_malloc e" and build: "CHOS c = Some ''CHOS''" "\<And>mb. LIMIT_MB c = Some mb \<Longrightarrow> 0 \<le> mb \<and> mb < 2048"
    and env: "j_getenv e = u_getenv u" "u_getenv u ''CHOS'' = Some name" "name \<noteq> []"
    and ls: "\<forall>l \<in> set ls. line_fits MAXLINE l" and conf: "u_conf u = Some \<lparr>contents = unlines ls, st_uid = Some 0\<rparr>"
    and path: "conf_lookup ls name = Some path" "CHR ''%'' \<notin> set path" "length path < MAX_OS" "path \<noteq> cur"
    and sys: "u_shell u = Some shell" "u_link u = Some cur" "cur \<noteq> []" "length cur < MAX_OS" "u_open u" "u_printed u"
    and job: "fst (chos_parse_args u argv)"
  shows "\<exists>es as. job_starter_main c argv e = Inr (es, Execvp ''/usr/bin/chos'' as) \<and>
    chos_main as u = Inr ([], Some path, Execvp (argv ! 1) (tl argv)) \<and>
    (LOG c \<and> j_log e \<longrightarrow> Logged (log_job argv) \<in> set es)"
proof -
  let ?as = "''/usr/bin/chos'' # tl argv"
  have len: "length ?as = length argv" "?as ! 1 = argv ! 1" "tl ?as = tl argv"
    using argv by (cases argv; cases "tl argv"; simp)+
  have "fst (chos_parse_args u ?as)" using job unfolding chos_parse_args_def len(1,2) .
  then have "chos_main ?as u = Inr ([], Some path, Execvp (argv ! 1) (tl argv))"
    using chos_enters [OF ls conf env(2) path(1,2) sys(1-4) path(3) sys(5,6), of ?as] path(4) len argv by auto
  moreover obtain es where "job_starter_main c argv e = Inr (es, Execvp ''/usr/bin/chos'' ?as)"
      "LOG c \<and> j_log e \<longrightarrow> Logged (log_job argv) \<in> set es"
    using starter_run [OF argv mem, of c] build env by auto
  ultimately show ?thesis by blast
qed

theorem job_enters_tree_witness:
  "\<exists>es as. job_starter_main \<lparr>LIMIT_MB = Some 1024, LIMIT_PROC = Some 50, LOG = True, CHOS = Some ''CHOS''\<rparr>
      [''starter'', ''sim'', ''-n'', ''4'']
      \<lparr>j_getenv = u_getenv demo_util, j_setrlimit = (\<lambda>_. True), j_log = True, j_malloc = True\<rparr> =
        Inr (es, Execvp ''/usr/bin/chos'' as) \<and>
     chos_main as demo_util = Inr ([], Some ''/os/sl6'', Execvp ''sim'' [''sim'', ''-n'', ''4'']) \<and>
     Logged (''starter sim -n 4 '' @ [NL]) \<in> set es"
  using job_enters_tree [where c = "\<lparr>LIMIT_MB = Some 1024, LIMIT_PROC = Some 50, LOG = True, CHOS = Some ''CHOS''\<rparr>"
      and argv = "[''starter'', ''sim'', ''-n'', ''4'']" and u = demo_util and name = "''sl6''" and path = "''/os/sl6''"
      and e = "\<lparr>j_getenv = u_getenv demo_util, j_setrlimit = (\<lambda>_. True), j_log = True, j_malloc = True\<rparr>"
      and ls = "[''%SHELLS'', ''sl6:/os/sl6'']" and cur = "''/''" and shell = "''/bin/sh''"]
  by (simp add: demo_util_def line_fits_def conf_lookup_def comment_def map_filter_simps chos_parse_args_def log_job_def)

text \<open>
  The memory limit that \<^verbatim>\<open>job_starter\<close> sets is not the number of megabytes it is built with: the factor is four bytes too
  large, and from 2048 MB on the product of the two \<^verbatim>\<open>int\<close>s overflows.
\<close>

theorem memory_limit:
  assumes "2 \<le> length argv" and "j_malloc e" and "LIMIT_MB c = Some mb" and "0 \<le> mb"
  shows "(mb < 2048 \<longrightarrow> (\<exists>es out. job_starter_main c argv e = Inr (Setrlimit RLIMIT_AS (mb * 2 ^ 20 + 4 * mb) (mb * 2 ^ 20 + 4 * mb) # es, out))) \<and>
    (2048 \<le> mb \<longrightarrow> job_starter_main c argv e = Inl Signed_Overflow)"
proof -
  have "mb * MB_FACTOR = mb * 2 ^ 20 + 4 * mb" by simp
  then have "mb < 2048 \<longrightarrow> (\<exists>es out. job_starter_main c argv e = Inr (Setrlimit RLIMIT_AS (mb * 2 ^ 20 + 4 * mb) (mb * 2 ^ 20 + 4 * mb) # es, out))"
    using starter_run [OF assms(1,2), of c] assms(3,4) by (auto simp: set_limit_def)
  moreover have "int_times mb MB_FACTOR = Inl Signed_Overflow" if "2048 \<le> mb"
  proof -
    have "2048 * MB_FACTOR \<le> mb * MB_FACTOR" using that by simp
    then show ?thesis by (simp add: int_times_def)
  qed
  ultimately show ?thesis using assms(1,3) by (auto simp: job_starter_main_def)
qed

theorem memory_limit_witness:
  "job_starter_main \<lparr>LIMIT_MB = Some 2048, LIMIT_PROC = None, LOG = False, CHOS = None\<rparr> [''starter'', ''sim'']
     \<lparr>j_getenv = (\<lambda>_. None), j_setrlimit = (\<lambda>_. True), j_log = True, j_malloc = True\<rparr> = Inl Signed_Overflow"
  using memory_limit [where c = "\<lparr>LIMIT_MB = Some 2048, LIMIT_PROC = None, LOG = False, CHOS = None\<rparr>" and mb = 2048 and
      argv = "[''starter'', ''sim'']" and e = "\<lparr>j_getenv = (\<lambda>_. None), j_setrlimit = (\<lambda>_. True), j_log = True, j_malloc = True\<rparr>"]
  by simp

text \<open>
  \<^verbatim>\<open>pam_job_starter\<close> runs a job exactly when PAM has accepted the account and opened the session: it becomes the job only after
  \<^verbatim>\<open>pam_start\<close>, \<^verbatim>\<open>pam_acct_mgmt\<close>, \<^verbatim>\<open>pam_open_session\<close> and \<^verbatim>\<open>pam_end\<close> have been called in this order and have all succeeded, and the session is not
  opened for an account that has been refused. In every other case it returns a nonzero status, unless the caller has no passwd entry.
\<close>

theorem pam_job_gate:
  assumes argv: "2 \<le> length argv" and user: "p_user e = Some name"
  shows "\<exists>cs out. pam_job_starter_main argv e = Inr (cs, out) \<and>
    (out = Execvp (argv ! 1) (tl argv) \<longleftrightarrow> p_start e = 0 \<and> p_acct e = 0 \<and> p_open e = 0 \<and> p_end e = 0) \<and>
    (out \<noteq> Execvp (argv ! 1) (tl argv) \<longrightarrow> out = Return 1 \<or> out = Return 99) \<and>
    (out = Execvp (argv ! 1) (tl argv) \<longrightarrow> cs = [Pam_start ''jobstarter'' name, Pam_acct_mgmt, Pam_open_session, Pam_end 0]) \<and>
    (Pam_open_session \<in> set cs \<longleftrightarrow> p_start e = 0 \<and> p_acct e = 0)"
  using assms by (auto simp: pam_job_starter_main_def Let_def)

theorem pam_job_gate_witness:
  "pam_job_starter_main [''starter'', ''sim''] \<lparr>p_user = Some ''ann'', p_start = 0, p_acct = 0, p_open = 0, p_end = 0\<rparr> =
     Inr ([Pam_start ''jobstarter'' ''ann'', Pam_acct_mgmt, Pam_open_session, Pam_end 0], Execvp ''sim'' [''sim''])"
  using pam_job_gate [of "[''starter'', ''sim'']" "\<lparr>p_user = Some ''ann'', p_start = 0, p_acct = 0, p_open = 0, p_end = 0\<rparr>" "''ann''"]
  by auto

end
