(* ===== verification/Valid_List.thy ===== *)
theory Valid_List
  imports Valid_Paths
begin

text \<open>
  The list of valid paths as it lies in memory. \<^verbatim>\<open>struct valid_path\<close> of \<^verbatim>\<open>kernel/chos.h\<close> is linked into the list \<^verbatim>\<open>valid_paths\<close> by an
  embedded \<^verbatim>\<open>struct list_head\<close>; the functions of \<^verbatim>\<open>kernel/chos_lkm.c\<close> walk and change it through its pointers. Here an entry is an object of a
  store with its two pointers, and every access through a pointer may fault. The kernel's \<^verbatim>\<open>list_add_tail\<close> and \<^verbatim>\<open>list_del\<close> are
  parameters of the functions that call them, with what the kernel documents of them as the laws of a locale. On a well-formed list the functions do
  exactly what \<^verbatim>\<open>Valid_Paths\<close> says on lists of entries. There is no lock, so they may overlap: what then goes wrong is at the
  end.
\<close>

section \<open>Data\<close>

text \<open>
  A pointer to a \<^verbatim>\<open>struct list_head\<close>: that of the variable \<^verbatim>\<open>valid_paths\<close>, that of the entry at an address, or one of the values that
  \<^verbatim>\<open>list_del\<close> leaves in a removed entry.
\<close>

datatype lptr = Head | Entry addr | Poison

record list_node =
  lnext :: lptr
  lprev :: lptr
  npath :: addr
  nlength :: int

record list_state =
  head_next :: lptr
  head_prev :: lptr
  nodes :: "addr \<rightharpoonup> list_node"
  texts_of :: "addr \<rightharpoonup> bytes"

section \<open>Pointers\<close>

definition next_of :: "list_state \<Rightarrow> lptr \<Rightarrow> fault + lptr" where
  "next_of h p =
     (case p of
        Head \<Rightarrow> Inr (head_next h)
      | Entry a \<Rightarrow> (case nodes h a of None \<Rightarrow> Inl Use_After_Free | Some n \<Rightarrow> Inr (lnext n))
      | Poison \<Rightarrow> Inl Undefined)"

section \<open>The functions of the module\<close>

text \<open>
  \<^verbatim>\<open>add_valid_path\<close>: \<open>list_add_tail\<close> and, below, \<open>list_del\<close> are the kernel's; \<open>km\<close> is \<^verbatim>\<open>kmalloc\<close> for the entry, whose pointers are not initialised. \<^verbatim>\<open>remove_valid_path\<close> is only called with the address of an entry. \<^verbatim>\<open>kfree\<close> of something that is not
  allocated is a fault.
\<close>

type_synonym list_primitive = "lptr \<Rightarrow> list_state \<Rightarrow> fault + list_state"

definition list_add_valid_path :: "list_primitive \<Rightarrow> kmalloc \<Rightarrow> addr \<Rightarrow> int \<Rightarrow> list_state \<Rightarrow> fault + list_state" where
  "list_add_valid_path list_add_tail km path len h =
     (case km (\<lambda>a. nodes h a \<noteq> None) of
        None \<Rightarrow> Inr h
      | Some new \<Rightarrow>
         list_add_tail (Entry new)
           (h\<lparr>nodes := (nodes h)(new \<mapsto> \<lparr>lnext = Poison, lprev = Poison, npath = path, nlength = len\<rparr>)\<rparr>))"

definition list_remove_valid_path :: "list_primitive \<Rightarrow> addr \<Rightarrow> list_state \<Rightarrow> fault + list_state" where
  "list_remove_valid_path list_del v h =
     ebind (list_del (Entry v) h) (\<lambda>h1.
     case nodes h1 v of
       None \<Rightarrow> Inl Use_After_Free
     | Some n \<Rightarrow>
        if texts_of h1 (npath n) = None then Inl Bad_Free
        else Inr (h1\<lparr>texts_of := (texts_of h1)(npath n := None), nodes := (nodes h1)(v := None)\<rparr>))"

text \<open>
  The loops run from \<^verbatim>\<open>valid_paths.next\<close> until the pointer is \<^verbatim>\<open>&valid_paths\<close> again; on a damaged list they may never end.
\<close>

partial_function (option) list_resetvalid_loop :: "list_primitive \<Rightarrow> lptr \<Rightarrow> list_state \<Rightarrow> (fault + list_state) option" where
  "list_resetvalid_loop list_del p h =
     (case p of
        Head \<Rightarrow> Some (Inr h)
      | Poison \<Rightarrow> Some (Inl Undefined)
      | Entry c \<Rightarrow>
         (case next_of h p of
            Inl f \<Rightarrow> Some (Inl f)
          | Inr q \<Rightarrow>
             (case list_remove_valid_path list_del c h of
                Inl f \<Rightarrow> Some (Inl f)
              | Inr h1 \<Rightarrow> list_resetvalid_loop list_del q h1)))"

definition list_resetvalid :: "list_primitive \<Rightarrow> list_state \<Rightarrow> (fault + list_state) option" where
  "list_resetvalid list_del h = list_resetvalid_loop list_del (head_next h) h"

text \<open>One round of the loop of \<^verbatim>\<open>is_valid_path\<close>: whether the text of the entry is the path, and otherwise the next pointer.\<close>

definition valid_round :: "string \<Rightarrow> addr \<Rightarrow> list_state \<Rightarrow> fault + lptr option" where
  "valid_round path c h =
     (case nodes h c of
        None \<Rightarrow> Inl Use_After_Free
      | Some n \<Rightarrow>
         (case texts_of h (npath n) of
            None \<Rightarrow> Inl Use_After_Free
          | Some b \<Rightarrow> if path = cstr b then Inr None else Inr (Some (lnext n))))"

partial_function (option) list_is_valid_loop :: "string \<Rightarrow> lptr \<Rightarrow> list_state \<Rightarrow> (fault + bool) option" where
  "list_is_valid_loop path p h =
     (case p of
        Head \<Rightarrow> Some (Inr False)
      | Poison \<Rightarrow> Some (Inl Undefined)
      | Entry c \<Rightarrow>
         (case valid_round path c h of
            Inl f \<Rightarrow> Some (Inl f)
          | Inr None \<Rightarrow> Some (Inr True)
          | Inr (Some q) \<Rightarrow> list_is_valid_loop path q h))"

definition list_is_valid_path :: "string \<Rightarrow> list_state \<Rightarrow> (fault + bool) option" where
  "list_is_valid_path path h = list_is_valid_loop path (head_next h) h"

partial_function (option) list_print_valid_loop :: "lptr \<Rightarrow> list_state \<Rightarrow> string \<Rightarrow> (fault + string) option" where
  "list_print_valid_loop p h out =
     (case p of
        Head \<Rightarrow> Some (Inr out)
      | Poison \<Rightarrow> Some (Inl Undefined)
      | Entry c \<Rightarrow>
         (case nodes h c of
            None \<Rightarrow> Some (Inl Use_After_Free)
          | Some n \<Rightarrow>
             (case texts_of h (npath n) of
                None \<Rightarrow> Some (Inl Use_After_Free)
              | Some b \<Rightarrow> list_print_valid_loop (lnext n) h (out @ cstr b @ [NL]))))"

definition list_print_valid :: "list_state \<Rightarrow> (fault + string) option" where
  "list_print_valid h = list_print_valid_loop (head_next h) h []"

section \<open>Well-formed lists\<close>

text \<open>
  \<open>seg h p q as p' q'\<close>: following the pointers from \<open>p\<close>, whose predecessor is \<open>q\<close>, one meets exactly the entries at \<open>as\<close>, with consistent
  pointers back, and comes to \<open>p'\<close>, before which \<open>q'\<close> is the last.
\<close>

primrec seg :: "(addr \<rightharpoonup> list_node) \<Rightarrow> lptr \<Rightarrow> lptr \<Rightarrow> addr list \<Rightarrow> lptr \<Rightarrow> lptr \<Rightarrow> bool" where
  "seg h p q [] p' q' \<longleftrightarrow> p = p' \<and> q = q'"
| "seg h p q (a # as) p' q' \<longleftrightarrow>
     p = Entry a \<and> (\<exists>n. h a = Some n \<and> lprev n = q \<and> seg h (lnext n) (Entry a) as p' q')"

definition chain :: "list_state \<Rightarrow> addr list \<Rightarrow> bool" where
  "chain h as \<longleftrightarrow> distinct as \<and> seg (nodes h) (head_next h) Head as Head (head_prev h)"

lemma seg_append [simp]: "seg h p q (as @ bs) p' q' \<longleftrightarrow> (\<exists>m r. seg h p q as m r \<and> seg h m r bs p' q')"
  by (induction as arbitrary: p q) auto

lemma seg_upd [simp]: "a \<notin> set as \<Longrightarrow> seg (h(a := n)) p q as p' q' \<longleftrightarrow> seg h p q as p' q'"
  by (induction as arbitrary: p q) auto

lemma seg_node: "seg h p q as p' q' \<Longrightarrow> a \<in> set as \<Longrightarrow> h a \<noteq> None"
  by (induction as arbitrary: p q) auto

text \<open>The data of an entry, without its pointers.\<close>

definition data_of :: "list_node \<Rightarrow> valid_path" where
  "data_of n = \<lparr>vpath = npath n, vlength = nlength n\<rparr>"

definition data :: "list_state \<Rightarrow> addr \<rightharpoonup> valid_path" where
  "data h a = map_option data_of (nodes h a)"

lemma data_simps [simp]:
  "data (h\<lparr>head_next := q\<rparr>) = data h" "data (h\<lparr>head_prev := q\<rparr>) = data h" "data (h\<lparr>texts_of := b\<rparr>) = data h"
  by (simp_all add: data_def fun_eq_iff)

lemma dom_data: "dom (data h) = dom (nodes h)"
  by (auto simp: data_def)

lemma data_of_simps [simp]: "data_of (n\<lparr>lnext := q\<rparr>) = data_of n" "data_of (n\<lparr>lprev := q\<rparr>) = data_of n"
  by (simp_all add: data_of_def)

section \<open>The kernel's lists\<close>

text \<open>
  What the kernel documents of its two primitives: on a well-formed list, \<^verbatim>\<open>list_add_tail\<close> puts an allocated entry that is not on it at its end,
  and \<^verbatim>\<open>list_del\<close> takes an entry out; both leave the list well formed, allocate and free nothing, and touch nothing but pointers of \<^verbatim>\<open>struct list_head\<close>.
\<close>

locale list_primitives =
  fixes add_tail :: list_primitive
    and del :: list_primitive
  assumes add_tail: "chain h as \<Longrightarrow> nodes h a = Some n \<Longrightarrow> a \<notin> set as \<Longrightarrow>
      \<exists>h'. add_tail (Entry a) h = Inr h' \<and> chain h' (as @ [a]) \<and> data h' = data h \<and> texts_of h' = texts_of h"
    and del: "chain h (xs @ a # ys) \<Longrightarrow>
      \<exists>h'. del (Entry a) h = Inr h' \<and> chain h' (xs @ ys) \<and> data h' = data h \<and> texts_of h' = texts_of h"

section \<open>The list-level functions are implemented\<close>

text \<open>
  Memory represents a state of \<^verbatim>\<open>Valid_Paths\<close>: the entries on the list, in their order, are those of the state, no other entry is
  allocated, and the texts are the same.
\<close>

definition represents :: "list_state \<Rightarrow> kernel_state \<Rightarrow> bool" where
  "represents h s \<longleftrightarrow>
     (\<exists>as. chain h as \<and> dom (nodes h) = set as \<and> map (data h) as = map Some (valid_paths s)) \<and> texts_of h = bufs s"

context list_primitives
begin

lemma list_add_refines:
  assumes rep: "represents h s" and km: "fresh_alloc km"
  shows "\<exists>h'. list_add_valid_path add_tail km path len h = Inr h' \<and>
    represents h' (add_valid_path (km (\<lambda>a. nodes h a \<noteq> None) \<noteq> None) path len s)"
proof (cases "km (\<lambda>a. nodes h a \<noteq> None)")
  case None
  with rep show ?thesis by (simp add: list_add_valid_path_def add_valid_path_def)
next
  case (Some a)
  obtain as where as: "chain h as" "dom (nodes h) = set as" "map (data h) as = map Some (valid_paths s)" "texts_of h = bufs s"
    using rep by (auto simp: represents_def)
  let ?n = "\<lparr>lnext = Poison, lprev = Poison, npath = path, nlength = len\<rparr>"
  let ?h1 = "h\<lparr>nodes := (nodes h)(a \<mapsto> ?n)\<rparr>"
  have a: "a \<notin> set as" using fresh_allocD [OF km Some] as(2) by auto
  have "chain ?h1 as" using as(1) a by (simp add: chain_def)
  then obtain h' where h': "add_tail (Entry a) ?h1 = Inr h'" "chain h' (as @ [a])" "data h' = data ?h1" "texts_of h' = texts_of ?h1"
    using add_tail [of ?h1 as a ?n] a by auto
  have "map (data h') as = map (data h) as" using a by (auto simp: h'(3) data_def)
  then have "map (data h') as = map Some (valid_paths s)" using as(3) by simp
  moreover have "data h' a = Some \<lparr>vpath = path, vlength = len\<rparr>" by (simp add: h'(3) data_def data_of_def)
  moreover have "dom (nodes h') = set (as @ [a])"
    using as(2) unfolding dom_data [symmetric] h'(3) by (auto simp: dom_data)
  ultimately have "represents h' (add_valid_path True path len s)"
    unfolding represents_def using h'(2,4) as(4) by (intro conjI exI [of _ "as @ [a]"]) (simp_all add: add_valid_path_def)
  with h'(1) Some show ?thesis by (simp add: list_add_valid_path_def)
qed

lemma list_remove_first:
  assumes "chain h (a # as)" and "dom (nodes h) = set (a # as)" and "data h a = Some c" and "texts_of h = bufs s" and "valid_paths s = c # vs"
  shows "case remove_valid_path (Some c) s of
      Inl f \<Rightarrow> list_remove_valid_path del a h = Inl f
    | Inr s' \<Rightarrow> \<exists>h'. list_remove_valid_path del a h = Inr h' \<and> chain h' as \<and> dom (nodes h') = set as \<and>
        (\<forall>b \<in> set as. data h' b = data h b) \<and> texts_of h' = bufs s' \<and> valid_paths s' = vs"
proof -
  obtain h1 where h1: "del (Entry a) h = Inr h1" "chain h1 as" "data h1 = data h" "texts_of h1 = texts_of h"
    using del [of h "[]" a as] assms(1) by auto
  then obtain n where n: "nodes h1 a = Some n" "npath n = vpath c"
    using assms(3) by (auto simp: data_def data_of_def fun_eq_iff dest!: spec [of _ a])
  have a: "a \<notin> set as" using assms(1) by (simp add: chain_def)
  have dom: "dom (nodes h1) = set (a # as)" using assms(2) unfolding dom_data [symmetric] h1(3) .
  show ?thesis
  proof (cases "bufs s (vpath c)")
    case None
    with h1(1,4) n assms(4) show ?thesis by (simp add: remove_valid_path_def list_remove_valid_path_def)
  next
    case (Some b)
    let ?h' = "h1\<lparr>texts_of := (texts_of h1)(vpath c := None), nodes := (nodes h1)(a := None)\<rparr>"
    have "list_remove_valid_path del a h = Inr ?h'"
      using h1(1,4) n assms(4) Some by (simp add: list_remove_valid_path_def)
    moreover have "chain ?h' as" using h1(2) a by (simp add: chain_def)
    moreover have "dom (nodes ?h') = set as" using dom a by auto
    moreover have "\<forall>b \<in> set as. data ?h' b = data h b" using h1(3) a by (auto simp: data_def fun_eq_iff)
    ultimately show ?thesis using Some assms(4,5) h1(4) by (auto simp: remove_valid_path_def)
  qed
qed

lemma list_resetvalid_refines:
  assumes "chain h as" "dom (nodes h) = set as" "map (data h) as = map Some vs" "texts_of h = bufs s" "valid_paths s = vs"
  shows "case resetvalid_loop vs s of
      Inl f \<Rightarrow> list_resetvalid_loop del (head_next h) h = Some (Inl f)
    | Inr s' \<Rightarrow> \<exists>h'. list_resetvalid_loop del (head_next h) h = Some (Inr h') \<and> represents h' s'"
  using assms
proof (induction as arbitrary: h s vs)
  case Nil
  then show ?case by (subst list_resetvalid_loop.simps) (auto simp: chain_def represents_def)
next
  case (Cons a as)
  then obtain c vs' where vs: "vs = c # vs'" "data h a = Some c" "map (data h) as = map Some vs'" by (cases vs) auto
  have first: "head_next h = Entry a" "next_of h (Entry a) = Inr (lnext (the (nodes h a)))"
    using Cons.prems(1) by (auto simp: chain_def next_of_def)
  note rem = list_remove_first [OF Cons.prems(1,2) vs(2) Cons.prems(4)]
  show ?case
  proof (cases "remove_valid_path (Some c) s")
    case (Inl f)
    with rem Cons.prems(5) vs(1) first show ?thesis by (subst list_resetvalid_loop.simps) simp
  next
    case (Inr s1)
    obtain h1 where h1: "list_remove_valid_path del a h = Inr h1" "chain h1 as" "dom (nodes h1) = set as"
        "\<forall>b \<in> set as. data h1 b = data h b" "texts_of h1 = bufs s1" "valid_paths s1 = vs'"
      using rem [of vs'] Inr Cons.prems(5) vs(1) by auto
    have "map (data h1) as = map Some vs'" using h1(4) vs(3) by (simp cong: map_cong)
    note ih = Cons.IH [OF h1(2,3) this h1(5,6)]
    have "lnext (the (nodes h a)) = head_next h1"
      using Cons.prems(1) h1(2) by (cases as) (auto simp: chain_def)
    with first h1(1) have "list_resetvalid_loop del (head_next h) h = list_resetvalid_loop del (head_next h1) h1"
      by (subst list_resetvalid_loop.simps) simp
    with ih Inr show ?thesis by (simp add: vs(1) split: sum.splits)
  qed
qed

end

lemma seg_data:
  assumes "seg (nodes h) p q (a # as) p' q'" and "map (data h) (a # as) = map Some vs"
  obtains n vs' where "nodes h a = Some n" "p = Entry a" "seg (nodes h) (lnext n) (Entry a) as p' q'"
    "vs = data_of n # vs'" "map (data h) as = map Some vs'"
  using assms by (cases vs) (auto simp: data_def [of h a])

lemma list_is_valid_loop_refines:
  assumes "seg (nodes h) p q as Head q'" and "map (data h) as = map Some vs" and "texts_of h = bufs s"
  shows "list_is_valid_loop path p h = Some (is_valid_loop vs path s)"
  using assms(1,2)
proof (induction as arbitrary: p q vs)
  case Nil
  then show ?case by (subst list_is_valid_loop.simps) simp
next
  case (Cons a as)
  obtain n vs' where "nodes h a = Some n" "p = Entry a" "seg (nodes h) (lnext n) (Entry a) as Head q'"
      "vs = data_of n # vs'" "map (data h) as = map Some vs'"
    by (rule seg_data [OF Cons.prems])
  with Cons.IH assms(3) show ?case
    by (subst list_is_valid_loop.simps) (auto simp: valid_round_def data_of_def split: option.split)
qed

lemma list_print_valid_loop_refines:
  assumes "seg (nodes h) p q as Head q'" and "map (data h) as = map Some vs" and "texts_of h = bufs s"
  shows "list_print_valid_loop p h out = Some (ebind (print_valid_loop vs s) (\<lambda>rest. Inr (out @ rest)))"
  using assms(1,2)
proof (induction as arbitrary: p q vs out)
  case Nil
  then show ?case by (subst list_print_valid_loop.simps) simp
next
  case (Cons a as)
  obtain n vs' where "nodes h a = Some n" "p = Entry a" "seg (nodes h) (lnext n) (Entry a) as Head q'"
      "vs = data_of n # vs'" "map (data h) as = map Some vs'"
    by (rule seg_data [OF Cons.prems])
  with Cons.IH assms(3) show ?case
    by (subst list_print_valid_loop.simps) (cases "print_valid_loop vs' s"; simp add: data_of_def split: option.split)
qed

lemma reset_represents:
  assumes ops: "list_primitives add_tail del" and rep: "represents h s" and inv: "kernel_inv s"
  shows "\<exists>h' s'. list_resetvalid del h = Some (Inr h') \<and> resetvalid s = Inr s' \<and> represents h' s' \<and> valid_paths s' = []"
proof -
  obtain as where as: "chain h as" "dom (nodes h) = set as" "map (data h) as = map Some (valid_paths s)" "texts_of h = bufs s"
    using rep by (auto simp: represents_def)
  obtain s' where "resetvalid s = Inr s'" "valid_paths s' = []" using resetvalid_ok [OF inv] by metis
  with list_primitives.list_resetvalid_refines [OF ops as refl, folded resetvalid_def list_resetvalid_def] show ?thesis by auto
qed

section \<open>Properties\<close>

text \<open>
  C23. The functions on pointers implement the list of valid paths, given what the kernel documents of \<^verbatim>\<open>list_add_tail\<close> and \<^verbatim>\<open>list_del\<close>: on memory that represents a
  well-formed state, \<^verbatim>\<open>add_valid_path\<close> and \<^verbatim>\<open>resetvalid\<close> return without a fault and leave memory that represents the new list, with all
  pointers consistent and no entry lost or left over, and \<^verbatim>\<open>is_valid_path\<close> and \<^verbatim>\<open>print_valid\<close> come to the end of the list without a
  fault and answer what they answer on the list: whether the path is on it, and its paths, one a line.
\<close>

theorem list_implements_paths:
  assumes ops: "list_primitives add_tail del" and rep: "represents h s" and inv: "kernel_inv s" and km: "fresh_alloc km"
  shows "(\<exists>h'. list_add_valid_path add_tail km path len h = Inr h' \<and>
      represents h' (add_valid_path (km (\<lambda>a. nodes h a \<noteq> None) \<noteq> None) path len s)) \<and>
    (\<exists>h' s'. list_resetvalid del h = Some (Inr h') \<and> resetvalid s = Inr s' \<and> represents h' s' \<and> valid_paths s' = []) \<and>
    list_is_valid_path x h = Some (is_valid_path x s) \<and> is_valid_path x s = Inr (x \<in> set (valid_strings s)) \<and>
    list_print_valid h = Some (print_valid s) \<and> print_valid s = Inr (concat (map (\<lambda>y. y @ [NL]) (valid_strings s)))"
proof -
  obtain as where as: "chain h as" "dom (nodes h) = set as" "map (data h) as = map Some (valid_paths s)" "texts_of h = bufs s"
    using rep by (auto simp: represents_def)
  then have seg: "seg (nodes h) (head_next h) Head as Head (head_prev h)" by (simp add: chain_def)
  have valid: "list_is_valid_path x h = Some (is_valid_path x s)"
    unfolding list_is_valid_path_def is_valid_path_def by (rule list_is_valid_loop_refines [OF seg as(3,4)])
  have out: "list_print_valid h = Some (print_valid s)"
    using list_print_valid_loop_refines [OF seg as(3,4), of "[]"]
    by (cases "print_valid_loop (valid_paths s) s") (simp_all add: list_print_valid_def print_valid_def)
  have pa: "path_inv s" using inv by (simp add: kernel_inv_def)
  show ?thesis
    using list_primitives.list_add_refines [OF ops rep km, of path len] reset_represents [OF ops rep inv] valid out
      is_valid_path_strings [OF pa] print_valid_strings [OF pa] by blast
qed

section \<open>Without a lock\<close>

text \<open>
  \<^verbatim>\<open>is_valid_path\<close> walks the list without a lock: when a privileged writer empties the list while an unprivileged process that
  writes to \<^verbatim>\<open>setchos\<close> has compared the first entries and holds a pointer to the next, its next access is to
  freed memory, wherever on the list it was.
\<close>

theorem valid_walk_use_after_free:
  assumes ops: "list_primitives add_tail del" and rep: "represents h s" and inv: "kernel_inv s" and held: "nodes h c \<noteq> None"
  shows "\<exists>h'. list_resetvalid del h = Some (Inr h') \<and> list_is_valid_loop path (Entry c) h' = Some (Inl Use_After_Free)"
proof -
  obtain h' s' where h': "list_resetvalid del h = Some (Inr h')" "represents h' s'" "valid_paths s' = []"
    using reset_represents [OF ops rep inv] by blast
  then have "nodes h' c = None" by (auto simp: represents_def)
  with h'(1) show ?thesis by (subst list_is_valid_loop.simps) (simp add: valid_round_def)
qed

section \<open>Primitives that keep the laws\<close>

text \<open>
  The laws can be met: primitives that store the pointers one after the other, as doubly linked lists do it, and poison the pointers of an entry
  that is taken out. They are an instance of the interface, not a model of the kernel's header.
\<close>

definition prev_of :: "list_state \<Rightarrow> lptr \<Rightarrow> fault + lptr" where
  "prev_of h p =
     (case p of
        Head \<Rightarrow> Inr (head_prev h)
      | Entry a \<Rightarrow> (case nodes h a of None \<Rightarrow> Inl Use_After_Free | Some n \<Rightarrow> Inr (lprev n))
      | Poison \<Rightarrow> Inl Undefined)"

definition set_next :: "lptr \<Rightarrow> lptr \<Rightarrow> list_state \<Rightarrow> fault + list_state" where
  "set_next p q h =
     (case p of
        Head \<Rightarrow> Inr (h\<lparr>head_next := q\<rparr>)
      | Entry a \<Rightarrow>
         (case nodes h a of
            None \<Rightarrow> Inl Use_After_Free
          | Some n \<Rightarrow> Inr (h\<lparr>nodes := (nodes h)(a \<mapsto> n\<lparr>lnext := q\<rparr>)\<rparr>))
      | Poison \<Rightarrow> Inl Undefined)"

definition set_prev :: "lptr \<Rightarrow> lptr \<Rightarrow> list_state \<Rightarrow> fault + list_state" where
  "set_prev p q h =
     (case p of
        Head \<Rightarrow> Inr (h\<lparr>head_prev := q\<rparr>)
      | Entry a \<Rightarrow>
         (case nodes h a of
            None \<Rightarrow> Inl Use_After_Free
          | Some n \<Rightarrow> Inr (h\<lparr>nodes := (nodes h)(a \<mapsto> n\<lparr>lprev := q\<rparr>)\<rparr>))
      | Poison \<Rightarrow> Inl Undefined)"

definition pointer_add_tail :: list_primitive where
  "pointer_add_tail new h =
     ebind (prev_of h Head) (\<lambda>prv.
     ebind (set_prev Head new h) (\<lambda>h1.
     ebind (set_next new Head h1) (\<lambda>h2.
     ebind (set_prev new prv h2) (set_next prv new))))"

definition pointer_del :: list_primitive where
  "pointer_del e h =
     ebind (prev_of h e) (\<lambda>prv.
     ebind (next_of h e) (\<lambda>nxt.
     ebind (set_prev nxt prv h) (\<lambda>h1.
     ebind (set_next prv nxt h1) (\<lambda>h2.
     ebind (set_next e Poison h2) (set_prev e Poison)))))"

lemma data_relink:
  "nodes h a = Some n \<Longrightarrow> data_of n' = data_of n \<Longrightarrow> data (h\<lparr>nodes := (nodes h)(a \<mapsto> n')\<rparr>) = data h"
  by (simp add: data_def fun_eq_iff)

lemmas pointer_defs = next_of_def prev_of_def set_next_def set_prev_def

lemma chain_last:
  assumes "chain h (bs @ [b])"
  obtains n where "seg (nodes h) (head_next h) Head bs (Entry b) (lprev n)" "nodes h b = Some n" "head_prev h = Entry b"
    "distinct (bs @ [b])"
proof -
  have "seg (nodes h) (head_next h) Head (bs @ [b]) Head (head_prev h)" and dist: "distinct (bs @ [b])"
    using assms unfolding chain_def by blast+
  then obtain m r where m: "seg (nodes h) (head_next h) Head bs m r" "seg (nodes h) m r [b] Head (head_prev h)"
    unfolding seg_append by blast
  from m(2) obtain n where n: "m = Entry b" "nodes h b = Some n" "lprev n = r" "head_prev h = Entry b" by auto
  show ?thesis by (rule that [OF _ n(2,4) dist]) (use m(1) n(1,3) in simp)
qed

lemma pointer_add_tail_chain:
  assumes h: "chain h as" and a: "nodes h a = Some n" "a \<notin> set as"
  shows "\<exists>h'. pointer_add_tail (Entry a) h = Inr h' \<and> chain h' (as @ [a]) \<and> data h' = data h \<and> texts_of h' = texts_of h"
proof (cases as rule: rev_cases)
  case Nil
  with h a show ?thesis
    by (auto simp: chain_def pointer_add_tail_def pointer_defs data_def data_of_def fun_eq_iff)
next
  case (snoc bs b)
  obtain nb where b: "seg (nodes h) (head_next h) Head bs (Entry b) (lprev nb)" "nodes h b = Some nb" "head_prev h = Entry b"
      "distinct (bs @ [b])"
    using chain_last [OF h [unfolded snoc]] by metis
  let ?n = "n\<lparr>lnext := Head, lprev := Entry b\<rparr>"
  let ?h' = "h\<lparr>head_prev := Entry a, nodes := (nodes h)(a \<mapsto> ?n, b \<mapsto> nb\<lparr>lnext := Entry a\<rparr>)\<rparr>"
  have neq: "a \<noteq> b" "a \<notin> set bs" "b \<notin> set bs" using a(2) b(4) snoc by auto
  have "pointer_add_tail (Entry a) h = Inr ?h'"
    using a(1) b(2,3) neq by (simp add: pointer_add_tail_def pointer_defs)
  moreover have "chain ?h' (as @ [a])"
    using b(1,4) neq by (simp add: chain_def snoc)
  moreover have "data ?h' = data h" using a(1) b(2) neq by (simp add: data_def fun_eq_iff)
  ultimately show ?thesis by auto
qed

lemma pointer_del_chain:
  assumes h: "chain h (xs @ a # ys)"
  shows "\<exists>h'. pointer_del (Entry a) h = Inr h' \<and> chain h' (xs @ ys) \<and> data h' = data h \<and> texts_of h' = texts_of h"
proof -
  obtain n where n: "nodes h a = Some n" "seg (nodes h) (head_next h) Head xs (Entry a) (lprev n)"
      "seg (nodes h) (lnext n) (Entry a) ys Head (head_prev h)" "a \<notin> set xs" "a \<notin> set ys" "distinct (xs @ ys)"
    using h by (auto simp: chain_def)
  obtain h1 where h1: "set_prev (lnext n) (lprev n) h = Inr h1" "seg (nodes h1) (lnext n) (lprev n) ys Head (head_prev h1)"
      "seg (nodes h1) (head_next h1) Head xs (Entry a) (lprev n)" "nodes h1 a = Some n" "data h1 = data h" "texts_of h1 = texts_of h"
  proof (cases ys)
    case Nil
    then show ?thesis using n by (intro that [of "h\<lparr>head_prev := lprev n\<rparr>"]) (auto simp: pointer_defs)
  next
    case (Cons b bs)
    then obtain nb where b: "lnext n = Entry b" "nodes h b = Some nb" "seg (nodes h) (lnext nb) (Entry b) bs Head (head_prev h)"
      using n(3) by auto
    show ?thesis
      by (rule that [of "h\<lparr>nodes := (nodes h)(b \<mapsto> nb\<lparr>lprev := lprev n\<rparr>)\<rparr>"])
        (use n b Cons in \<open>auto simp: pointer_defs data_relink\<close>)
  qed
  obtain h2 where h2: "set_next (lprev n) (lnext n) h1 = Inr h2" "chain h2 (xs @ ys)" "nodes h2 a = Some n" "data h2 = data h1"
      "texts_of h2 = texts_of h1"
  proof (cases xs rule: rev_cases)
    case Nil
    then show ?thesis using n h1(2-5) by (intro that [of "h1\<lparr>head_next := lnext n\<rparr>"]) (auto simp: set_next_def chain_def)
  next
    case (snoc bs b)
    then obtain nb where b: "lprev n = Entry b" "nodes h1 b = Some nb" "seg (nodes h1) (head_next h1) Head bs (Entry b) (lprev nb)"
      using h1(3) by auto
    show ?thesis
      by (rule that [of "h1\<lparr>nodes := (nodes h1)(b \<mapsto> nb\<lparr>lnext := lnext n\<rparr>)\<rparr>"])
        (use n h1(2-5) b snoc in \<open>auto simp: set_next_def data_relink chain_def\<close>)
  qed
  have "pointer_del (Entry a) h = Inr (h2\<lparr>nodes := (nodes h2)(a \<mapsto> n\<lparr>lnext := Poison, lprev := Poison\<rparr>)\<rparr>)"
    using n(1) h1(1) h2(1,3) by (simp add: pointer_del_def next_of_def prev_of_def) (simp add: set_next_def set_prev_def)
  moreover have "chain (h2\<lparr>nodes := (nodes h2)(a \<mapsto> n\<lparr>lnext := Poison, lprev := Poison\<rparr>)\<rparr>) (xs @ ys)"
    using h2(2) n(4,5) by (auto simp: chain_def)
  ultimately show ?thesis
    using h1(5,6) h2 by (auto simp: data_relink)
qed

interpretation pointers: list_primitives pointer_add_tail pointer_del
  by unfold_locales (blast intro: pointer_add_tail_chain, rule pointer_del_chain)

section \<open>A concrete list\<close>

definition demo_list :: list_state where
  "demo_list = \<lparr>head_next = Entry 60, head_prev = Entry 60,
     nodes = [60 \<mapsto> \<lparr>lnext = Head, lprev = Head, npath = 30, nlength = 7\<rparr>], texts_of = bufs demo_kernel\<rparr>"

lemma demo_list_represents: "represents demo_list demo_kernel"
  unfolding represents_def
  by (intro conjI exI [of _ "[60]"]) (simp_all add: demo_list_def chain_def data_def data_of_def demo_kernel_def)

theorem list_implements_paths_witness:
  "(\<exists>h'. list_add_valid_path pointer_add_tail (demo_alloc 61) 40 2 demo_list = Inr h' \<and> represents h' (add_valid_path True 40 2 demo_kernel)) \<and>
   (\<exists>h' s'. list_resetvalid pointer_del demo_list = Some (Inr h') \<and> represents h' s' \<and> valid_paths s' = []) \<and>
   list_is_valid_path ''/os/sl6'' demo_list = Some (Inr True) \<and> list_print_valid demo_list = Some (Inr (''/os/sl6'' @ [NL]))"
proof -
  have "demo_alloc 61 (\<lambda>a. nodes demo_list a \<noteq> None) \<noteq> None" by (simp add: demo_alloc_def demo_list_def)
  with list_implements_paths [OF pointers.list_primitives_axioms demo_list_represents demo_kernel_inv demo_alloc_fresh, of 61 40 2 "''/os/sl6''"]
  show ?thesis by (auto simp: demo_kernel_strings)
qed

theorem valid_walk_use_after_free_witness:
  "\<exists>h'. list_resetvalid pointer_del demo_list = Some (Inr h') \<and> list_is_valid_loop ''/a'' (Entry 60) h' = Some (Inl Use_After_Free)"
  by (rule valid_walk_use_after_free [OF pointers.list_primitives_axioms demo_list_represents demo_kernel_inv]) (simp add: demo_list_def)

end
