(* ===== verification/Boot_Script.thy ===== *)
theory Boot_Script
  imports Valid_Paths Conf_Files
begin

text \<open>
  The part of \<^verbatim>\<open>utils/chos.init\<close> that decides which trees may be entered: \<^verbatim>\<open>loadvalid\<close>, which root runs when the system starts, empties the
  list of valid paths and writes to \<^verbatim>\<open>/proc/chos/valid\<close> what an \<^verbatim>\<open>awk\<close> program finds in \<^verbatim>\<open>/etc/chos\<close>. It reads the file that \<^verbatim>\<open>check_chos\<close> reads for
  users, in its own way; here the two are compared. The shell and the standard tools are a record of parameters.
\<close>

section \<open>The script\<close>

text \<open>
  The \<^verbatim>\<open>awk\<close> program, with the colon between fields: \<open>start\<close> is its variable, which is 0 at first. The last statement
  is \<^verbatim>\<open>if ($1="%SHELLS"){start=1}\<close>, an assignment, which is true for every line that comes to it.
\<close>

definition field2 :: "string \<Rightarrow> string" where
  "field2 l = (case split_colon l of None \<Rightarrow> [] | Some (_, r) \<Rightarrow> takeWhile (\<lambda>c. c \<noteq> CHR '':'') r)"

fun awk_valid :: "bool \<Rightarrow> string list \<Rightarrow> string list" where
  "awk_valid start [] = []"
| "awk_valid start (l # ls) =
     (if l = [] \<or> hd l = CHR ''#'' then awk_valid start ls
      else let start1 = (if hd l = CHR ''%'' then False else start)
           in (if start1 then [field2 l] else []) @ awk_valid True ls)"

text \<open>
  What the script uses of the shell: expansion of file name patterns, the text that \<^verbatim>\<open>echo\<close> prints for its arguments, and the
  pipeline \<^verbatim>\<open>sort|uniq\<close> on lines. An unquoted variable is split at blanks, tabs and newlines, and each word is expanded.
\<close>

record shell =
  glob :: "string \<Rightarrow> string list"
  echo :: "string list \<Rightarrow> string"
  sort_uniq :: "string list \<Rightarrow> string list"

definition blank :: "char \<Rightarrow> bool" where
  "blank c \<longleftrightarrow> c = CHR '' '' \<or> c = CHR 0x09 \<or> c = NL"

function split_words :: "string \<Rightarrow> string list" where
  "split_words [] = []"
| "split_words (c # s) =
     (if blank c then split_words s
      else (c # takeWhile (\<lambda>d. \<not> blank d) s) # split_words (dropWhile (\<lambda>d. \<not> blank d) s))"
  by pat_completeness auto
termination
  by (relation "measure length") (auto simp: length_dropWhile_le le_imp_less_Suc)

definition expand :: "shell \<Rightarrow> string \<Rightarrow> string list" where
  "expand sh s = concat (map (glob sh) (split_words s))"

text \<open>The texts that \<^verbatim>\<open>loadvalid\<close> writes, one by one, to \<^verbatim>\<open>/proc/chos/valid\<close>; \<open>None\<close> is a system without \<^verbatim>\<open>/etc/chos\<close>.\<close>

definition loadvalid :: "shell \<Rightarrow> string list option \<Rightarrow> string list" where
  "loadvalid sh conf =
     (case conf of
        None \<Rightarrow> []
      | Some ls \<Rightarrow>
         echo sh [''-''] #
         map (\<lambda>line. echo sh (expand sh line)) (expand sh (unlines (sort_uniq sh (awk_valid False ls)))))"

text \<open>
  A text arrives at the kernel in one call of the handler, whose result the script does not look at. \<open>km\<close> and \<open>ke\<close> are the allocations of
  the text and of the entry of the list, which may fail.
\<close>

fun write_texts :: "tasks \<Rightarrow> tid \<Rightarrow> kmalloc \<Rightarrow> (kernel_state \<Rightarrow> bool) \<Rightarrow> copier \<Rightarrow> string list \<Rightarrow> kernel_state \<Rightarrow> fault + kernel_state" where
  "write_texts ts current km ke cp [] s = Inr s"
| "write_texts ts current km ke cp (x # xs) s =
     ebind (write_valid ts current km (ke s) cp (umem x) (length x) s) (\<lambda>(ret, s1). write_texts ts current km ke cp xs s1)"

section \<open>What is relied on\<close>

text \<open>
  A plain path begins with a slash and has no blanks, no characters that mean something in a file name pattern, and no colon.
\<close>

definition plain :: "string \<Rightarrow> bool" where
  "plain w \<longleftrightarrow> w \<noteq> [] \<and> hd w = CHR ''/'' \<and> NUL \<notin> set w \<and>
     (\<forall>c \<in> set w. \<not> blank c \<and> c \<noteq> CHR '':'' \<and> c \<noteq> CHR ''*'' \<and> c \<noteq> CHR ''?'' \<and> c \<noteq> CHR ''['' \<and> c \<noteq> CHR 0x5C)"

lemma plainD: "plain w \<Longrightarrow> w \<noteq> []" "plain w \<Longrightarrow> CHR '':'' \<notin> set w"
  by (auto simp: plain_def)

definition shell_ok :: "shell \<Rightarrow> bool" where
  "shell_ok sh \<longleftrightarrow>
     (\<forall>w. plain w \<longrightarrow> glob sh w = [w] \<and> echo sh [w] = w @ [NL]) \<and> echo sh [''-''] = [CHR ''-'', NL] \<and>
     (\<forall>ls. set (sort_uniq sh ls) = set ls)"

text \<open>Memory for as long as only finitely many objects are allocated.\<close>

definition ample :: "kmalloc \<Rightarrow> bool" where
  "ample km \<longleftrightarrow> fresh_alloc km \<and> (\<forall>live. finite (Collect live) \<longrightarrow> km live \<noteq> None)"

lemma ample_live:
  assumes "ample km" and "finite (dom m)" and "\<forall>a. live a \<longrightarrow> m a \<noteq> None"
  shows "km live \<noteq> None"
proof -
  have "Collect live \<subseteq> dom m" using assms(3) by auto
  then show ?thesis using assms(1) finite_subset [OF _ assms(2)] by (simp add: ample_def)
qed

section \<open>Words\<close>

lemma split_words_blank: "blank c \<Longrightarrow> split_words (c # s) = split_words s"
  by simp

lemma split_words_word:
  assumes "w \<noteq> []" "\<forall>c \<in> set w. \<not> blank c" "blank b"
  shows "split_words (w @ b # s) = w # split_words s"
  using assms by (cases w) (simp_all add: takeWhile_append dropWhile_append)

lemma split_words_lines:
  assumes "\<forall>l \<in> set ls. \<forall>c \<in> set l. \<not> blank c"
  shows "split_words (unlines ls) = filter (\<lambda>l. l \<noteq> []) ls"
  using assms
proof (induction ls)
  case Nil
  then show ?case by simp
next
  case (Cons l ls)
  have nl: "blank NL" by (simp add: blank_def)
  show ?case
  proof (cases "l = []")
    case True
    with Cons nl show ?thesis by (simp del: split_words.simps add: split_words_blank)
  next
    case False
    with Cons nl split_words_word [of l NL "unlines ls"] show ?thesis by simp
  qed
qed

lemma split_words_single:
  assumes "w \<noteq> []" "\<forall>c \<in> set w. \<not> blank c"
  shows "split_words w = [w]"
proof -
  from assms obtain c s where w: "w = c # s" "\<not> blank c" "\<forall>d \<in> set s. \<not> blank d" by (cases w) simp_all
  then have all: "takeWhile (\<lambda>d. \<not> blank d) s = s" "dropWhile (\<lambda>d. \<not> blank d) s = []"
    by (simp_all add: takeWhile_eq_all_conv dropWhile_eq_Nil_conv)
  show ?thesis unfolding w(1) split_words.simps all using w(2) by simp
qed

lemma plain_single: "plain w \<Longrightarrow> split_words w = [w]"
  by (rule split_words_single) (simp_all add: plain_def)

lemma loadvalid_texts:
  assumes sh: "shell_ok sh" and ls: "\<forall>w \<in> set (awk_valid False ls). w = [] \<or> plain w"
  shows "loadvalid sh (Some ls) =
    [CHR ''-'', NL] # map (\<lambda>w. w @ [NL]) (filter (\<lambda>w. w \<noteq> []) (sort_uniq sh (awk_valid False ls)))"
proof -
  let ?out = "filter (\<lambda>w. w \<noteq> []) (sort_uniq sh (awk_valid False ls))"
  have same: "set (sort_uniq sh (awk_valid False ls)) = set (awk_valid False ls)" using sh by (simp add: shell_ok_def)
  then have plain: "\<forall>w \<in> set ?out. plain w" using ls by auto
  have noblank: "\<forall>c \<in> set w. \<not> blank c" if "w = [] \<or> plain w" for w using that by (cases "w = []") (simp_all add: plain_def)
  have "\<forall>w \<in> set (sort_uniq sh (awk_valid False ls)). \<forall>c \<in> set w. \<not> blank c"
  proof
    fix w
    assume "w \<in> set (sort_uniq sh (awk_valid False ls))"
    with same ls have "w = [] \<or> plain w" by simp
    then show "\<forall>c \<in> set w. \<not> blank c" by (rule noblank)
  qed
  then have "split_words (unlines (sort_uniq sh (awk_valid False ls))) = ?out" by (rule split_words_lines)
  moreover have "concat (map (glob sh) ?out) = ?out"
    using plain sh by (subst map_cong [OF refl, of ?out "glob sh" "\<lambda>w. [w]"]) (simp_all add: shell_ok_def)
  ultimately have "expand sh (unlines (sort_uniq sh (awk_valid False ls))) = ?out" unfolding expand_def by simp
  moreover have "echo sh (expand sh w) = w @ [NL]" if "plain w" for w
    using that sh plain_single by (simp add: expand_def shell_ok_def)
  ultimately show ?thesis using sh plain by (simp add: loadvalid_def shell_ok_def)
qed

section \<open>The writes\<close>

text \<open>The data that stays as it is while root writes to \<^verbatim>\<open>/proc/chos/valid\<close>.\<close>

definition settled :: "kernel_state \<Rightarrow> kernel_state \<Rightarrow> bool" where
  "settled s s' \<longleftrightarrow> kernel_inv s' \<and> view s' = view s \<and> creds s' = creds s \<and> finite (dom (bufs s')) \<and>
     length (procs s') = length (procs s) \<and> links s' = links s"

lemma write_dash:
  assumes inv: "kernel_inv s" "finite (dom (bufs s))" and root: "ts current = Some t" "euid (creds s (tcred t)) = 0"
  obtains ret s' where "write_valid ts current km m cp (umem [CHR ''-'', NL]) (length [CHR ''-'', NL]) s = Inr (ret, s')"
    "settled s s'" "valid_strings s' = []"
proof -
  obtain s' where s': "resetvalid s = Inr s'" "kernel_inv s'" "valid_paths s' = []" "view s' = view s"
      "s' = s\<lparr>valid_paths := [], bufs := (\<lambda>b. if b \<in> vpath ` set (valid_paths s) then None else bufs s b)\<rparr>"
    using resetvalid_loop_ok [OF inv(1) refl] unfolding resetvalid_def by blast
  have "dom (bufs s') \<subseteq> dom (bufs s)" by (auto simp: s'(5) split: if_splits)
  with inv(2) have "finite (dom (bufs s'))" by (rule rev_finite_subset)
  then have "settled s s'" using s'(2,4) by (simp add: settled_def s'(5))
  with that s' root show ?thesis by (simp add: write_valid_def umem_def valid_strings_def)
qed

lemma write_line:
  assumes inv: "kernel_inv s" "finite (dom (bufs s))" and root: "ts current = Some t" "euid (creds s (tcred t)) = 0"
    and km: "ample km" and cp: "copies cp" "\<And>b. fst (cp b) = 0" and w: "plain w"
  obtains ret s' where "write_valid ts current km True cp (umem (w @ [NL])) (length (w @ [NL])) s = Inr (ret, s')"
    "settled s s'" "valid_strings s' = valid_strings s @ [w]"
proof -
  obtain a where a: "km (\<lambda>a. bufs s a \<noteq> None) = Some a" using ample_live [OF km inv(2), of "\<lambda>a. bufs s a \<noteq> None"] by blast
  have free: "bufs s a = None" using fresh_allocD [of km, OF _ a] km by (simp add: ample_def)
  have w': "NL \<notin> set w" "NUL \<notin> set w" "w \<noteq> []" "hd w = CHR ''/''" using w by (auto simp: plain_def blank_def)
  have copy: "snd (cp w) = w" using cp by (simp add: copies_def)
  let ?s' = "add_valid_path True a (int (length w)) (s\<lparr>bufs := (bufs s)(a \<mapsto> w @ [NUL])\<rparr>)"
  note add = add_path_inv [OF inv(1) free refl, of "int (length w)" w]
  have "umem (w @ [NL]) 0 = Some (CHR ''/'')" using w'(3,4) by (cases w) (simp_all add: umem_def)
  then have "write_valid ts current km True cp (umem (w @ [NL])) (length (w @ [NL])) s = Inr (int (length (w @ [NL])), ?s')"
    using root a copy umem_text [OF w'(1,2)] by (simp add: write_valid_def scan_line_iff)
  moreover have "settled s ?s'" using add(1,3) inv(2) by (simp add: settled_def add_valid_path_def)
  moreover have "valid_strings ?s' = valid_strings s @ [w]" using add(2) cstr_no_NUL [OF w'(2)] by simp
  ultimately show ?thesis using that by blast
qed

lemma write_lines:
  assumes "kernel_inv s" "finite (dom (bufs s))" "ts current = Some t" "euid (creds s (tcred t)) = 0"
    and km: "ample km" "\<And>s. ke s" and cp: "copies cp" "\<And>b. fst (cp b) = 0" and "\<forall>w \<in> set ws. plain w"
  shows "\<exists>s'. write_texts ts current km ke cp (map (\<lambda>w. w @ [NL]) ws) s = Inr s' \<and> settled s s' \<and>
    valid_strings s' = valid_strings s @ ws"
  using assms(1-4) assms(9)
proof (induction ws arbitrary: s)
  case Nil
  then show ?case by (simp add: settled_def)
next
  case (Cons w ws)
  obtain ret s1 where s1: "write_valid ts current km True cp (umem (w @ [NL])) (length (w @ [NL])) s = Inr (ret, s1)"
      "settled s s1" "valid_strings s1 = valid_strings s @ [w]"
    by (rule write_line [of s ts current t km cp w, OF Cons.prems(1-4) km(1) cp]) (use Cons.prems(5) in auto)
  obtain s' where "write_texts ts current km ke cp (map (\<lambda>w. w @ [NL]) ws) s1 = Inr s'" "settled s1 s'"
      "valid_strings s' = valid_strings s1 @ ws"
    using Cons.IH [of s1] Cons.prems s1(2) by (auto simp: settled_def)
  with s1 km(2) [of s] show ?case by (auto simp: settled_def)
qed

section \<open>Both readers of the file\<close>

text \<open>Within a section, and after the first line, the script prints the second field of every line that is not a comment.\<close>

lemma awk_body: "l \<in> set (body ls) \<Longrightarrow> field2 l \<in> set (awk_valid True ls)"
  by (induction ls) (auto simp: comment_def Let_def split: if_splits)

lemma awk_section: "l \<in> set (section_of head ls) \<Longrightarrow> \<not> comment head \<Longrightarrow> field2 l \<in> set (awk_valid start ls)"
proof (induction ls arbitrary: start)
  case (Cons m ls)
  then show ?case
    by (cases "comment m"; cases "m = head") (auto simp: comment_def Let_def dest: awk_body)
qed simp

text \<open>
  What the script finds, without its variable: the second fields of all lines, comments, empty lines and the first line aside, that do not begin with a
  percent sign; the sections make no difference.
\<close>

definition boot_paths :: "string list \<Rightarrow> string list" where
  "boot_paths ls = map field2 (filter (\<lambda>l. hd l \<noteq> CHR ''%'') (drop 1 (filter (\<lambda>l. l \<noteq> [] \<and> hd l \<noteq> CHR ''#'') ls)))"

lemma awk_valid_started:
  "awk_valid True ls = map field2 (filter (\<lambda>l. hd l \<noteq> CHR ''%'') (filter (\<lambda>l. l \<noteq> [] \<and> hd l \<noteq> CHR ''#'') ls))"
  by (induction ls) (auto simp: Let_def)

lemma awk_valid_paths: "awk_valid False ls = boot_paths ls"
  by (induction ls) (auto simp: Let_def boot_paths_def awk_valid_started)

lemma awk_lookup:
  assumes "conf_lookup ls name = Some path"
  shows "takeWhile (\<lambda>c. c \<noteq> CHR '':'') path \<in> set (boot_paths ls)"
proof -
  obtain l where l: "l \<in> set (section_of SHELLHEAD ls)" "split_colon l = Some (name, path)"
    using map_of_SomeD [OF assms [unfolded conf_lookup_def]] by (auto simp: List.map_filter_def)
  have "field2 l \<in> set (awk_valid False ls)" by (rule awk_section [OF l(1)]) (simp add: comment_def)
  then show ?thesis using l(2) by (simp add: awk_valid_paths field2_def)
qed

lemma boot_run:
  assumes sh: "shell_ok sh" and ls: "\<forall>w \<in> set (boot_paths ls). w = [] \<or> plain w"
    and kernel: "kernel_inv s" "finite (dom (bufs s))" and root: "ts current = Some t" "euid (creds s (tcred t)) = 0"
    and km: "ample km" "\<And>s. ke s" and cp: "copies cp" "\<And>b. fst (cp b) = 0"
  obtains s' where "write_texts ts current km ke cp (loadvalid sh (Some ls)) s = Inr s'" "settled s s'"
    "valid_strings s' = filter (\<lambda>w. w \<noteq> []) (sort_uniq sh (boot_paths ls))"
    "\<And>name path. conf_lookup ls name = Some path \<Longrightarrow> path \<in> set (valid_strings s') \<longleftrightarrow> path \<noteq> [] \<and> CHR '':'' \<notin> set path"
proof -
  let ?ws = "filter (\<lambda>w. w \<noteq> []) (sort_uniq sh (boot_paths ls))"
  have same: "set (sort_uniq sh (boot_paths ls)) = set (boot_paths ls)" using sh by (simp add: shell_ok_def)
  have plain: "plain w" if "w \<in> set ?ws" for w using that ls same by auto
  obtain ret s1 where s1: "write_valid ts current km (ke s) cp (umem [CHR ''-'', NL]) (length [CHR ''-'', NL]) s = Inr (ret, s1)"
      "settled s s1" "valid_strings s1 = []"
    by (rule write_dash [of s ts current t, OF kernel root])
  then obtain s' where s': "write_texts ts current km ke cp (map (\<lambda>w. w @ [NL]) ?ws) s1 = Inr s'" "settled s1 s'" "valid_strings s' = ?ws"
    using write_lines [of s1 ts current t km ke cp ?ws, OF _ _ root(1) _ km cp(1,2)] root(2) plain by (auto simp: settled_def)
  show ?thesis
  proof (rule that)
    show "write_texts ts current km ke cp (loadvalid sh (Some ls)) s = Inr s'"
      using s1(1) s'(1) loadvalid_texts [OF sh, of ls] ls by (simp add: awk_valid_paths)
    show "settled s s'" using s1(2) s'(2) by (simp add: settled_def)
    show "valid_strings s' = ?ws" by (rule s'(3))
    show "path \<in> set (valid_strings s') \<longleftrightarrow> path \<noteq> [] \<and> CHR '':'' \<notin> set path" if p: "conf_lookup ls name = Some path" for name path
    proof
      assume "path \<in> set (valid_strings s')"
      with plain s'(3) have "plain path" by simp
      then show "path \<noteq> [] \<and> CHR '':'' \<notin> set path" by (auto simp: plain_def)
    next
      assume n: "path \<noteq> [] \<and> CHR '':'' \<notin> set path"
      then have "takeWhile (\<lambda>c. c \<noteq> CHR '':'') path = path" by (auto simp: takeWhile_eq_all_conv)
      with awk_lookup [OF p] n same show "path \<in> set (valid_strings s')" by (simp add: s'(3))
    qed
  qed
qed

section \<open>Properties\<close>

text \<open>
  C24. What starting the system makes enterable: when root runs \<^verbatim>\<open>loadvalid\<close> on a file whose second fields are empty or plain, whatever was on the list of valid paths is
  replaced by exactly the second fields of all lines of the file but the first, comments and lines that begin with a percent sign, of all
  sections, not only of \<^verbatim>\<open>%SHELLS\<close> as the documentation says, each in the place that \<^verbatim>\<open>sort|uniq\<close> gives it. Of the paths that
  \<^verbatim>\<open>check_chos\<close> finds for a name in the same file those are valid that are not empty and have no colon in them; a path with a colon,
  which \<^verbatim>\<open>check_chos\<close> takes whole, is not. No process's path changes.
\<close>

theorem boot_makes_valid:
  assumes sh: "shell_ok sh" and ls: "\<forall>w \<in> set (boot_paths ls). w = [] \<or> plain w"
    and kernel: "kernel_inv s" "finite (dom (bufs s))" and root: "ts current = Some t" "euid (creds s (tcred t)) = 0"
    and km: "ample km" "\<And>s. ke s" and cp: "copies cp" "\<And>b. fst (cp b) = 0"
  shows "\<exists>s'. write_texts ts current km ke cp (loadvalid sh (Some ls)) s = Inr s' \<and> kernel_inv s' \<and> view s' = view s \<and>
    valid_strings s' = filter (\<lambda>w. w \<noteq> []) (sort_uniq sh (boot_paths ls)) \<and>
    (\<forall>name path. conf_lookup ls name = Some path \<longrightarrow> is_valid_path path s' = Inr (path \<noteq> [] \<and> CHR '':'' \<notin> set path))"
proof -
  obtain s' where s': "write_texts ts current km ke cp (loadvalid sh (Some ls)) s = Inr s'" "settled s s'"
      "valid_strings s' = filter (\<lambda>w. w \<noteq> []) (sort_uniq sh (boot_paths ls))"
      "\<And>name path. conf_lookup ls name = Some path \<Longrightarrow> path \<in> set (valid_strings s') \<longleftrightarrow> path \<noteq> [] \<and> CHR '':'' \<notin> set path"
    using boot_run [of sh ls s ts current t km ke cp, OF assms] by metis
  then have inv: "kernel_inv s'" "view s' = view s" by (simp_all add: settled_def)
  then have "is_valid_path path s' = Inr (path \<noteq> [] \<and> CHR '':'' \<notin> set path)" if "conf_lookup ls name = Some path" for name path
    using s'(4) [OF that] is_valid_path_strings [of s' path] by (simp add: kernel_inv_def)
  with s' inv show ?thesis by blast
qed

text \<open>A shell, an allocator and a start of the system.\<close>

definition demo_shell :: shell where
  "demo_shell = \<lparr>glob = (\<lambda>w. [w]), echo = (\<lambda>ws. concat ws @ [NL]), sort_uniq = remdups\<rparr>"

definition first_free :: kmalloc where
  "first_free live = (if \<exists>a. \<not> live a then Some (LEAST a. \<not> live a) else None)"

lemma demo_shell_ok: "shell_ok demo_shell"
  by (simp add: shell_ok_def demo_shell_def)

lemma first_free_ample: "ample first_free"
proof -
  have "\<exists>a. \<not> live a" if "finite (Collect live)" for live :: "addr \<Rightarrow> bool"
    using ex_new_if_finite [OF infinite_UNIV_nat that] by auto
  moreover have "\<not> live a" if "first_free live = Some a" for live a
    using that LeastI_ex [of "\<lambda>a. \<not> live a"] unfolding first_free_def by (metis option.distinct(1) option.inject)
  ultimately show ?thesis unfolding ample_def fresh_alloc_def by (metis first_free_def option.distinct(1))
qed

lemma demo_bufs_finite: "finite (dom (bufs demo_kernel))"
proof -
  have "dom (bufs demo_kernel) \<subseteq> {20, 21, 30}" by (auto simp: demo_kernel_def demo_bufs_def split: if_splits)
  then show ?thesis by (rule finite_subset) simp
qed

theorem boot_makes_valid_witness:
  "\<exists>s'. write_texts demo_tasks 0 first_free (\<lambda>_. True) (\<lambda>b. (0, b))
         (loadvalid demo_shell (Some [''%SHELLS'', ''local:/'', ''sl7:/os/sl7'', ''a:/os/a:b'', ''%ENV'', ''x:/tmp''])) demo_kernel
       = Inr s' \<and> valid_strings s' = [''/'', ''/os/sl7'', ''/os/a'', ''/tmp''] \<and> is_valid_path ''/os/sl7'' s' = Inr True \<and>
     is_valid_path ''/os/a:b'' s' = Inr False"
proof -
  let ?ls = "[''%SHELLS'', ''local:/'', ''sl7:/os/sl7'', ''a:/os/a:b'', ''%ENV'', ''x:/tmp'']"
  have awk: "boot_paths ?ls = [''/'', ''/os/sl7'', ''/os/a'', ''/tmp'']" by (simp add: boot_paths_def field2_def)
  have root: "demo_tasks 0 = Some \<lparr>tpid = 1, tstart = 1, tparent = None, tfs = 0, tcred = 0\<rparr>" by (simp add: demo_tasks_def)
  have plain: "\<forall>w \<in> set (boot_paths ?ls). w = [] \<or> plain w" unfolding awk by (simp add: plain_def blank_def)
  have conf: "conf_lookup ?ls ''sl7'' = Some ''/os/sl7''" "conf_lookup ?ls ''a'' = Some ''/os/a:b''"
    by (simp_all add: conf_lookup_def comment_def map_filter_simps)
  have "\<exists>s'. write_texts demo_tasks 0 first_free (\<lambda>_. True) (\<lambda>b. (0, b)) (loadvalid demo_shell (Some ?ls)) demo_kernel = Inr s' \<and>
      kernel_inv s' \<and> view s' = view demo_kernel \<and>
      valid_strings s' = filter (\<lambda>w. w \<noteq> []) (sort_uniq demo_shell (boot_paths ?ls)) \<and>
      (\<forall>name path. conf_lookup ?ls name = Some path \<longrightarrow> is_valid_path path s' = Inr (path \<noteq> [] \<and> CHR '':'' \<notin> set path))"
    by (rule boot_makes_valid [of demo_shell ?ls demo_kernel demo_tasks 0, OF demo_shell_ok plain demo_kernel_inv demo_bufs_finite root
          _ first_free_ample])
      (simp_all add: copies_def demo_kernel_def)
  then obtain s' where s': "write_texts demo_tasks 0 first_free (\<lambda>_. True) (\<lambda>b. (0, b)) (loadvalid demo_shell (Some ?ls)) demo_kernel = Inr s'"
      "valid_strings s' = filter (\<lambda>w. w \<noteq> []) (sort_uniq demo_shell (boot_paths ?ls))" "is_valid_path ''/os/sl7'' s' = Inr True"
      "is_valid_path ''/os/a:b'' s' = Inr False"
    using conf by fastforce
  have "valid_strings s' = [''/'', ''/os/sl7'', ''/os/a'', ''/tmp'']" unfolding s'(2) awk by (simp add: demo_shell_def)
  with s'(1,3,4) show ?thesis by blast
qed

text \<open>
  The two readers do not agree on every file. The assignment in the \<^verbatim>\<open>awk\<close> program makes it accept the lines of all sections, not
  only of \<^verbatim>\<open>%SHELLS\<close>, and a path with a colon, which \<^verbatim>\<open>check_chos\<close> takes whole, is cut at the colon, so that users are sent to a path that
  is not valid.
\<close>

theorem boot_readers_differ:
  "awk_valid False [''%SHELLS'', ''sl6:/os/sl6'', ''%ENV'', ''x:/tmp''] = [''/os/sl6'', ''/tmp'']"
  "conf_lookup [''%SHELLS'', ''sl6:/os/sl6'', ''%ENV'', ''x:/tmp''] ''x'' = None"
  "conf_lookup [''%SHELLS'', ''a:/os/a:b''] ''a'' = Some ''/os/a:b''"
  "''/os/a:b'' \<notin> set (awk_valid False [''%SHELLS'', ''a:/os/a:b''])"
  by (simp_all add: field2_def conf_lookup_def comment_def map_filter_simps)

end
