(* ===== verification/Init_Script.thy ===== *)
theory Init_Script
  imports Boot_Script "HOL-Library.Sublist" "HOL-Library.Multiset" "HOL-Library.Char_ord" "HOL-Library.List_Lexorder"
begin

text \<open>
  The rest of \<^verbatim>\<open>utils/chos.init\<close>: loading and unloading the module, the bind mounts under \<^verbatim>\<open>/chos\<close>, the symbolic links through the special link, and the
  actions of the script. The script is a sequence of commands; what the tests see and what the commands return is a parameter that depends
  on the commands that have been run before.
\<close>

section \<open>Commands\<close>

datatype cmd =
    Modprobe
  | Modprobe_r
  | Mkdir string
  | Mount_bind string string
  | Make_private string
  | Umount string
  | Ln string string  \<comment> \<open>\<^verbatim>\<open>ln -s\<close>, the target first\<close>
  | Touch string
  | Rm string
  | Append string  \<comment> \<open>to \<^verbatim>\<open>/proc/chos/valid\<close>\<close>

text \<open>The machine that the script runs on: the answers to tests, the exit status of the last command of a history, and whether a process uses a mount, given
  by the components of its path. Histories have the last command first.\<close>

record host =
  sh_of :: shell
  is_dir :: "cmd list \<Rightarrow> string \<Rightarrow> bool"
  path_exists :: "cmd list \<Rightarrow> string \<Rightarrow> bool"
  is_symlink :: "cmd list \<Rightarrow> string \<Rightarrow> bool"
  ls_root :: "cmd list \<Rightarrow> string list"
  lsmod :: "cmd list \<Rightarrow> string list"
  status :: "cmd list \<Rightarrow> nat"
  in_use :: "cmd list \<Rightarrow> string list \<Rightarrow> bool"

text \<open>The variables of \<^verbatim>\<open>/etc/sysconfig/chos\<close>, with the empty text for one that is not set, and the lines of \<^verbatim>\<open>/etc/chos\<close>.\<close>

record settings =
  BINDMOUNT :: string
  MAKELINKS :: string
  PRIVATE_MOUNTS :: string
  chos_lines :: "string list option"

text \<open>The state of the script: the commands so far, \<^verbatim>\<open>RETVAL\<close>, and the answers of \<^verbatim>\<open>status\<close> and the usage.\<close>

record script =
  history :: "cmd list"
  RETVAL :: nat
  said :: "string list"

definition run :: "cmd \<Rightarrow> script \<Rightarrow> script" where
  "run c x = x\<lparr>history := c # history x\<rparr>"

section \<open>Mounts and links\<close>

definition in_chos :: "string \<Rightarrow> string" where
  "in_chos d = ''/chos/'' @ d"

definition via_link :: "string \<Rightarrow> string" where
  "via_link d = ''/proc/chos/link/'' @ d"

definition bindmount :: "settings \<Rightarrow> string \<Rightarrow> string \<Rightarrow> script \<Rightarrow> script" where
  "bindmount cfg source mountpoint x =
     (let x1 = run (Mount_bind source mountpoint) x
      in if PRIVATE_MOUNTS cfg = [] \<or> PRIVATE_MOUNTS cfg \<noteq> ''no'' then run (Make_private mountpoint) x1 else x1)"

definition ensure_dir :: "host \<Rightarrow> string \<Rightarrow> script \<Rightarrow> script" where
  "ensure_dir h p x = (if is_dir h (history x) p then x else run (Mkdir p) x)"

fun mount_loop :: "host \<Rightarrow> settings \<Rightarrow> string list \<Rightarrow> script \<Rightarrow> script" where
  "mount_loop h cfg [] x = x"
| "mount_loop h cfg (d # ds) x =
     (let x1 = ensure_dir h (in_chos d) x;
          x2 = (if \<not> is_dir h (history x1) (''/'' @ d) then x1 else bindmount cfg d (in_chos d) x1)
      in mount_loop h cfg ds x2)"

text \<open>The words of \<^verbatim>\<open>$(echo $BINDMOUNT)\<close>, and those of \<^verbatim>\<open>$(echo $BINDMOUNT|sed 's/ /\n/g'|sort -r)\<close> with \<^verbatim>\<open>LANG=C\<close>.\<close>

fun lines_of :: "string \<Rightarrow> string list" where
  "lines_of [] = []"
| "lines_of (c # s) =
     (if c = NL then [] # lines_of s else case lines_of s of [] \<Rightarrow> [[c]] | l # ls \<Rightarrow> (c # l) # ls)"

definition mount_words :: "host \<Rightarrow> settings \<Rightarrow> string list" where
  "mount_words h cfg = expand (sh_of h) (echo (sh_of h) (expand (sh_of h) (BINDMOUNT cfg)))"

definition sort_r :: "string list \<Rightarrow> string list" where
  "sort_r ls = rev (sort ls)"

definition umount_words :: "host \<Rightarrow> settings \<Rightarrow> string list" where
  "umount_words h cfg =
     (let t = echo (sh_of h) (expand (sh_of h) (BINDMOUNT cfg));
          t1 = map (\<lambda>c. if c = CHR '' '' then NL else c) t
      in expand (sh_of h) (unlines (sort_r (lines_of t1))))"

definition mountlocal :: "host \<Rightarrow> settings \<Rightarrow> script \<Rightarrow> script" where
  "mountlocal h cfg x =
     (if BINDMOUNT cfg \<noteq> [] then
        let x1 = ensure_dir h ''/chos/local'' x;
            x2 = bindmount cfg ''/'' ''/chos/local'' x1
        in mount_loop h cfg (mount_words h cfg) x2
      else x)"

fun umount_loop :: "string list \<Rightarrow> script \<Rightarrow> script" where
  "umount_loop [] x = x"
| "umount_loop (d # ds) x = umount_loop ds (run (Umount (in_chos d)) x)"

definition unmountlocal :: "host \<Rightarrow> settings \<Rightarrow> script \<Rightarrow> script" where
  "unmountlocal h cfg x =
     (if BINDMOUNT cfg \<noteq> [] then umount_loop (umount_words h cfg) (run (Umount ''/chos/local'') x) else x)"

text \<open>The second component is the exit status of the loop so far.\<close>

fun link_loop :: "host \<Rightarrow> string list \<Rightarrow> nat \<Rightarrow> script \<Rightarrow> nat \<times> script" where
  "link_loop h [] r x = (r, x)"
| "link_loop h (d # ds) r x =
     (if \<not> path_exists h (history x) (in_chos d) then
        (if \<not> is_symlink h (history x) (in_chos d) then
           let x1 = run (Ln (via_link d) (in_chos d)) x
           in link_loop h ds (status h (history x1)) x1
         else link_loop h ds 0 x)
      else link_loop h ds 0 x)"

definition root_names :: "host \<Rightarrow> cmd list \<Rightarrow> string list" where
  "root_names h tr =
     expand (sh_of h)
       (unlines (filter (\<lambda>l. \<not> contains ''afs'' l)
         (filter (\<lambda>l. \<not> contains ''lost+found'' l) (filter (\<lambda>l. \<not> contains ''chos'' l) (ls_root h tr)))))"

definition makelinks :: "host \<Rightarrow> settings \<Rightarrow> script \<Rightarrow> nat \<times> script" where
  "makelinks h cfg x =
     (if MAKELINKS cfg = ''yes'' then link_loop h (root_names h (history x)) 0 x else (0, x))"

section \<open>Actions\<close>

text \<open>\<^verbatim>\<open>[ $RETVAL ]\<close> and \<^verbatim>\<open>[ $? ]\<close> test that the text is not empty, so both are always true.\<close>

abbreviation lock_file :: string where "lock_file \<equiv> ''/var/lock/subsys/chos''"

definition append_texts :: "string list \<Rightarrow> script \<Rightarrow> script" where
  "append_texts ts x = fold (\<lambda>t. run (Append t)) ts x"

definition start :: "host \<Rightarrow> settings \<Rightarrow> script \<Rightarrow> script" where
  "start h cfg x =
     (let x1 = run Modprobe x;
          x2 = mountlocal h cfg x1;
          (st, x3) = makelinks h cfg x2;
          x4 = x3\<lparr>RETVAL := st\<rparr>;
          x5 = run (Touch lock_file) x4
      in append_texts (loadvalid (sh_of h) (chos_lines cfg)) x5)"

definition stop :: "host \<Rightarrow> settings \<Rightarrow> script \<Rightarrow> script" where
  "stop h cfg x =
     (let x1 = unmountlocal h cfg x;
          x2 = run Modprobe_r x1;
          x3 = x2\<lparr>RETVAL := status h (history x2)\<rparr>
      in run (Rm lock_file) x3)"

definition dostatus :: "host \<Rightarrow> script \<Rightarrow> script" where
  "dostatus h x =
     (let count = length (filter (contains ''chos'') (lsmod h (history x)));
          m = (if count = 1 then ''CHOS is loaded'' else ''CHOS is not loaded'')
      in x\<lparr>said := said x @ [m], RETVAL := 0\<rparr>)"

definition reload :: "host \<Rightarrow> settings \<Rightarrow> script \<Rightarrow> script" where
  "reload h cfg x = append_texts (loadvalid (sh_of h) (chos_lines cfg)) x"

text \<open>The last command of \<^verbatim>\<open>start\<close> is an \<^verbatim>\<open>echo\<close>, whose status is 0.\<close>

definition restart :: "host \<Rightarrow> settings \<Rightarrow> script \<Rightarrow> script" where
  "restart h cfg x = (start h cfg (stop h cfg x))\<lparr>RETVAL := 0\<rparr>"

definition condrestart :: "host \<Rightarrow> settings \<Rightarrow> script \<Rightarrow> script" where
  "condrestart h cfg x = (if path_exists h (history x) lock_file then restart h cfg x else x)"

text \<open>A run of the script after the commands \<open>tr\<close>: its exit status and the state at its end.\<close>

definition chos_init :: "host \<Rightarrow> settings \<Rightarrow> string \<Rightarrow> cmd list \<Rightarrow> nat \<times> script" where
  "chos_init h cfg arg tr =
     (let x = \<lparr>history = tr, RETVAL = 0, said = []\<rparr>
      in if arg = ''start'' then let y = start h cfg x in (RETVAL y, y)
         else if arg = ''stop'' then let y = stop h cfg x in (RETVAL y, y)
         else if arg = ''status'' then let y = dostatus h x in (RETVAL y, y)
         else if arg = ''reload'' then let y = reload h cfg x in (RETVAL y, y)
         else if arg = ''restart'' then let y = restart h cfg x in (RETVAL y, y)
         else if arg = ''condrestart'' then let y = condrestart h cfg x in (RETVAL y, y)
         else (1, x\<lparr>said := [''Usage: chos.init {start|stop|status|restart|reload|condrestart}'']\<rparr>))"

section \<open>Words\<close>

text \<open>
  Names that mean nothing to the shell. What is relied on of the shell: such names expand to themselves, and \<^verbatim>\<open>echo\<close> prints
  its arguments with blanks between them.
\<close>

definition simple_name :: "string \<Rightarrow> bool" where
  "simple_name w \<longleftrightarrow> w \<noteq> [] \<and> hd w \<noteq> CHR ''-'' \<and> NUL \<notin> set w \<and>
     (\<forall>c \<in> set w. \<not> blank c \<and> c \<noteq> CHR ''*'' \<and> c \<noteq> CHR ''?'' \<and> c \<noteq> CHR ''['' \<and> c \<noteq> CHR 0x5C)"

fun join :: "string list \<Rightarrow> string" where
  "join [] = []"
| "join [w] = w"
| "join (w # v # ws) = w @ CHR '' '' # join (v # ws)"

definition shell_names :: "shell \<Rightarrow> bool" where
  "shell_names sh \<longleftrightarrow>
     (\<forall>w. simple_name w \<longrightarrow> glob sh w = [w]) \<and> (\<forall>ws. (\<forall>w \<in> set ws. simple_name w) \<longrightarrow> echo sh ws = join ws @ [NL])"

lemma simple_nameD:
  assumes "simple_name w"
  shows "w \<noteq> []" "\<forall>c \<in> set w. \<not> blank c" "NL \<notin> set w" "CHR '' '' \<notin> set w"
  using assms by (auto simp: simple_name_def blank_def)

lemma expand_names:
  assumes "shell_names sh" "\<forall>w \<in> set (split_words s). simple_name w"
  shows "expand sh s = split_words s"
proof -
  have "concat (map (glob sh) ws) = ws" if "\<forall>w \<in> set ws. simple_name w" for ws
    using that assms(1) by (induction ws) (simp_all add: shell_names_def)
  with assms(2) show ?thesis by (simp add: expand_def)
qed

lemma join_lines:
  assumes "\<forall>w \<in> set ws. simple_name w" "ws \<noteq> []"
  shows "map (\<lambda>c. if c = CHR '' '' then NL else c) (join ws @ [NL]) = unlines ws"
  using assms
proof (induction ws rule: join.induct)
  case (2 w)
  then show ?case using simple_nameD(4) [of w] by (auto intro: map_idI)
next
  case (3 w v ws)
  have "map (\<lambda>c. if c = CHR '' '' then NL else c) w = w" using simple_nameD(4) [of w] 3 by (auto intro: map_idI)
  with 3 show ?case by simp
qed simp

lemma split_words_sed: "split_words (map (\<lambda>c. if c = CHR '' '' then NL else c) s) = split_words s"
proof (induction s rule: split_words.induct)
  case (2 c s)
  let ?f = "\<lambda>c. if c = CHR '' '' then NL else c"
  have b: "blank (?f d) = blank d" for d by (simp add: blank_def)
  have t: "takeWhile (\<lambda>d. \<not> blank d) (map ?f u) = takeWhile (\<lambda>d. \<not> blank d) u" for u
    by (induction u) (auto simp: b blank_def)
  have d: "dropWhile (\<lambda>d. \<not> blank d) (map ?f u) = map ?f (dropWhile (\<lambda>d. \<not> blank d) u)" for u
    by (induction u) (auto simp: b)
  show ?case
  proof (cases "blank c")
    case True
    then have "blank (?f c)" by (simp add: b)
    with 2(1) True show ?thesis by simp
  next
    case False
    then have "?f c = c" by (simp add: blank_def)
    with 2(2) False t d show ?thesis by simp
  qed
qed simp

lemma lines_of_unlines:
  assumes "\<forall>w \<in> set ws. NL \<notin> set w"
  shows "lines_of (unlines ws) = ws"
proof -
  have "lines_of (w @ NL # s) = w # lines_of s" if "NL \<notin> set w" for w s using that by (induction w) auto
  with assms show ?thesis by (induction ws) simp_all
qed

lemma join_words:
  assumes "\<forall>w \<in> set ws. simple_name w"
  shows "split_words (join ws @ [NL]) = ws"
proof (cases "ws = []")
  case True
  then show ?thesis by (simp add: blank_def)
next
  case False
  have nb: "\<forall>l \<in> set ws. \<forall>c \<in> set l. \<not> blank c" using assms simple_nameD(2) by blast
  have "split_words (join ws @ [NL]) = split_words (unlines ws)" using join_lines [OF assms False] split_words_sed by metis
  also have "\<dots> = filter (\<lambda>l. l \<noteq> []) ws" by (rule split_words_lines [OF nb])
  also have "\<dots> = ws" using assms simple_nameD(1) by (auto simp: filter_id_conv)
  finally show ?thesis .
qed

text \<open>The words that are mounted and, in the opposite order of their bytes, unmounted.\<close>

lemma bind_words:
  assumes sh: "shell_names (sh_of h)" and names: "\<forall>w \<in> set (split_words (BINDMOUNT cfg)). simple_name w"
  shows "mount_words h cfg = split_words (BINDMOUNT cfg)" "umount_words h cfg = sort_r (split_words (BINDMOUNT cfg))"
proof -
  let ?ws = "split_words (BINDMOUNT cfg)"
  have e: "echo (sh_of h) (expand (sh_of h) (BINDMOUNT cfg)) = join ?ws @ [NL]"
    using sh names by (simp add: expand_names shell_names_def)
  show "mount_words h cfg = ?ws"
    unfolding mount_words_def e using expand_names [OF sh, of "join ?ws @ [NL]"] names by (simp add: join_words)
  have set: "set (sort_r ?ws) = set ?ws" by (simp add: sort_r_def)
  have words: "split_words (unlines (sort_r ?ws)) = sort_r ?ws"
  proof -
    have "\<forall>l \<in> set (sort_r ?ws). \<forall>c \<in> set l. \<not> blank c" unfolding set using names simple_nameD(2) by blast
    then have "split_words (unlines (sort_r ?ws)) = filter (\<lambda>l. l \<noteq> []) (sort_r ?ws)" by (rule split_words_lines)
    also have "\<dots> = sort_r ?ws" using names simple_nameD(1) set by (auto simp: filter_id_conv)
    finally show ?thesis .
  qed
  show "umount_words h cfg = sort_r ?ws"
  proof (cases "?ws = []")
    case True
    then have "umount_words h cfg = expand (sh_of h) [NL]" unfolding umount_words_def e by (simp add: sort_r_def)
    then show ?thesis using True by (simp add: expand_def sort_r_def blank_def)
  next
    case False
    have "umount_words h cfg = expand (sh_of h) (unlines (sort_r ?ws))"
      unfolding umount_words_def e Let_def join_lines [OF names False]
      using names simple_nameD(3) by (subst lines_of_unlines) blast+
    also have "\<dots> = sort_r ?ws" using expand_names [OF sh, of "unlines (sort_r ?ws)"] words names set by simp
    finally show ?thesis .
  qed
qed

section \<open>The mounts\<close>

text \<open>
  Where a path leads: its components, in which empty ones and dots mean nothing, so that \<^verbatim>\<open>/chos//dev\<close> is \<^verbatim>\<open>/chos/dev\<close>. Names in which this is all there is
  to it have no component \<^verbatim>\<open>..\<close>, and are written without empty ones and dots, apart from a slash at the beginning.
\<close>

fun comps :: "string \<Rightarrow> string list" where
  "comps [] = [[]]"
| "comps (c # s) = (if c = CHR ''/'' then [] # comps s else case comps s of [] \<Rightarrow> [[c]] | l # ls \<Rightarrow> (c # l) # ls)"

definition place :: "string \<Rightarrow> string list" where
  "place p = filter (\<lambda>c. c \<noteq> [] \<and> c \<noteq> ''.'') (comps p)"

abbreviation spot :: "string \<Rightarrow> string list" where "spot d \<equiv> place (in_chos d)"

definition strip :: "string \<Rightarrow> string" where
  "strip d = (if d \<noteq> [] \<and> hd d = CHR ''/'' then tl d else d)"

definition proper :: "string \<Rightarrow> bool" where
  "proper d \<longleftrightarrow> (\<forall>c \<in> set (comps (strip d)). c \<noteq> [] \<and> c \<noteq> ''.'' \<and> c \<noteq> ''..'')"

definition uniform :: "string list \<Rightarrow> bool" where
  "uniform ds \<longleftrightarrow> (\<forall>d \<in> set ds. hd d = CHR ''/'') \<or> (\<forall>d \<in> set ds. hd d \<noteq> CHR ''/'')"

text \<open>
  The mount points after a history, the last one first, beginning with those in \<open>M\<close>. A mount point can be unmounted when something is mounted there, nothing is mounted below it, and
  no process uses it; otherwise \<^verbatim>\<open>umount\<close> fails. The mounts are not shared, so that each command changes one of them.
\<close>

fun mounted :: "host \<Rightarrow> string list list \<Rightarrow> cmd list \<Rightarrow> string list list" where
  "mounted h M [] = M"
| "mounted h M (Mount_bind src p # tr) = (if status h (Mount_bind src p # tr) = 0 then place p # mounted h M tr else mounted h M tr)"
| "mounted h M (Umount p # tr) = (if status h (Umount p # tr) = 0 then remove1 (place p) (mounted h M tr) else mounted h M tr)"
| "mounted h M (c # tr) = mounted h M tr"

definition umount_law :: "host \<Rightarrow> string list list \<Rightarrow> bool" where
  "umount_law h M \<longleftrightarrow>
     (\<forall>p tr. status h (Umount p # tr) = 0 \<longleftrightarrow>
        place p \<in> set (mounted h M tr) \<and> (\<forall>q \<in> set (mounted h M tr). \<not> strict_prefix (place p) q) \<and> \<not> in_use h tr (place p))"

text \<open>Commands that change no mount.\<close>

fun no_mount :: "cmd \<Rightarrow> bool" where
  "no_mount (Mount_bind src p) = False"
| "no_mount (Umount p) = False"
| "no_mount c = True"

lemma mounted_other [simp]: "no_mount c \<Longrightarrow> mounted h M (c # tr) = mounted h M tr"
  by (cases c) simp_all

lemma mounted_others: "\<forall>c \<in> set cs. no_mount c \<Longrightarrow> mounted h M (cs @ tr) = mounted h M tr"
  by (induction cs) simp_all

lemma history_run [simp]: "history (run c x) = c # history x"
  by (simp add: run_def)

text \<open>Mounting puts some of the points in front, each at most as often as it is in the list.\<close>

definition puts :: "host \<Rightarrow> string list list \<Rightarrow> string list list \<Rightarrow> script \<Rightarrow> script \<Rightarrow> bool" where
  "puts h M ps x y \<longleftrightarrow> (\<exists>X. mounted h M (history y) = X @ mounted h M (history x) \<and> mset X \<subseteq># mset ps)"

lemma puts_refl: "puts h M [] x x"
  by (simp add: puts_def)

lemma puts_trans: "puts h M ps x y \<Longrightarrow> puts h M qs y z \<Longrightarrow> puts h M (ps @ qs) x z"
proof -
  assume "puts h M ps x y" "puts h M qs y z"
  then obtain X Y where "mounted h M (history y) = X @ mounted h M (history x)" "mset X \<subseteq># mset ps"
      "mounted h M (history z) = Y @ mounted h M (history y)" "mset Y \<subseteq># mset qs"
    by (auto simp: puts_def)
  then have "mounted h M (history z) = (Y @ X) @ mounted h M (history x)" "mset (Y @ X) \<subseteq># mset (ps @ qs)"
    using subset_mset.add_mono [of "mset Y" "mset qs" "mset X" "mset ps"] by (simp_all add: add.commute)
  then show ?thesis unfolding puts_def by blast
qed

lemma puts_same: "mounted h M (history y) = mounted h M (history x) \<Longrightarrow> puts h M ps x y"
  by (simp add: puts_def)

lemma puts_bindmount: "puts h M [place p] x (bindmount cfg src p x)"
proof -
  have "mounted h M (history (bindmount cfg src p x)) = mounted h M (Mount_bind src p # history x)" by (simp add: bindmount_def Let_def)
  also have "\<dots> = (if status h (Mount_bind src p # history x) = 0 then [place p] else []) @ mounted h M (history x)" by simp
  finally show ?thesis unfolding puts_def by (intro exI conjI) auto
qed

lemma puts_ensure_dir: "puts h M [] x (ensure_dir h p x)"
  by (simp add: ensure_dir_def puts_same)

lemma puts_mount_loop: "puts h M (map spot ds) x (mount_loop h cfg ds x)"
proof (induction ds arbitrary: x)
  case Nil
  show ?case by (simp add: puts_refl)
next
  case (Cons d ds)
  let ?x1 = "ensure_dir h (in_chos d) x"
  let ?x2 = "if \<not> is_dir h (history ?x1) (''/'' @ d) then ?x1 else bindmount cfg d (in_chos d) ?x1"
  have "puts h M [spot d] ?x1 ?x2" using puts_bindmount puts_same by simp
  with puts_ensure_dir have "puts h M ([] @ [spot d]) x ?x2" by (rule puts_trans)
  from puts_trans [OF this Cons.IH] show ?case unfolding mount_loop.simps Let_def by (simp only: append_Nil append_Cons list.map)
qed


text \<open>Unmounting in an order in which what is below comes first takes away everything that is in the list.\<close>

lemma umount_one:
  assumes law: "umount_law h M" and idle: "\<not> in_use h (history x) (place p)" and m: "mounted h M (history x) = X @ base" and b: "place p \<notin> set base"
    and below: "\<forall>q \<in> set (X @ base). \<not> strict_prefix (place p) q"
  shows "mounted h M (history (run (Umount p) x)) = remove1 (place p) X @ base"
proof (cases "place p \<in> set X")
  case True
  then have "status h (Umount p # history x) = 0" using law idle m below by (simp add: umount_law_def)
  with True m show ?thesis by (simp add: remove1_append)
next
  case False
  then have "status h (Umount p # history x) \<noteq> 0" using law m b by (simp add: umount_law_def)
  with False m show ?thesis by (simp add: remove1_idem)
qed

lemma umount_all:
  assumes law: "umount_law h M" and idle: "\<forall>tr. \<forall>d \<in> set ds. \<not> in_use h tr (spot d)"
    and order: "sorted_wrt (\<lambda>d e. \<not> strict_prefix (spot d) (spot e)) ds"
    and m: "mounted h M (history x) = X @ base" and sub: "mset X \<subseteq># mset (map spot ds)"
    and base: "\<forall>d \<in> set ds. \<forall>q \<in> set base. \<not> prefix (spot d) q"
  shows "mounted h M (history (umount_loop ds x)) = base"
  using assms(2-)
proof (induction ds arbitrary: x X)
  case Nil
  then show ?case by simp
next
  case (Cons d ds)
  let ?p = "spot d"
  have X: "set X \<subseteq> insert ?p (set (map spot ds))" using set_mset_mono [OF Cons.prems(4)] by simp
  have "\<not> strict_prefix ?p q" if "q \<in> set (X @ base)" for q
    using that X Cons.prems(2,5) by (auto simp: strict_prefix_def)
  moreover have "?p \<notin> set base" using Cons.prems(5) by auto
  ultimately have m1: "mounted h M (history (run (Umount (in_chos d)) x)) = remove1 ?p X @ base"
    using Cons.prems(1,3) by (intro umount_one [OF law]) auto
  have "mset (remove1 ?p X) \<subseteq># mset (map spot ds)"
    using Cons.prems(4) subset_eq_diff_conv [of "mset X" "{#?p#}"] by (simp add: add.commute)
  from Cons.IH [OF _ _ m1 this] Cons.prems(1,2,5) show ?case by simp
qed

text \<open>Components and the order of bytes: among names that all are absolute or all relative, one that is inside another has more bytes after it.\<close>

lemma comps_not_Nil [simp]: "comps s \<noteq> []"
  by (cases s) (simp_all split: list.split)

lemma comps_append_slash: "comps (d @ CHR ''/'' # s) = comps d @ comps s"
proof (induction d)
  case (Cons c d)
  then show ?case by (cases "comps d") simp_all
qed simp

fun unsplit :: "string list \<Rightarrow> string" where
  "unsplit [] = []"
| "unsplit [c] = c"
| "unsplit (c # d # cs) = c @ CHR ''/'' # unsplit (d # cs)"

lemma unsplit_Cons: "cs \<noteq> [] \<Longrightarrow> unsplit (c # cs) = c @ CHR ''/'' # unsplit cs"
  by (cases cs) simp_all

lemma unsplit_append: "cs \<noteq> [] \<Longrightarrow> ds \<noteq> [] \<Longrightarrow> unsplit (cs @ ds) = unsplit cs @ CHR ''/'' # unsplit ds"
proof (induction cs)
  case (Cons c cs)
  then show ?case by (cases "cs = []") (simp_all add: unsplit_Cons)
qed simp

lemma unsplit_head: "unsplit ((c # l) # ls) = c # unsplit (l # ls)"
  by (cases ls) simp_all

lemma unsplit_comps: "unsplit (comps s) = s"
  by (induction s) (auto simp: unsplit_Cons unsplit_head split: list.split)

lemma spot_proper:
  assumes "proper d"
  shows "spot d = ''chos'' # comps (strip d)"
proof -
  have "''/chos/'' @ d = (''/chos'' @ (if d \<noteq> [] \<and> hd d = CHR ''/'' then ''/'' else [])) @ CHR ''/'' # strip d"
    by (cases d) (simp_all add: strip_def)
  moreover have "filter (\<lambda>c. c \<noteq> [] \<and> c \<noteq> ''.'') (comps (strip d)) = comps (strip d)"
    using assms by (auto simp: proper_def filter_id_conv)
  ultimately show ?thesis unfolding place_def in_chos_def by (simp only: comps_append_slash filter_append) simp
qed

lemma below_bytes:
  assumes d: "proper d" and e: "proper e" and below: "strict_prefix (spot d) (spot e)"
  shows "\<exists>r. strip e = strip d @ CHR ''/'' # r"
proof -
  have "strict_prefix (comps (strip d)) (comps (strip e))" using below by (simp add: spot_proper [OF d] spot_proper [OF e])
  then obtain c cs where "comps (strip e) = comps (strip d) @ c # cs" by (rule strict_prefixE')
  then have "unsplit (comps (strip e)) = unsplit (comps (strip d)) @ CHR ''/'' # unsplit (c # cs)" by (simp add: unsplit_append)
  then show ?thesis unfolding unsplit_comps by blast
qed

lemma sort_r_order:
  assumes proper: "\<forall>d \<in> set ds. proper d" and uni: "uniform ds" and ne: "\<forall>d \<in> set ds. d \<noteq> []"
  shows "sorted_wrt (\<lambda>d e. \<not> strict_prefix (spot d) (spot e)) (sort_r ds)"
proof -
  have set: "set (sort_r ds) = set ds" by (simp add: sort_r_def)
  have below: "\<not> strict_prefix (spot d) (spot e)" if de: "d \<in> set ds" "e \<in> set ds" and le: "e \<le> d" for d e
  proof
    assume "strict_prefix (spot d) (spot e)"
    then obtain r where r: "strip e = strip d @ CHR ''/'' # r" using below_bytes proper de by blast
    have "hd d = CHR ''/'' \<longleftrightarrow> hd e = CHR ''/''" using uni de unfolding uniform_def by blast
    then have "e = d @ CHR ''/'' # r" using r ne de by (cases d; cases e) (auto simp: strip_def split: if_splits)
    then have "d < e" by (auto simp: list_less_def intro: lexord_append_rightI)
    with le show False by simp
  qed
  have "sorted_wrt (\<lambda>d e. e \<le> d) (sort_r ds)" by (simp add: sort_r_def sorted_wrt_rev)
  then show ?thesis by (rule sorted_wrt_mono_rel [rotated]) (use below set in blast)
qed

text \<open>When every command succeeds, everything is mounted.\<close>

lemma bindmount_made:
  assumes "\<forall>src p tr. status h (Mount_bind src p # tr) = 0"
  shows "mounted h M (history (bindmount cfg src p x)) = place p # mounted h M (history x)"
  using assms by (simp add: bindmount_def Let_def)

lemma ensure_dir_mounted [simp]: "mounted h M (history (ensure_dir h p x)) = mounted h M (history x)"
  by (simp add: ensure_dir_def)

lemma mount_loop_made:
  assumes "\<forall>src p tr. status h (Mount_bind src p # tr) = 0" "\<forall>d \<in> set ds. \<forall>tr. is_dir h tr (''/'' @ d)"
  shows "set (mounted h M (history (mount_loop h cfg ds x))) = set (mounted h M (history x)) \<union> spot ` set ds"
  using assms(2) by (induction ds arbitrary: x) (simp_all add: Let_def bindmount_made [OF assms(1)])

lemma link_loop_mounted: "mounted h M (history (snd (link_loop h ds r x))) = mounted h M (history x)"
  by (induction h ds r x rule: link_loop.induct) (simp_all add: Let_def)

lemma makelinks_mounted: "mounted h M (history (snd (makelinks h cfg x))) = mounted h M (history x)"
  by (simp add: makelinks_def link_loop_mounted)

lemma append_texts_history: "history (append_texts ts x) = rev (map Append ts) @ history x"
  by (induction ts arbitrary: x) (simp_all add: append_texts_def)

lemma start_mounted: "mounted h M (history (start h cfg x)) = mounted h M (history (mountlocal h cfg (run Modprobe x)))"
proof -
  have "\<forall>c \<in> set (rev (map Append ts)). no_mount c" for ts by auto
  from mounted_others [OF this] show ?thesis
    using makelinks_mounted by (simp add: start_def append_texts_history Let_def case_prod_unfold)
qed

lemma stop_history:
  "history (stop h cfg x) = Rm lock_file # Modprobe_r # history (unmountlocal h cfg x)"
  "RETVAL (stop h cfg x) = status h (Modprobe_r # history (unmountlocal h cfg x))"
  by (simp_all add: stop_def Let_def run_def)

section \<open>Properties\<close>


lemma spot_local: "place ''/chos/local'' = spot ''local''"
  by (simp add: in_chos_def)


text \<open>
  A mount inside \<^verbatim>\<open>/chos/local\<close>, as \<^verbatim>\<open>BINDMOUNT="local/scratch"\<close> asks for, is not undone completely: the stop tries to unmount \<^verbatim>\<open>/chos/local\<close> first, which fails as long as
  something is mounted below, and does not come back to it.
\<close>

theorem local_stays_mounted:
  assumes sh: "shell_names (sh_of h)" and law: "umount_law h M"
    and names: "\<forall>d \<in> set (split_words (BINDMOUNT cfg)). simple_name d \<and> proper d \<and> spot d \<noteq> spot ''local''"
    and uni: "uniform (split_words (BINDMOUNT cfg))"
    and inside: "b \<in> set (split_words (BINDMOUNT cfg))" "strict_prefix (spot ''local'') (spot b)"
    and ok: "\<forall>src p tr. status h (Mount_bind src p # tr) = 0" "\<forall>d \<in> set (split_words (BINDMOUNT cfg)). \<forall>tr. is_dir h tr (''/'' @ d)"
    and idle: "\<forall>tr. \<forall>d \<in> set (split_words (BINDMOUNT cfg)). \<not> in_use h tr (spot d)"
    and free: "\<forall>d \<in> set (split_words (BINDMOUNT cfg)). \<forall>q \<in> set (mounted h M tr). \<not> prefix (spot d) q"
    and up: "chos_init h cfg ''start'' tr = (r1, x)" and down: "chos_init h cfg ''stop'' (history x) = (r2, y)"
  shows "mounted h M (history y) = spot ''local'' # mounted h M tr"
proof -
  let ?ws = "split_words (BINDMOUNT cfg)" and ?x0 = "\<lparr>history = tr, RETVAL = 0, said = []\<rparr>" and ?x1 = "\<lparr>history = history x, RETVAL = 0, said = []\<rparr>"
  let ?x2 = "bindmount cfg ''/'' ''/chos/local'' (ensure_dir h ''/chos/local'' (run Modprobe ?x0))"
  have simple: "\<forall>w \<in> set ?ws. simple_name w" using names by blast
  note w = bind_words [OF sh simple]
  have cfg: "BINDMOUNT cfg \<noteq> []" using inside(1) by auto
  have x: "x = start h cfg ?x0" and y: "y = stop h cfg ?x1" using up down by (auto simp: chos_init_def Let_def)
  have m2: "mounted h M (history ?x2) = spot ''local'' # mounted h M tr"
    by (simp add: bindmount_made [OF ok(1)] spot_local)
  have same: "mounted h M (history x) = mounted h M (history (mount_loop h cfg ?ws ?x2))"
    using cfg by (simp add: x start_mounted mountlocal_def Let_def w(1))
  obtain X where X: "mounted h M (history x) = X @ spot ''local'' # mounted h M tr" "mset X \<subseteq># mset (map spot ?ws)"
    using puts_mount_loop [of h M ?ws ?x2 cfg] unfolding puts_def same m2 by blast
  have "spot b \<in> set (mounted h M (history x))"
    unfolding same using mount_loop_made [OF ok, of M cfg ?x2] inside(1) by auto
  then have busy: "status h (Umount ''/chos/local'' # history x) \<noteq> 0"
    using law [unfolded umount_law_def, THEN spec, THEN spec, of "''/chos/local''" "history x"] inside(2) unfolding spot_local by simp blast
  have m1: "mounted h M (history (run (Umount ''/chos/local'') ?x1)) = X @ spot ''local'' # mounted h M tr"
    using busy X(1) by simp
  have set: "set (sort_r ?ws) = set ?ws" "mset (map spot (sort_r ?ws)) = mset (map spot ?ws)" by (simp_all add: sort_r_def)
  have order: "sorted_wrt (\<lambda>d e. \<not> strict_prefix (spot d) (spot e)) (sort_r ?ws)"
    using sort_r_order [of ?ws] names uni simple_nameD(1) by blast
  have base: "\<not> prefix (spot d) q" if d: "d \<in> set ?ws" and q: "q \<in> set (spot ''local'' # mounted h M tr)" for d q
  proof
    assume p: "prefix (spot d) q"
    with d q free have "q = spot ''local''" by auto
    moreover have "spot d = ''chos'' # comps (strip d)" "spot ''local'' = [''chos'', ''local'']"
      using spot_proper names d by (auto simp: in_chos_def place_def)
    ultimately show False using p names d by (cases "comps (strip d)") auto
  qed
  have "mounted h M (history (umount_loop (sort_r ?ws) (run (Umount ''/chos/local'') ?x1))) = spot ''local'' # mounted h M tr"
  proof (rule umount_all [OF law _ order m1])
    show "\<forall>tr. \<forall>d \<in> set (sort_r ?ws). \<not> in_use h tr (spot d)" unfolding set by (rule idle)
    show "mset X \<subseteq># mset (map spot (sort_r ?ws))" unfolding set by (rule X(2))
    show "\<forall>d \<in> set (sort_r ?ws). \<forall>q \<in> set (spot ''local'' # mounted h M tr). \<not> prefix (spot d) q" unfolding set using base by blast
  qed
  then show ?thesis using y cfg by (simp add: stop_history unmountlocal_def w(2))
qed

text \<open>What is relied on of symbolic links: one can be made where nothing is, it is then there, and the later commands of the start take nothing away.\<close>

definition is_there :: "host \<Rightarrow> cmd list \<Rightarrow> string \<Rightarrow> bool" where
  "is_there h tr p \<longleftrightarrow> path_exists h tr p \<or> is_symlink h tr p"

definition link_laws :: "host \<Rightarrow> bool" where
  "link_laws h \<longleftrightarrow>
     (\<forall>t p tr. \<not> is_there h tr p \<longrightarrow> status h (Ln t p # tr) = 0 \<and> is_there h (Ln t p # tr) p) \<and>
     (\<forall>t q p tr. is_there h tr p \<longrightarrow> is_there h (Ln t q # tr) p \<and> is_there h (Touch t # tr) p \<and> is_there h (Append t # tr) p)"

lemma append_keeps: "link_laws h \<Longrightarrow> is_there h tr p \<Longrightarrow> is_there h (map Append ts @ tr) p"
  by (induction ts) (simp_all add: link_laws_def)

lemma link_loop_keeps:
  assumes law: "link_laws h"
  shows "is_there h (history x) p \<Longrightarrow> is_there h (history (snd (link_loop h ds r x))) p"
proof (induction ds arbitrary: r x)
  case Nil
  then show ?case by simp
next
  case (Cons d ds)
  have "is_there h (Ln t q # history x) p" for t q using law Cons.prems by (simp add: link_laws_def)
  then have "is_there h (history (run (Ln t q) x)) p" for t q by simp
  from Cons.IH [OF this] Cons.IH [OF Cons.prems] show ?case by (simp only: link_loop.simps Let_def split: if_splits) blast
qed

text \<open>What the loop does: it makes links, for names of the list only, only where nothing is, and at the end something is at every name.\<close>

definition makes_links :: "host \<Rightarrow> string list \<Rightarrow> cmd list \<Rightarrow> cmd list \<Rightarrow> bool" where
  "makes_links h ds tr tr' \<longleftrightarrow>
     (\<exists>es. tr' = rev (map (\<lambda>d. Ln (via_link d) (in_chos d)) es) @ tr \<and> subseq es ds \<and> (\<forall>d \<in> set es. \<not> is_there h tr (in_chos d))) \<and>
     (\<forall>d \<in> set ds. is_there h tr' (in_chos d))"

lemma makes_links_skip:
  assumes law: "link_laws h" and "is_there h tr (in_chos d)" and "makes_links h ds tr tr'" and "is_there h tr' (in_chos d)"
  shows "makes_links h (d # ds) tr tr'"
  using assms(3,4) unfolding makes_links_def by (metis list_emb_Cons set_ConsD)

lemma makes_links_new:
  assumes law: "link_laws h" and no: "\<not> is_there h tr (in_chos d)" and rec: "makes_links h ds (Ln (via_link d) (in_chos d) # tr) tr'"
    and there: "is_there h tr' (in_chos d)"
  shows "makes_links h (d # ds) tr tr'"
proof -
  obtain es where es: "tr' = rev (map (\<lambda>d. Ln (via_link d) (in_chos d)) es) @ Ln (via_link d) (in_chos d) # tr" "subseq es ds"
      "\<forall>e \<in> set es. \<not> is_there h (Ln (via_link d) (in_chos d) # tr) (in_chos e)"
    using rec unfolding makes_links_def by blast
  have "\<not> is_there h tr (in_chos e)" if "e \<in> set es" for e using es(3) that law unfolding link_laws_def by blast
  then have "tr' = rev (map (\<lambda>d. Ln (via_link d) (in_chos d)) (d # es)) @ tr" "subseq (d # es) (d # ds)"
      "\<forall>e \<in> set (d # es). \<not> is_there h tr (in_chos e)"
    using es(1,2) no by simp_all
  moreover have "\<forall>e \<in> set (d # ds). is_there h tr' (in_chos e)" using rec there by (simp add: makes_links_def)
  ultimately show ?thesis unfolding makes_links_def by blast
qed

lemma link_loop_links:
  assumes law: "link_laws h"
  shows "makes_links h ds (history x) (history (snd (link_loop h ds r x))) \<and> (r = 0 \<longrightarrow> fst (link_loop h ds r x) = 0)"
proof (induction ds arbitrary: r x)
  case Nil
  then show ?case by (simp add: makes_links_def)
next
  case (Cons d ds)
  show ?case
  proof (cases "is_there h (history x) (in_chos d)")
    case True
    then have eq: "link_loop h (d # ds) r x = link_loop h ds 0 x" by (auto simp: is_there_def)
    show ?thesis
      unfolding eq using makes_links_skip [OF law True] Cons.IH [of x 0] link_loop_keeps [OF law True, of ds 0] by blast
  next
    case False
    let ?c = "Ln (via_link d) (in_chos d)"
    have st: "status h (?c # history x) = 0" "is_there h (history (run ?c x)) (in_chos d)" using law False by (simp_all add: link_laws_def)
    have eq: "link_loop h (d # ds) r x = link_loop h ds 0 (run ?c x)" using False st(1) by (simp add: Let_def is_there_def)
    have "makes_links h ds (?c # history x) (history (snd (link_loop h ds 0 (run ?c x))))" using Cons.IH [of "run ?c x" 0] by simp
    from makes_links_new [OF law False this link_loop_keeps [OF law st(2)]] Cons.IH [of "run ?c x" 0] show ?thesis unfolding eq by blast
  qed
qed

lemma start_parts:
  assumes "chos_init h cfg ''start'' tr = (r, x)" and "x1 = mountlocal h cfg (run Modprobe \<lparr>history = tr, RETVAL = 0, said = []\<rparr>)"
  shows "history x = rev (map Append (loadvalid (sh_of h) (chos_lines cfg))) @ Touch lock_file # history (snd (makelinks h cfg x1))"
    "r = fst (makelinks h cfg x1)"
proof -
  have "RETVAL (append_texts ts y) = RETVAL y" for ts y by (induction ts arbitrary: y) (simp_all add: append_texts_def run_def)
  then show "history x = rev (map Append (loadvalid (sh_of h) (chos_lines cfg))) @ Touch lock_file # history (snd (makelinks h cfg x1))"
    "r = fst (makelinks h cfg x1)"
    using assms by (auto simp: chos_init_def start_def Let_def append_texts_history case_prod_unfold run_def)
qed

text \<open>
  The root directory of CHOS processes: with \<^verbatim>\<open>MAKELINKS=yes\<close> the start ends with success, and then for every name in the root directory of the machine, except those
  that contain \<^verbatim>\<open>chos\<close>, \<^verbatim>\<open>lost+found\<close> or \<^verbatim>\<open>afs\<close>, there is an entry in \<^verbatim>\<open>/chos\<close>. The links that are made lead through the special link and replace nothing, and
  after them come exactly the writes of \<^verbatim>\<open>loadvalid\<close>.
\<close>

theorem start_makes_root:
  assumes sh: "shell_names (sh_of h)" and law: "link_laws h" and yes: "MAKELINKS cfg = ''yes''"
    and ls: "\<forall>t. ls_root h t = ns" "\<forall>d \<in> set ns. simple_name d" and up: "chos_init h cfg ''start'' tr = (r, x)"
  shows "r = 0 \<and> (\<forall>d \<in> set ns. contains ''chos'' d \<or> contains ''lost+found'' d \<or> contains ''afs'' d \<or> is_there h (history x) (in_chos d)) \<and>
    (\<exists>es tr1. history x = rev (map Append (loadvalid (sh_of h) (chos_lines cfg))) @ Touch lock_file # rev (map (\<lambda>d. Ln (via_link d) (in_chos d)) es) @ tr1 \<and>
       subseq es ns \<and> (\<forall>d \<in> set es. \<not> is_there h tr1 (in_chos d)))"
proof -
  let ?ds = "filter (\<lambda>l. \<not> contains ''afs'' l) (filter (\<lambda>l. \<not> contains ''lost+found'' l) (filter (\<lambda>l. \<not> contains ''chos'' l) ns))"
  let ?x1 = "mountlocal h cfg (run Modprobe \<lparr>history = tr, RETVAL = 0, said = []\<rparr>)"
  have nb: "\<forall>l \<in> set ?ds. \<forall>c \<in> set l. \<not> blank c" using ls(2) simple_nameD(2) by auto
  have "split_words (unlines ?ds) = filter (\<lambda>l. l \<noteq> []) ?ds" by (rule split_words_lines [OF nb])
  also have "\<dots> = ?ds" using ls(2) simple_nameD(1) by (auto intro: filter_cong)
  finally have names: "root_names h t = ?ds" for t
    using expand_names [OF sh, of "unlines ?ds"] ls by (simp add: root_names_def)
  have m: "makelinks h cfg ?x1 = link_loop h ?ds 0 ?x1" using yes names by (simp add: makelinks_def)
  note p = start_parts [OF up refl, unfolded m]
  have l: "makes_links h ?ds (history ?x1) (history (snd (link_loop h ?ds 0 ?x1)))" "r = 0" using link_loop_links [OF law, of ?ds ?x1 0] p(2) by auto
  obtain es where es: "history (snd (link_loop h ?ds 0 ?x1)) = rev (map (\<lambda>d. Ln (via_link d) (in_chos d)) es) @ history ?x1" "subseq es ?ds"
      "\<forall>d \<in> set es. \<not> is_there h (history ?x1) (in_chos d)"
    using l(1) unfolding makes_links_def by blast
  have "subseq ?ds ns" unfolding filter_filter by (rule subseq_filter_left)
  with es(2) have "subseq es ns" by (rule subseq_order.trans)
  moreover have "is_there h (history x) (in_chos d)" if "d \<in> set ?ds" for d
  proof -
    have "is_there h (Touch lock_file # history (snd (link_loop h ?ds 0 ?x1))) (in_chos d)"
      using l(1) that law unfolding makes_links_def link_laws_def by blast
    then show ?thesis unfolding p(1) rev_map by (rule append_keeps [OF law])
  qed
  ultimately show ?thesis using l(2) p(1) es(1,3) by auto
qed

text \<open>
  The script does not notice that unloading fails: the stop removes the lock file whatever \<^verbatim>\<open>modprobe -r\<close> returns, and a \<^verbatim>\<open>condrestart\<close> after it does nothing, although the module may still
  be there without its mounts.
\<close>

theorem stop_forgets_module:
  assumes "chos_init h cfg ''stop'' tr = (r, x)" and "\<forall>p t. \<not> path_exists h (Rm p # t) p"
  shows "r = status h (tl (history x)) \<and> chos_init h cfg ''condrestart'' (history x) = (0, \<lparr>history = history x, RETVAL = 0, said = []\<rparr>)"
proof -
  have "x = stop h cfg \<lparr>history = tr, RETVAL = 0, said = []\<rparr>" "r = RETVAL x" using assms(1) by (auto simp: chos_init_def Let_def)
  moreover have "\<not> path_exists h (Rm lock_file # t) lock_file" for t using assms(2) by blast
  ultimately show ?thesis by (simp add: stop_history chos_init_def condrestart_def Let_def)
qed

section \<open>Examples\<close>

text \<open>A machine with the configuration that is shipped, on which every command succeeds that can and no mount is in use.\<close>

fun demo_mounts :: "cmd list \<Rightarrow> string list list" where
  "demo_mounts [] = [[]]"
| "demo_mounts (Mount_bind src p # tr) = place p # demo_mounts tr"
| "demo_mounts (Umount p # tr) =
     (if place p \<in> set (demo_mounts tr) \<and> (\<forall>q \<in> set (demo_mounts tr). \<not> strict_prefix (place p) q) then remove1 (place p) (demo_mounts tr)
      else demo_mounts tr)"
| "demo_mounts (c # tr) = demo_mounts tr"

fun demo_status :: "cmd list \<Rightarrow> nat" where
  "demo_status (Umount p # tr) =
     (if place p \<in> set (demo_mounts tr) \<and> (\<forall>q \<in> set (demo_mounts tr). \<not> strict_prefix (place p) q) then 0 else 32)"
| "demo_status (Modprobe_r # tr) = 1"
| "demo_status tr = 0"

fun demo_links :: "cmd list \<Rightarrow> string \<Rightarrow> bool" where
  "demo_links [] p = False"
| "demo_links (Ln t q # tr) p = (p = q \<or> demo_links tr p)"
| "demo_links (c # tr) p = demo_links tr p"

definition demo_host :: host where
  "demo_host = \<lparr>sh_of = \<lparr>glob = (\<lambda>w. [w]), echo = (\<lambda>ws. join ws @ [NL]), sort_uniq = remdups\<rparr>, is_dir = (\<lambda>_ _. True), path_exists = (\<lambda>_ _. False),
     is_symlink = demo_links, ls_root = (\<lambda>_. [''bin'', ''chos'', ''home'']), lsmod = (\<lambda>_. []), status = demo_status,
     in_use = (\<lambda>_ _. False)\<rparr>"

definition demo_settings :: settings where
  "demo_settings = \<lparr>BINDMOUNT = ''/dev /dev/shm /dev/pts /sys /proc /var /var/log /root /boot /sys /proc /selinux'', MAKELINKS = ''yes'',
     PRIVATE_MOUNTS = [], chos_lines = Some [''%SHELLS'', ''sl6:/os/sl6'']\<rparr>"

lemma demo_host_laws: "shell_names (sh_of demo_host)" "umount_law demo_host [[]]" "link_laws demo_host"
proof -
  have m: "mounted demo_host [[]] tr = demo_mounts tr" for tr
    by (induction tr rule: demo_mounts.induct) (simp_all add: demo_host_def)
  show "umount_law demo_host [[]]" unfolding umount_law_def m by (simp add: demo_host_def)
qed (simp_all add: shell_names_def demo_host_def link_laws_def is_there_def)




theorem local_stays_mounted_witness:
  "mounted demo_host [[]] (history (snd (chos_init demo_host (demo_settings\<lparr>BINDMOUNT := ''local/scratch''\<rparr>) ''stop''
     (history (snd (chos_init demo_host (demo_settings\<lparr>BINDMOUNT := ''local/scratch''\<rparr>) ''start'' [])))))) = [[''chos'', ''local''], []]"
proof -
  let ?cfg = "demo_settings\<lparr>BINDMOUNT := ''local/scratch''\<rparr>"
  obtain r1 x where x: "chos_init demo_host ?cfg ''start'' [] = (r1, x)" by (rule prod.exhaust)
  obtain r2 y where y: "chos_init demo_host ?cfg ''stop'' (history x) = (r2, y)" by (rule prod.exhaust)
  have words: "split_words (BINDMOUNT ?cfg) = [''local/scratch'']" by code_simp
  have spots: "spot ''local'' = [''chos'', ''local'']" "spot ''local/scratch'' = [''chos'', ''local'', ''scratch'']" by (simp_all add: in_chos_def place_def)
  have names: "\<forall>d \<in> set (split_words (BINDMOUNT ?cfg)). simple_name d \<and> proper d \<and> spot d \<noteq> spot ''local''" unfolding words by code_simp
  have uni: "uniform (split_words (BINDMOUNT ?cfg))" unfolding words by code_simp
  have inside: "''local/scratch'' \<in> set (split_words (BINDMOUNT ?cfg))" "strict_prefix (spot ''local'') (spot ''local/scratch'')"
    unfolding words spots by simp_all
  have st: "\<forall>src p tr. status demo_host (Mount_bind src p # tr) = 0" "\<forall>d \<in> set (split_words (BINDMOUNT ?cfg)). \<forall>tr. is_dir demo_host tr (''/'' @ d)"
    "\<forall>tr. \<forall>d \<in> set (split_words (BINDMOUNT ?cfg)). \<not> in_use demo_host tr (spot d)"
    by (simp_all add: demo_host_def)
  have free: "\<forall>d \<in> set (split_words (BINDMOUNT ?cfg)). \<forall>q \<in> set (mounted demo_host [[]] []). \<not> prefix (spot d) q" unfolding words by (simp add: spots)
  show ?thesis
    using local_stays_mounted [OF demo_host_laws(1,2) names uni inside st(1,2,3) free x y] x y
    by (simp only: snd_conv spots mounted.simps(1))
qed

theorem start_makes_root_witness:
  "fst (chos_init demo_host demo_settings ''start'' []) = 0 \<and>
   is_there demo_host (history (snd (chos_init demo_host demo_settings ''start'' []))) ''/chos/bin''"
proof -
  obtain r x where x: "chos_init demo_host demo_settings ''start'' [] = (r, x)" by (rule prod.exhaust)
  have yes: "MAKELINKS demo_settings = ''yes''" by (simp add: demo_settings_def)
  have ls: "\<forall>t. ls_root demo_host t = [''bin'', ''chos'', ''home'']" "\<forall>d \<in> set [''bin'', ''chos'', ''home'']. simple_name d"
    by (simp_all add: demo_host_def simple_name_def blank_def)
  from start_makes_root [OF demo_host_laws(1,3) yes ls x] x show ?thesis by (simp add: in_chos_def)
qed

theorem stop_forgets_module_witness:
  "fst (chos_init demo_host demo_settings ''stop'' []) = 1 \<and>
   fst (chos_init demo_host demo_settings ''condrestart'' (history (snd (chos_init demo_host demo_settings ''stop'' [])))) = 0"
proof -
  obtain r x where x: "chos_init demo_host demo_settings ''stop'' [] = (r, x)" by (rule prod.exhaust)
  have "\<forall>p t. \<not> path_exists demo_host (Rm p # t) p" by (simp add: demo_host_def)
  from stop_forgets_module [OF x this] x show ?thesis
    by (auto simp: chos_init_def Let_def stop_history demo_host_def)
qed

end
