(* ===== verification/Load_Test.thy ===== *)
theory Load_Test
  imports Fork_Wrapper
begin

text \<open>
  The load test \<^verbatim>\<open>test/fastloop.c\<close>: a process that is in a tree forks a child again and again, and every child compares what it reads from the
  special link with \<^verbatim>\<open>CHOS\<close>. Here the test runs against the model of the module, with \<^verbatim>\<open>do_fork\<close> trapped, and it is shown that it finds
  nothing, for every number of rounds.
\<close>

section \<open>The program\<close>

datatype report = Loop int | Different string string int

text \<open>
  The child: \<open>link\<close> is what \<^verbatim>\<open>readlink\<close> finds, of which at most 80 bytes are copied to an array of that size, with the NUL after them: there is room for 79. \<open>chos\<close> is the environment variable.
\<close>

definition loop_child :: "string option \<Rightarrow> string option \<Rightarrow> int \<Rightarrow> fault + report list" where
  "loop_child link chos pid =
     (case link of
        None \<Rightarrow> Inl Out_Of_Bounds
      | Some target \<Rightarrow>
         let len = min (length target) 80
         in if 80 \<le> len then Inl Out_Of_Bounds
            else (case chos of
                    None \<Rightarrow> Inl Null_Deref
                  | Some x \<Rightarrow> Inr (if cstr (take len target @ [NUL]) \<noteq> x then [Different (cstr (take len target @ [NUL])) x pid] else [])))"

text \<open>
  One round. \<open>jumper\<close> is the original \<^verbatim>\<open>do_fork\<close>, which finds the child under its pid; \<open>after\<close> is the task list when \<^verbatim>\<open>waitpid\<close> has returned.
  The child runs when \<^verbatim>\<open>chos_do_fork\<close> has returned in the parent, and has no children of its own when it exits.
\<close>

record fork_round =
  jumper :: forker
  child :: tid
  after :: tasks

definition loop_round :: "tid \<Rightarrow> string option \<Rightarrow> fork_round \<Rightarrow> tasks \<Rightarrow> kernel_state \<Rightarrow>
    (fault + report list \<times> kernel_state) option" where
  "loop_round current chos f ts s =
     Option.bind (chos_do_fork ts current (jumper f) s) (\<lambda>r.
       case r of
         Inl e \<Rightarrow> Some (Inl e)
       | Inr (pid, ts1, s1) \<Rightarrow>
          if 0 < pid then
            Option.bind (link_readlink ts1 (child f) (\<lambda>x. x) s1) (\<lambda>r.
              case r of
                Inl e \<Rightarrow> Some (Inl e)
              | Inr (target, s2) \<Rightarrow>
                 (case loop_child (Some target) chos pid of
                    Inl e \<Rightarrow> Some (Inl e)
                  | Inr out \<Rightarrow> Option.bind (my_sys_exit ts1 [] (\<lambda>s. s) s2) (\<lambda>r. Some (ebind r (\<lambda>s3. Inr (out, s3))))))
          else Some (Inr ([], s1)))"

text \<open>The loop, with one element of the list for each round, and \<^verbatim>\<open>main\<close>, whose second argument is the number of rounds.\<close>

fun fast_loop :: "tid \<Rightarrow> string option \<Rightarrow> int \<Rightarrow> fork_round list \<Rightarrow> tasks \<Rightarrow> kernel_state \<Rightarrow>
    (fault + report list \<times> kernel_state) option" where
  "fast_loop current chos count [] ts s = Some (Inr ([], s))"
| "fast_loop current chos count (f # fs) ts s =
     Option.bind (loop_round current chos f ts s) (\<lambda>r.
       case r of
         Inl e \<Rightarrow> Some (Inl e)
       | Inr (out, s1) \<Rightarrow>
          Option.bind (fast_loop current chos (count + 1) fs (after f) s1) (\<lambda>r.
            Some (ebind r (\<lambda>(rest, s2). Inr ((if count mod 100 = 0 then [Loop count] else []) @ out @ rest, s2)))))"

definition fastloop_main :: "string list \<Rightarrow> (string \<Rightarrow> int) \<Rightarrow> tid \<Rightarrow> string option \<Rightarrow> (nat \<Rightarrow> fork_round) \<Rightarrow> tasks \<Rightarrow> kernel_state \<Rightarrow>
    (fault + int \<times> report list \<times> kernel_state) option" where
  "fastloop_main argv atoi current chos fork ts s =
     (if length argv < 2 then Some (Inr (- 1, [], s))
      else Option.bind (fast_loop current chos 0 (map fork [0..<nat (atoi (argv ! 1))]) ts s) (\<lambda>r.
             Some (ebind r (\<lambda>(out, s1). Inr (0, out, s1)))))"

section \<open>A round finds nothing\<close>

text \<open>A round in which \<^verbatim>\<open>do_fork\<close> creates a new child of the process, and in which nothing is left of the child afterwards.\<close>

definition clean_round :: "tid \<Rightarrow> tasks \<Rightarrow> nat \<Rightarrow> fork_round \<Rightarrow> bool" where
  "clean_round current ts n f \<longleftrightarrow>
     (\<exists>k pid find_ns. (\<forall>s. jumper f s = (pid, ts(child f \<mapsto> k), find_ns, s)) \<and> 0 < pid \<and> find_ns pid = Some (child f) \<and>
        1 < tpid k \<and> tparent k = Some current \<and> task_tree n (ts(child f \<mapsto> k))) \<and>
     ts (child f) = None \<and> after f = ts"

lemma loop_round_silent:
  assumes inv: "kernel_inv s" and tree: "task_tree (length (procs s)) ts" and t: "ts current = Some t" "1 < tpid t"
    and x: "inherits ts (view s) (Some current) (Some x)" "length x < 80" "NUL \<notin> set x" and f: "clean_round current ts (length (procs s)) f"
  shows "\<exists>s'. loop_round current (Some x) f ts s = Some (Inr ([], s')) \<and> kernel_inv s' \<and> length (procs s') = length (procs s) \<and>
    inherits ts (view s') (Some current) (Some x)"
proof -
  let ?c = "child f"
  obtain k pid find_ns where k: "\<And>s. jumper f s = (pid, ts(?c \<mapsto> k), find_ns, s)" "0 < pid" "find_ns pid = Some ?c" "1 < tpid k"
      "tparent k = Some current" "task_tree (length (procs s)) (ts(?c \<mapsto> k))" and c: "ts ?c = None"
    using f unfolding clean_round_def by blast
  obtain s1 where s1: "chos_do_fork ts current (jumper f) s = Some (Inr (pid, ts(?c \<mapsto> k), s1))" "kernel_inv s1"
      "length (procs s1) = length (procs s)" "inherits (ts(?c \<mapsto> k)) (view s1) (Some ?c) (Some x)"
      "\<And>u q. inherits ts (view s1) u q \<longleftrightarrow> inherits ts (view s) u q"
    using fork_inherits [of s ts current t "jumper f" pid ?c k find_ns, OF inv tree t k(1-3) c k(4-6) x(1)] by metis
  have tree1: "task_tree (length (procs s1)) (ts(?c \<mapsto> k))" using k(6) s1(3) by simp
  have "(ts(?c \<mapsto> k)) ?c \<noteq> None" by simp
  then obtain s2 where s2: "link_readlink (ts(?c \<mapsto> k)) ?c (\<lambda>y. y) s1 = Some (Inr (x, s2))" "kernel_inv s2" "shrinks s1 s2"
      "\<And>u r. inherits (ts(?c \<mapsto> k)) (view s2) u r \<longleftrightarrow> inherits (ts(?c \<mapsto> k)) (view s1) u r"
    by (rule readlink_walk [where vfs = "\<lambda>y. y", OF s1(2) tree1 _ s1(4)]) simp
  have here: "inherits (ts(?c \<mapsto> k)) (view s2) (Some current) (Some x)"
    using inherits_new_task [of ts "view s1" "Some current" "Some x" ?c k, OF _ c] s1(5) s2(4) x(1) by simp
  obtain r where r: "inherits ts (view s2) (Some current) r"
    using inherits_total [OF tree, of "Some current" "view s2"] t(1) by auto
  have "r = Some x" by (rule inherits_det [OF inherits_new_task [OF r c] here])
  with r have "inherits ts (view s2) (Some current) (Some x)" by simp
  moreover have "loop_child (Some x) (Some x) pid = Inr []"
    using x(2,3) by (simp add: loop_child_def Let_def cstr_append_terminated cstr_no_NUL)
  ultimately show ?thesis
    using s1 s2 k(2) shrinksD(1) [OF s2(3)] by (simp add: loop_round_def my_sys_exit_def)
qed

lemma fast_loop_silent:
  assumes "kernel_inv s" and "task_tree (length (procs s)) ts" and t: "ts current = Some t" "1 < tpid t"
    and "inherits ts (view s) (Some current) (Some x)" and x: "length x < 80" "NUL \<notin> set x"
    and "\<forall>f \<in> set fs. clean_round current ts (length (procs s)) f"
  shows "\<exists>out s'. fast_loop current (Some x) n fs ts s = Some (Inr (out, s')) \<and> kernel_inv s' \<and> length (procs s') = length (procs s) \<and>
    inherits ts (view s') (Some current) (Some x) \<and> set out \<subseteq> range Loop"
  using assms(1,2,5,8)
proof (induction fs arbitrary: s n)
  case Nil
  then show ?case by simp
next
  case (Cons f fs)
  have f: "clean_round current ts (length (procs s)) f" and fs: "\<forall>f \<in> set fs. clean_round current ts (length (procs s)) f"
    using Cons.prems(4) by simp_all
  obtain s1 where s1: "loop_round current (Some x) f ts s = Some (Inr ([], s1))" "kernel_inv s1" "length (procs s1) = length (procs s)"
      "inherits ts (view s1) (Some current) (Some x)"
    using loop_round_silent [OF Cons.prems(1,2) t Cons.prems(3) x f] by blast
  have "\<exists>out s'. fast_loop current (Some x) (n + 1) fs ts s1 = Some (Inr (out, s')) \<and> kernel_inv s' \<and> length (procs s') = length (procs s1) \<and>
      inherits ts (view s') (Some current) (Some x) \<and> set out \<subseteq> range Loop"
    using Cons.IH [OF s1(2) _ s1(4)] Cons.prems(2) s1(3) fs by simp
  then obtain out s' where "fast_loop current (Some x) (n + 1) fs ts s1 = Some (Inr (out, s'))" "kernel_inv s'"
      "length (procs s') = length (procs s1)" "inherits ts (view s') (Some current) (Some x)" "set out \<subseteq> range Loop"
    by blast
  moreover have "after f = ts" using f by (simp add: clean_round_def)
  ultimately show ?case using s1 by auto
qed

section \<open>Properties\<close>

text \<open>
  C27. The load test finds nothing. A process that is in the tree \<open>x\<close>, a path of fewer than 80 bytes, with \<^verbatim>\<open>CHOS\<close> set to \<open>x\<close>, and whose \<^verbatim>\<open>fork\<close> succeeds each
  time, runs the whole test however many rounds it asks for: \<^verbatim>\<open>main\<close> returns, no access of the program or of the module faults, no child
  reports a difference, the module's state is well-formed afterwards and the process is still in \<open>x\<close>.
\<close>

theorem load_test_silent:
  assumes inv: "kernel_inv s" and tree: "task_tree (length (procs s)) ts" and t: "ts current = Some t" "1 < tpid t"
    and x: "inherits ts (view s) (Some current) (Some x)" "length x < 80" "NUL \<notin> set x"
    and rounds: "\<And>i. clean_round current ts (length (procs s)) (fork i)" and argv: "2 \<le> length argv"
  shows "\<exists>out s'. fastloop_main argv atoi current (Some x) fork ts s = Some (Inr (0, out, s')) \<and> kernel_inv s' \<and>
    inherits ts (view s') (Some current) (Some x) \<and> (\<forall>seen expected pid. Different seen expected pid \<notin> set out)"
proof -
  have "\<forall>f \<in> set (map fork [0..<nat (atoi (argv ! 1))]). clean_round current ts (length (procs s)) f" using rounds by simp
  from fast_loop_silent [OF inv tree t x this, of 0]
  obtain out s' where "fast_loop current (Some x) 0 (map fork [0..<nat (atoi (argv ! 1))]) ts s = Some (Inr (out, s'))" "kernel_inv s'"
      "inherits ts (view s') (Some current) (Some x)" "set out \<subseteq> range Loop"
    by blast
  with argv show ?thesis by (auto simp: fastloop_main_def)
qed

definition demo_round :: fork_round where
  "demo_round = \<lparr>jumper = demo_fork, child = 7, after = demo_tasks\<rparr>"

theorem load_test_silent_witness:
  "\<exists>out s'. fastloop_main [''fastloop'', ''1000''] (\<lambda>_. 1000) 5 (Some ''/os/sl6'') (\<lambda>_. demo_round) demo_tasks demo_kernel =
     Some (Inr (0, out, s')) \<and> kernel_inv s' \<and> inherits demo_tasks (view s') (Some 5) (Some ''/os/sl6'') \<and>
     (\<forall>seen expected pid. Different seen expected pid \<notin> set out)"
proof -
  have "clean_round 5 demo_tasks (length (procs demo_kernel)) demo_round"
    unfolding clean_round_def
    using demo_fork_tree
    by (auto simp: demo_round_def demo_fork_def demo_child_def demo_tasks_def intro!: exI [of _ demo_child])
  then show ?thesis
    by (intro load_test_silent [OF demo_kernel_inv demo_kernel_tree demo_at(1) _ demo_shell_inherits]) simp_all
qed

end
