(* ===== verification/Address_Header.thy ===== *)
theory Address_Header
  imports Fork_Trap Kernel_Config
begin

text \<open>
  How the trap gets its parameters. \<^verbatim>\<open>kernel/find_fork.sh\<close> writes \<^verbatim>\<open>address.h\<close> with the address of \<^verbatim>\<open>do_fork\<close> and, for the kernels that it knows, with the number
  and the bytes of the instructions that the trap replaces; the macros at the top of \<^verbatim>\<open>kernel/chos_lkm.c\<close> compute the rest. Here the script and the
  macros are put together with the trap: for every known x86-64 kernel the replaced bytes are whole instructions that can run at another
  address, and there are enough of them.
\<close>

section \<open>The script\<close>

text \<open>
  What the script looks at: the lines of \<^verbatim>\<open>System.map\<close>, if there is one; the address that \<^verbatim>\<open>objdump\<close> gives for the line eight lines after the beginning of \<^verbatim>\<open>do_fork\<close>, if there
  is an image of the kernel; and whether the machine is an x86-64.
\<close>

record build_host =
  system_map :: "string list option"
  image_end :: "nat option"
  is_x86_64 :: bool

text \<open>\<^verbatim>\<open>grep do_fork$ $SM|grep -v idle|sed 's/ .*//'\<close>\<close>

definition fork_addresses :: "string list \<Rightarrow> string list" where
  "fork_addresses ls =
     map (takeWhile (\<lambda>c. c \<noteq> CHR '' ''))
       (filter (\<lambda>l. drop (length l - length ''do_fork'') l = ''do_fork'' \<and> \<not> contains ''idle'' l) ls)"

text \<open>The value of \<^verbatim>\<open>0x\<close> with the digits, if there are digits and nothing else.\<close>

definition hex_digit :: "char \<Rightarrow> nat option" where
  "hex_digit c =
     (let n = of_char c
      in if 48 \<le> n \<and> n < 58 then Some (n - 48) else if 97 \<le> n \<and> n < 103 then Some (n - 87) else None)"

definition hex_value :: "string \<Rightarrow> nat option" where
  "hex_value ds =
     (if ds = [] then None
      else foldl (\<lambda>v c. case (v, hex_digit c) of (Some n, Some d) \<Rightarrow> Some (16 * n + d) | _ \<Rightarrow> None) (Some 0) ds)"

text \<open>What \<^verbatim>\<open>address.h\<close> defines: \<^verbatim>\<open>START_ADD\<close>, \<^verbatim>\<open>END_ADD\<close>, \<^verbatim>\<open>LENGTH\<close> and \<^verbatim>\<open>opcode\<close>.\<close>

record header =
  h_start :: "nat option"
  h_end :: "nat option"
  h_length :: "nat option"
  h_opcode :: "8 word list option"

text \<open>
  The part for kernels without an image, which the preprocessor selects: \<open>v\<close> is \<^verbatim>\<open>LINUX_VERSION_CODE\<close> and \<open>rhel\<close> the value of \<^verbatim>\<open>RHEL_MAJOR\<close> where it is
  defined. A string literal is an array with a zero at its end.
\<close>

definition known_code :: "bool \<Rightarrow> nat \<Rightarrow> nat option \<Rightarrow> (nat \<times> 8 word list) option" where
  "known_code x86_64 v rhel =
     (case rhel of
        Some major \<Rightarrow>
         if x86_64 then
           (if v = KERNEL_VERSION 2 6 18 \<and> major = 5 then
              Some (0xC, [0x41, 0x57, 0x49, 0x89, 0xd7, 0x41, 0x56, 0x49, 0x89, 0xce, 0x41, 0x55] @ [0])
            else if v = KERNEL_VERSION 2 6 32 \<and> major = 6 then
              Some (0x1f, [0x55, 0x48, 0x89, 0xe5, 0x48, 0x81, 0xec, 0xb0, 0x00, 0x00, 0x00, 0x48, 0x89, 0x5d, 0xd8, 0x4c, 0x89, 0x65, 0xe0,
                0x4c, 0x89, 0x6d, 0xe8, 0x4c, 0x89, 0x75, 0xf0, 0x4c, 0x89, 0x7d, 0xf8] @ [0])
            else if v = KERNEL_VERSION 3 10 0 \<and> major = 7 then
              Some (0x19, [0x66, 0x66, 0x66, 0x66, 0x90, 0x55, 0x48, 0x89, 0xe5, 0x41, 0x57, 0x41, 0x56, 0x41, 0x55, 0x49, 0x89, 0xfd, 0x41, 0x54,
                0x53, 0x48, 0x83, 0xec, 0x30] @ [0])
            else None)
         else
           (if v = KERNEL_VERSION 2 6 18 \<and> major = 5 then Some (0x6, [0x55, 0x89, 0xcd, 0x57, 0x89, 0xc7, 0x56] @ [0]) else None)
      | None \<Rightarrow>
         if x86_64 \<and> v = KERNEL_VERSION 2 6 32 then
           Some (0x3a, [0x41, 0x57, 0x41, 0x56, 0x49, 0x89, 0xce, 0x41, 0x55, 0x49, 0x89, 0xfd, 0x41, 0x54, 0x55, 0x4c, 0x89, 0xcd, 0x53, 0x48,
             0x89, 0xd3, 0x48, 0x83, 0xec, 0x78, 0x65, 0x48, 0x8b, 0x04, 0x25, 0x28, 0x00, 0x00, 0x00, 0x48, 0x89, 0x44, 0x24, 0x68,
             0x31, 0xc0, 0xf7, 0xc7, 0x00, 0x00, 0x00, 0x10, 0x48, 0x89, 0x74, 0x24, 0x20, 0x4c, 0x89, 0x44, 0x24, 0x18] @ [0])
         else None)"

text \<open>
  The header, as the compiler sees it; \<open>None\<close> when \<^verbatim>\<open>#define START_ADD\<close> is not followed by a number because there is no such symbol, or several.
\<close>

definition find_fork :: "build_host \<Rightarrow> nat \<Rightarrow> nat option \<Rightarrow> header option" where
  "find_fork host v rhel =
     (case system_map host of
        None \<Rightarrow> Some \<lparr>h_start = None, h_end = None, h_length = None, h_opcode = None\<rparr>
      | Some ls \<Rightarrow>
         (case fork_addresses ls of
            [ds] \<Rightarrow>
             (case hex_value ds of
                None \<Rightarrow> None
              | Some address \<Rightarrow>
                 (case image_end host of
                    Some e \<Rightarrow> Some \<lparr>h_start = Some address, h_end = Some e, h_length = None, h_opcode = None\<rparr>
                  | None \<Rightarrow>
                     Some \<lparr>h_start = Some address, h_end = None, h_length = map_option fst (known_code (is_x86_64 host) v rhel),
                       h_opcode = map_option snd (known_code (is_x86_64 host) v rhel)\<rparr>))
          | _ \<Rightarrow> None))"

section \<open>The macros\<close>

text \<open>
  The preprocessor replaces the name of a macro by its body and goes on in the body, but not for a name that it is just replacing; a name
  that is left is an identifier that nothing declares.
\<close>

datatype macro = M_START_ADD | M_END_ADD | M_LENGTH

datatype pexp = Number int | Name macro | Plus pexp pexp | Minus pexp pexp

lemma finite_macro [simp]: "finite (H :: macro set)"
proof -
  have "H \<subseteq> {M_START_ADD, M_END_ADD, M_LENGTH}" using macro.exhaust by blast
  then show ?thesis by (rule finite_subset) simp
qed

function macro_expand :: "(macro \<rightharpoonup> pexp) \<Rightarrow> macro set \<Rightarrow> pexp \<Rightarrow> pexp" where
  "macro_expand m H (Number n) = Number n"
| "macro_expand m H (Name x) =
     (if x \<in> H then Name x else (case m x of None \<Rightarrow> Name x | Some e \<Rightarrow> macro_expand m (insert x H) e))"
| "macro_expand m H (Plus d e) = Plus (macro_expand m H d) (macro_expand m H e)"
| "macro_expand m H (Minus d e) = Minus (macro_expand m H d) (macro_expand m H e)"
  by pat_completeness auto
termination
proof (relation "measures [\<lambda>(m, H, e). card (- H), \<lambda>(m, H, e). size e]", goal_cases)
  case (2 m H x e)
  then have "- insert x H \<subset> - H" by blast
  then have "card (- insert x H) < card (- H)" by (intro psubset_card_mono) simp_all
  then show ?case by simp
qed simp_all

fun pvalue :: "pexp \<Rightarrow> int option" where
  "pvalue (Number n) = Some n"
| "pvalue (Name x) = None"
| "pvalue (Plus d e) = (case (pvalue d, pvalue e) of (Some a, Some b) \<Rightarrow> Some (a + b) | _ \<Rightarrow> None)"
| "pvalue (Minus d e) = (case (pvalue d, pvalue e) of (Some a, Some b) \<Rightarrow> Some (a - b) | _ \<Rightarrow> None)"

abbreviation macro_value :: "(macro \<rightharpoonup> pexp) \<Rightarrow> macro \<Rightarrow> int option" where
  "macro_value m x \<equiv> pvalue (macro_expand m {} (Name x))"

definition header_macros :: "header \<Rightarrow> macro \<rightharpoonup> pexp" where
  "header_macros h x =
     map_option (\<lambda>n. Number (int n)) (case x of M_START_ADD \<Rightarrow> h_start h | M_END_ADD \<Rightarrow> h_end h | M_LENGTH \<Rightarrow> h_length h)"

text \<open>The two conditional definitions in \<^verbatim>\<open>chos_lkm.c\<close>; the second component is whether \<^verbatim>\<open>WRAP_DOFORK\<close> is defined.\<close>

definition trap_macros :: "header \<Rightarrow> (macro \<rightharpoonup> pexp) \<times> bool" where
  "trap_macros h =
     (let m = header_macros h;
          (m1, w1) =
            (if m M_START_ADD \<noteq> None \<and> m M_END_ADD \<noteq> None
             then (m(M_LENGTH \<mapsto> Minus (Name M_END_ADD) (Name M_START_ADD)), True) else (m, False))
      in if m1 M_START_ADD \<noteq> None \<and> m1 M_LENGTH \<noteq> None
         then (m1(M_END_ADD \<mapsto> Plus (Name M_START_ADD) (Name M_LENGTH)), True) else (m1, w1))"

text \<open>
  The parameters with which the trap is compiled, from the macros of \<^verbatim>\<open>chos.h\<close>, the header and the addresses that the linker gives to \<^verbatim>\<open>jumper\<close>, \<^verbatim>\<open>jumper_func\<close> and \<^verbatim>\<open>chos_do_fork\<close>. No result: the
  module does not compile.
\<close>

definition trap_of :: "features \<Rightarrow> header \<Rightarrow> 64 word \<Rightarrow> 64 word \<Rightarrow> 64 word \<Rightarrow> trap_config option" where
  "trap_of f h j jf w =
     (case (macro_value (fst (trap_macros h)) M_START_ADD, macro_value (fst (trap_macros h)) M_LENGTH,
            macro_value (fst (trap_macros h)) M_END_ADD, h_opcode h) of
        (Some start, Some len, Some _, Some code) \<Rightarrow>
          Some \<lparr>START_ADD = of_int start, CODE_LENGTH = nat len, opcode = code, jumper = j, jumper_func = jf, wrapper = w,
            SET_MEMORY_SUPPORT = HAS_SET_MEMORY_SUPPORT f\<rparr>
      | _ \<Rightarrow> None)"

section \<open>Instructions that can run elsewhere\<close>

text \<open>
  The length of the instructions of an x86-64 processor that occur at the beginning of the functions here: \<^verbatim>\<open>push\<close>, \<^verbatim>\<open>mov\<close>, \<^verbatim>\<open>sub\<close>, \<^verbatim>\<open>xor\<close>, \<^verbatim>\<open>test\<close> and \<^verbatim>\<open>nop\<close>, with their prefixes
  and operands. Instructions that depend on their own address, as jumps, calls and operands relative to the instruction pointer do, have no length here.
\<close>

fun operand_size :: "8 word list \<Rightarrow> nat option" where
  "operand_size [] = None"
| "operand_size (b # bs) =
     (let md = unat (drop_bit 6 b); rm = unat (take_bit 3 b); disp = (if md = 1 then 1 else if md = 2 then 4 else 0)
      in if md = 3 then Some 1
         else if rm = 4 then
           (case bs of [] \<Rightarrow> None | sib # _ \<Rightarrow> Some (2 + (if md = 0 \<and> take_bit 3 sib = 5 then 4 else disp)))
         else if md = 0 \<and> rm = 5 then None
         else Some (1 + disp))"

fun op_size :: "8 word list \<Rightarrow> nat option" where
  "op_size [] = None"
| "op_size (b # bs) =
     (if 0x50 \<le> b \<and> b < 0x60 \<or> b = 0x90 then Some 1
      else if b \<in> {0x89, 0x8b, 0x31} then map_option (\<lambda>n. n + 1) (operand_size bs)
      else if b = 0x83 then map_option (\<lambda>n. n + 2) (operand_size bs)
      else if b = 0x81 \<or> b = 0xf7 \<and> bs \<noteq> [] \<and> take_bit 3 (drop_bit 3 (hd bs)) = 0 then map_option (\<lambda>n. n + 5) (operand_size bs)
      else None)"

definition insn_size :: "8 word list \<Rightarrow> nat option" where
  "insn_size bs =
     (let nops = takeWhile (\<lambda>b. b = 0x66) bs
      in if nops \<noteq> [] then (if take 1 (drop (length nops) bs) = [0x90] then Some (length nops + 1) else None)
         else let seg = takeWhile (\<lambda>b. b = 0x65) bs;
                  rex = takeWhile (\<lambda>b. 0x40 \<le> b \<and> b < 0x50) (drop (length seg) bs)
              in if 1 < length seg \<or> 1 < length rex then None
                 else map_option (\<lambda>n. length seg + length rex + n) (op_size (drop (length seg + length rex) bs)))"

text \<open>Bytes that are whole instructions of this kind, at most \<open>fuel\<close> of them.\<close>

fun relocatable :: "nat \<Rightarrow> 8 word list \<Rightarrow> bool" where
  "relocatable fuel [] = True"
| "relocatable 0 (b # bs) = False"
| "relocatable (Suc fuel) (b # bs) =
     (case insn_size (b # bs) of
        None \<Rightarrow> False
      | Some k \<Rightarrow> k \<le> length (b # bs) \<and> relocatable fuel (drop k (b # bs)))"

lemma known_bytes:
  "relocatable 12 [0x41, 0x57, 0x49, 0x89, 0xd7, 0x41, 0x56, 0x49, 0x89, 0xce, 0x41, 0x55]"
  "relocatable 31 [0x55, 0x48, 0x89, 0xe5, 0x48, 0x81, 0xec, 0xb0, 0x00, 0x00, 0x00, 0x48, 0x89, 0x5d, 0xd8, 0x4c, 0x89, 0x65, 0xe0,
     0x4c, 0x89, 0x6d, 0xe8, 0x4c, 0x89, 0x75, 0xf0, 0x4c, 0x89, 0x7d, 0xf8]"
  "relocatable 25 [0x66, 0x66, 0x66, 0x66, 0x90, 0x55, 0x48, 0x89, 0xe5, 0x41, 0x57, 0x41, 0x56, 0x41, 0x55, 0x49, 0x89, 0xfd, 0x41, 0x54,
     0x53, 0x48, 0x83, 0xec, 0x30]"
  "relocatable 58 [0x41, 0x57, 0x41, 0x56, 0x49, 0x89, 0xce, 0x41, 0x55, 0x49, 0x89, 0xfd, 0x41, 0x54, 0x55, 0x4c, 0x89, 0xcd, 0x53, 0x48,
     0x89, 0xd3, 0x48, 0x83, 0xec, 0x78, 0x65, 0x48, 0x8b, 0x04, 0x25, 0x28, 0x00, 0x00, 0x00, 0x48, 0x89, 0x44, 0x24, 0x68,
     0x31, 0xc0, 0xf7, 0xc7, 0x00, 0x00, 0x00, 0x10, 0x48, 0x89, 0x74, 0x24, 0x20, 0x4c, 0x89, 0x44, 0x24, 0x18]"
  by code_simp+

lemma known_code_ok:
  assumes "known_code True v rhel = Some (n, bytes)"
  shows "9 \<le> n" "n < length bytes" "n < 2 ^ 8" "relocatable n (take n bytes)"
  using assms known_bytes by (auto simp: known_code_def split: option.splits if_splits)

section \<open>The header and the macros\<close>

lemma length_macros:
  assumes "h_start h = Some a" "h_end h = None" "h_length h = Some n"
  shows "macro_value (fst (trap_macros h)) M_START_ADD = Some (int a)" "macro_value (fst (trap_macros h)) M_LENGTH = Some (int n)"
    "macro_value (fst (trap_macros h)) M_END_ADD = Some (int a + int n)" "snd (trap_macros h)"
  using assms by (simp_all add: trap_macros_def header_macros_def Let_def)

lemma end_macros:
  assumes "h_start h = Some a" "h_end h = Some e"
  shows "macro_value (fst (trap_macros h)) M_LENGTH = None" "snd (trap_macros h)"
  using assms by (simp_all add: trap_macros_def header_macros_def Let_def)

lemma find_fork_known:
  assumes "system_map host = Some ls" "fork_addresses ls = [ds]" "hex_value ds = Some a" "image_end host = None"
  shows "find_fork host v rhel = Some \<lparr>h_start = Some a, h_end = None, h_length = map_option fst (known_code (is_x86_64 host) v rhel),
    h_opcode = map_option snd (known_code (is_x86_64 host) v rhel)\<rparr>"
  using assms by (simp add: find_fork_def)

section \<open>Properties\<close>

text \<open>
  C29. From the script to the trap: for every x86-64 kernel that \<^verbatim>\<open>find_fork.sh\<close> knows and that has no image on the machine, the header and the macros give the
  trap parameters with which \<^verbatim>\<open>init_do_fork\<close> succeeds when the running kernel has the bytes of the table and \<^verbatim>\<open>jumper\<close> and \<^verbatim>\<open>chos_do_fork\<close> are in
  reach: \<^verbatim>\<open>do_fork\<close> jumps to \<^verbatim>\<open>chos_do_fork\<close>; \<^verbatim>\<open>jumper\<close> holds whole instructions that can run at any address, followed by a jump to the
  instruction after those that were replaced; from 2.6.25 on \<^verbatim>\<open>set_memory_x\<close> has been called for the page of \<^verbatim>\<open>jumper\<close>; and outside \<^verbatim>\<open>jumper\<close> nothing but replaced bytes has changed.
\<close>

theorem known_kernels_trapped:
  assumes host: "system_map host = Some ls" "fork_addresses ls = [ds]" "hex_value ds = Some a" "image_end host = None" "is_x86_64 host"
    and known: "known_code True v rhel = Some (n, bytes)"
    and space: "a + n < 2 ^ 64" "region (of_nat a) n \<inter> region j (n + 9) = {}"
    and code: "\<forall>i < n. mem x (of_nat a + of_nat i) = bytes ! i"
    and disp: "near (of_nat a - (j + 5))" "sint (of_nat a - (j + 5) :: 64 word) < 0xffffff" "near (w - (of_nat a + 5))"
  shows "\<exists>h c x'. find_fork host v rhel = Some h \<and> snd (trap_macros h) \<and> trap_of (features_of v d) h j jf w = Some c \<and> init_do_fork c x = Inr (0, x') \<and>
    jump_at (mem x') (of_nat a) = Some w \<and> relocatable n (map (\<lambda>i. mem x' (j + of_nat i)) [0..<n]) \<and>
    jump_at (mem x') (j + of_nat n) = Some (of_nat a + of_nat n) \<and>
    set_x x' = set_x x @ (if KERNEL_VERSION 2 6 25 \<le> v then [(j, 1)] else []) \<and>
    (\<forall>b. b \<notin> region (of_nat a) n \<longrightarrow> b \<notin> region j (n + 9) \<longrightarrow> mem x' b = mem x b)"
proof -
  note k = known_code_ok [OF known]
  let ?h = "\<lparr>h_start = Some a, h_end = None, h_length = Some n, h_opcode = Some bytes\<rparr>"
  let ?c = "\<lparr>START_ADD = of_nat a, CODE_LENGTH = n, opcode = bytes, jumper = j, jumper_func = jf, wrapper = w,
      SET_MEMORY_SUPPORT = HAS_SET_MEMORY_SUPPORT (features_of v d)\<rparr> :: trap_config"
  have h: "find_fork host v rhel = Some ?h" using find_fork_known [OF host(1-4)] host(5) known by simp
  have t: "trap_of (features_of v d) ?h j jf w = Some ?c" "snd (trap_macros ?h)"
    using length_macros [of ?h a n] by (simp_all add: trap_of_def)
  have unat: "unat (of_nat a :: 64 word) = a" using space(1) by (simp add: unat_of_nat)
  have lay: "trap_layout ?c" using k space by (simp add: trap_layout_def unat)
  have ex: "expected_code ?c (mem x)" using code by (simp add: expected_code_def)
  have disps: "back_disp ?c = of_nat a - (j + 5)" "away_disp ?c = w - (of_nat a + 5)"
    by (simp_all add: back_disp_def END_ADD_def away_disp_def)
  have "near (back_disp ?c)" "sint (back_disp ?c) < 0xffffff" "near (away_disp ?c)" unfolding disps by (fact disp)+
  from trap_installed [OF lay ex this]
  obtain x' where x': "init_do_fork ?c x = Inr (0, x')" "jump_at (mem x') (of_nat a) = Some w"
      "\<forall>i < n. mem x' (j + of_nat i) = bytes ! i" "jump_at (mem x') (j + of_nat n) = Some (END_ADD ?c)"
      "set_x x' = set_x x @ (if HAS_SET_MEMORY_SUPPORT (features_of v d) then [(j, code_pages ?c)] else [])"
      "\<forall>b. b \<notin> region (of_nat a) 9 \<longrightarrow> b \<notin> region j (n + 9) \<longrightarrow> mem x' b = mem x b"
    by (elim exE conjE) simp
  have code': "relocatable n (map (\<lambda>i. mem x' (j + of_nat i)) [0..<n])"
  proof -
    have "map (\<lambda>i. mem x' (j + of_nat i)) [0..<n] = take n bytes"
      using x'(3) k(2) by (intro nth_equalityI) simp_all
    then show ?thesis using k(4) by simp
  qed
  have return: "jump_at (mem x') (j + of_nat n) = Some (of_nat a + of_nat n)" using x'(4) by (simp add: END_ADD_def)
  have pages: "set_x x' = set_x x @ (if KERNEL_VERSION 2 6 25 \<le> v then [(j, 1)] else [])"
    using x'(5) k(1,3) by (auto simp: features_of_def code_pages_def)
  have frame: "\<forall>b. b \<notin> region (of_nat a) n \<longrightarrow> b \<notin> region j (n + 9) \<longrightarrow> mem x' b = mem x b"
    using x'(6) region_mono [OF k(1), of "of_nat a"] by blast
  from h t(2,1) x'(1,2) code' return pages frame show ?thesis by blast
qed

text \<open>
  The other ways. A kernel that the script does not know leaves \<^verbatim>\<open>WRAP_DOFORK\<close> undefined, and the module is built without the trap. With an image of the kernel
  the script writes \<^verbatim>\<open>START_ADD\<close> and \<^verbatim>\<open>END_ADD\<close>; then the first conditional defines \<^verbatim>\<open>LENGTH\<close> by \<^verbatim>\<open>END_ADD\<close>, the second one, which is meant for the other case, redefines
  \<^verbatim>\<open>END_ADD\<close> by \<^verbatim>\<open>LENGTH\<close>, and neither has a value: the module does not compile.
\<close>

theorem image_breaks_build:
  assumes "system_map host = Some ls" "fork_addresses ls = [ds]" "hex_value ds = Some a"
  shows "(image_end host = None \<longrightarrow> known_code (is_x86_64 host) v rhel = None \<longrightarrow>
      (\<exists>h. find_fork host v rhel = Some h \<and> \<not> snd (trap_macros h))) \<and>
    (image_end host \<noteq> None \<longrightarrow>
      (\<exists>h. find_fork host v rhel = Some h \<and> snd (trap_macros h) \<and> macro_value (fst (trap_macros h)) M_LENGTH = None \<and>
        (\<forall>f j jf w. trap_of f h j jf w = None)))"
proof -
  have "\<exists>h. find_fork host v rhel = Some h \<and> snd (trap_macros h) \<and> macro_value (fst (trap_macros h)) M_LENGTH = None \<and>
      (\<forall>f j jf w. trap_of f h j jf w = None)" if e: "image_end host = Some e" for e
  proof -
    let ?h = "\<lparr>h_start = Some a, h_end = Some e, h_length = None, h_opcode = None\<rparr>"
    have "find_fork host v rhel = Some ?h" using assms e by (simp add: find_fork_def)
    with end_macros [of ?h a e] show ?thesis by (auto simp: trap_of_def split: option.split)
  qed
  moreover have "\<not> snd (trap_macros \<lparr>h_start = Some a, h_end = None, h_length = None, h_opcode = None\<rparr>)"
    by (simp add: trap_macros_def header_macros_def Let_def)
  ultimately show ?thesis using find_fork_known [OF assms, of v rhel] by auto
qed

text \<open>An EL6 kernel with \<^verbatim>\<open>do_fork\<close> at \<open>0x1000\<close>.\<close>

definition demo_build :: build_host where
  "demo_build = \<lparr>system_map = Some [''0000000000001000 T do_fork'', ''0000000000002000 t fork_idle'', ''0000000000000800 T idle_do_fork''],
     image_end = None, is_x86_64 = True\<rparr>"

definition demo_code :: "8 word list" where
  "demo_code = snd (the (known_code True EL6 (Some 6)))"

lemma demo_build_address:
  "fork_addresses [''0000000000001000 T do_fork'', ''0000000000002000 t fork_idle'', ''0000000000000800 T idle_do_fork''] = [''0000000000001000'']"
  "hex_value ''0000000000001000'' = Some 0x1000"
  by code_simp+

theorem known_kernels_trapped_witness:
  "\<exists>h c x'. find_fork demo_build EL6 (Some 6) = Some h \<and> trap_of (features_of EL6 True) h 0x2000 0x4000 0x3000 = Some c \<and>
     init_do_fork c \<lparr>mem = \<lambda>a. demo_code ! unat (a - 0x1000), pte = 0x161, set_x = []\<rparr> = Inr (0, x') \<and> jump_at (mem x') 0x1000 = Some 0x3000"
proof -
  have known: "known_code True EL6 (Some 6) = Some (31, demo_code)"
    by (simp add: demo_code_def) (simp add: known_code_def KERNEL_VERSION_def)
  have dis: "region (of_nat 0x1000) 31 \<inter> region (0x2000 :: 64 word) (31 + 9) = {}"
  proof -
    have "a \<notin> region 0x2000 40" if a: "a \<in> region 0x1000 31" for a :: "64 word"
    proof -
      have eq: "a - 0x2000 = (a - 0x1000) - of_nat 0x1000" by simp
      have "unat (a - 0x2000) = 2 ^ 64 + unat (a - 0x1000) - 0x1000"
        unfolding eq by (subst unat_sub_of_nat) (use a in \<open>simp_all add: region_def\<close>)
      then show ?thesis by (simp add: region_def)
    qed
    then show ?thesis by auto
  qed
  have map: "system_map demo_build = Some [''0000000000001000 T do_fork'', ''0000000000002000 t fork_idle'', ''0000000000000800 T idle_do_fork'']"
      "image_end demo_build = None" "is_x86_64 demo_build"
    by (simp_all add: demo_build_def)
  have code: "\<forall>i < 31. mem \<lparr>mem = \<lambda>a. demo_code ! unat (a - 0x1000), pte = 0x161, set_x = []\<rparr> (of_nat 0x1000 + of_nat i) = demo_code ! i"
    by (simp add: unat_of_nat)
  show ?thesis
    using known_kernels_trapped [OF map(1) demo_build_address map(2,3) known _ dis code, where jf = "0x4000" and w = "0x3000" and d = True]
    by (auto simp: near_def)
qed

theorem image_breaks_build_witness:
  "\<exists>h. find_fork (demo_build\<lparr>image_end := Some 0x101f\<rparr>) EL6 (Some 6) = Some h \<and> trap_of (features_of EL6 True) h 0x2000 0x4000 0x3000 = None"
  using image_breaks_build [of "demo_build\<lparr>image_end := Some 0x101f\<rparr>", OF _ demo_build_address, of EL6 "Some 6"]
  by (auto simp: demo_build_def)
end
