(* ===== verification/Spec2Isabelle.thy ===== *)
theory Spec2Isabelle
  imports Path_Persistence Pam_Chos Reader_Races Job_Starter Valid_List Init_Script Load_Test Address_Header
begin

text \<open>
  CHOS lets every process of a Linux machine see its own operating system tree. A kernel module
  (\<^verbatim>\<open>src/kernel/chos_lkm.c\<close>, \<^verbatim>\<open>src/kernel/chos.h\<close>) keeps a path for each process and offers it as the target of
  the special link \<^verbatim>\<open>/proc/chos/link\<close>; the root directory that CHOS processes are given consists of symbolic
  links through that file. A process chooses its path by writing to \<^verbatim>\<open>/proc/chos/setchos\<close>, root says which paths may be
  chosen by writing to \<^verbatim>\<open>/proc/chos/valid\<close>, children inherit the path of their parent, and two
  programs make the choice for users: the command \<^verbatim>\<open>chos\<close> (\<^verbatim>\<open>src/utils/chos.c\<close>) and a PAM session module
  (\<^verbatim>\<open>src/pam_chos\<close>), which read the trees from \<^verbatim>\<open>/etc/chos\<close>. Batch systems run jobs through one of two starters
  (\<^verbatim>\<open>src/utils/job_starter.c\<close>, \<^verbatim>\<open>src/utils/pam_job_starter.c\<close>), which rely on the command and on the PAM module. When the
  system starts, \<^verbatim>\<open>src/utils/chos.init\<close> loads the module, fills \<^verbatim>\<open>/chos\<close> and writes the paths of \<^verbatim>\<open>/etc/chos\<close> to \<^verbatim>\<open>/proc/chos/valid\<close>. \<^verbatim>\<open>src/kernel/find_fork.sh\<close> prepares the build of the module. \<^verbatim>\<open>src/test/fastloop.c\<close> is a load test of inheritance.

  \<^bold>\<open>The theories, and what they model.\<close>

  \<^item> \<^verbatim>\<open>Chos_Prelude\<close>: the type of faults, sequencing of operations that may fault (\<open>ebind\<close>), C strings over
    byte lists, the memory of the user, of which only some addresses are mapped, the scan for the end of a line that \<^verbatim>\<open>write_setchos\<close> and \<^verbatim>\<open>write_valid\<close> share, and the locales for
    data refinement and for invariants of machines.

  \<^item> \<^verbatim>\<open>Link_Table\<close>: \<^verbatim>\<open>struct chos_link\<close>, \<^verbatim>\<open>struct chos_proc\<close> and \<^verbatim>\<open>create_link\<close>, \<^verbatim>\<open>destroy_link\<close>, \<^verbatim>\<open>reset_link\<close>,
    \<^verbatim>\<open>set_link\<close>, \<^verbatim>\<open>cleanup_links\<close>, \<^verbatim>\<open>lookup_link\<close>. Pointers are addresses of an explicit store, so that a use
    after free, a double free, an access beyond the array of slots and a failed \<^verbatim>\<open>BUG_ON\<close> are values of the type
    of faults. Its invariant says that every reference count is the number of slots that hold the link.

  \<^item> \<^verbatim>\<open>Link_Lookup\<close>: the abstract specification. The view of a table is the path and start time of each slot;
    \<open>inherits\<close> says which path a process has. The operations refine updates of the view (C3, C4), the walk
    \<^verbatim>\<open>lookup_link\<close> returns what the process inherits and its caching is invisible (C1, C2), the walk ends whenever the parent chains do (C39), and \<^verbatim>\<open>cleanup_links\<close>
    removes exactly the stale slots (C5).

  \<^item> \<^verbatim>\<open>Slot_Locks\<close>: the same operations cut at the points where the read-write lock of a slot is taken or given back and at
    the atomic operations on reference counts, as instructions of threads that are interleaved in any order. A
    thread alone does what the functions of \<^verbatim>\<open>Link_Table\<close> do (C16).

  \<^item> \<^verbatim>\<open>Slot_Races\<close>: an invariant of the threads and the table gives what the locks achieve (C14) and that all calls end; schedules show what
    they do not prevent.

  \<^item> \<^verbatim>\<open>Reader_Races\<close>: any number of lookups and of forks at the same time. As long as no slot is stale no call fails, all end, and each finds what its process
    inherits (C15); with stale slots two readers can free a link twice (C40).

  \<^item> \<^verbatim>\<open>Kernel_State\<close>: the state of the module (the table extended by the list of valid paths, the rest of
    \<^verbatim>\<open>struct chos\<close>, \<^verbatim>\<open>save_state\<close>, and the \<^verbatim>\<open>fs_struct\<close>, credentials and address limit of processes), its invariant,
    and the transport of the lemmas of the table to it.

  \<^item> \<^verbatim>\<open>Valid_Paths\<close>: \<^verbatim>\<open>add_valid_path\<close>, \<^verbatim>\<open>remove_valid_path\<close>, \<^verbatim>\<open>resetvalid\<close>, \<^verbatim>\<open>write_valid\<close>, \<^verbatim>\<open>print_valid\<close>,
    \<^verbatim>\<open>is_valid_path\<close>; what is written is added and printed back (C22), and a dash empties the list.

  \<^item> \<^verbatim>\<open>Valid_List\<close>: the same operations on the doubly linked list in memory, through its pointers. Given the laws of the kernel's list functions they implement
    \<^verbatim>\<open>Valid_Paths\<close> (C23); nothing locks the list, and a walk that overlaps with a write uses freed entries.

  \<^item> \<^verbatim>\<open>Boot_Script\<close>: \<^verbatim>\<open>loadvalid\<close> of \<^verbatim>\<open>chos.init\<close> with its \<^verbatim>\<open>awk\<close> program: it makes valid the second fields of all sections of the file, and of the paths that the file defines for users those without a colon (C24);
    where the two readers of the file differ.

  \<^item> \<^verbatim>\<open>Init_Script\<close>: the other functions of \<^verbatim>\<open>chos.init\<close> as the sequence of commands that they run: stopping takes away exactly the mounts of starting (C25), except when a mount is inside \<^verbatim>\<open>/chos/local\<close>, and starting
    fills \<^verbatim>\<open>/chos\<close> with links through the special link.

  \<^item> \<^verbatim>\<open>Proc_Files\<close>: \<^verbatim>\<open>is_chrooted\<close>, \<^verbatim>\<open>my_chroot\<close>, \<^verbatim>\<open>write_setchos\<close>, \<^verbatim>\<open>write_resetchos\<close>, \<^verbatim>\<open>write_savestate\<close>,
    \<^verbatim>\<open>print_version\<close>, \<^verbatim>\<open>link_readlink\<close>, \<^verbatim>\<open>link_follow_link\<close>: what each call does to the path of the caller and of
    every other process, to the root directory and to the credentials, on every branch (C17 to C21).

  \<^item> \<^verbatim>\<open>Fork_Trap\<close>: \<^verbatim>\<open>set_pteval\<close>, \<^verbatim>\<open>init_do_fork\<close>, \<^verbatim>\<open>cleanup_do_fork\<close> on byte memory with 64-bit addresses: the
    jumps land where they should, unloading restores the kernel's code byte by byte, and a kernel with other
    instructions is left alone (C30). A store to the kernel's code needs a writable page table entry, and the calls of \<^verbatim>\<open>set_memory_x\<close> are recorded.

  \<^item> \<^verbatim>\<open>Address_Header\<close>: \<^verbatim>\<open>src/kernel/find_fork.sh\<close>, which writes \<^verbatim>\<open>address.h\<close>, and the macros of the module that use it: for the kernels that the script knows the
    trap works with what it writes (C29); with a kernel image the module does not compile.

  \<^item> \<^verbatim>\<open>Fork_Wrapper\<close>: \<^verbatim>\<open>chos_do_fork\<close>, \<^verbatim>\<open>my_sys_exit\<close>, \<^verbatim>\<open>my_sys_exit_group\<close>: a child has its parent's path and keeps
    it, an exit leaves the children theirs (C26, C28), and what goes wrong when other processes run during
    the fork.

  \<^item> \<^verbatim>\<open>Kernel_Config\<close>: the conditional definitions of \<^verbatim>\<open>src/kernel/chos.h\<close> as a function of the kernel version, and the
    three variants of the path lookups in \<^verbatim>\<open>init_chos\<close>.

  \<^item> \<^verbatim>\<open>Module_Init\<close>: \<^verbatim>\<open>init_chos\<close>, \<^verbatim>\<open>recover_chos\<close>, \<^verbatim>\<open>chos_make_proc_entry\<close>, \<^verbatim>\<open>init_module\<close>, \<^verbatim>\<open>cleanup_module\<close>, with
    the exit system calls that the option \<^verbatim>\<open>SCT\<close> replaces: a fresh module starts in the invariant with an empty table (C31), a saved
    table survives unloading and reloading (C32), and loading and unloading leave the kernel as it was (C33). Which
    root directory \<^verbatim>\<open>/\<close> stands for depends on the kernel; resuming a saved state is not safe.

  \<^item> \<^verbatim>\<open>Kernel_Machine\<close>: all handlers and wrappers as the steps of one transition relation. From loading on no call
    faults, except on a buffer that is not mapped (C6), the link of no process ever leads to a path that root has not granted (C7), the accounts of links and
    texts are exact (C11), the handlers return what \<^verbatim>\<open>write\<close> needs and change nothing when they fail (C12), and every process can always
    enter every valid tree (C13).

  \<^item> \<^verbatim>\<open>Path_Persistence\<close>: the steps of the machine carry labels that say who does what; a process that has a path keeps it as long as it
    does not ask for another itself and no fork takes it for its new child (C8).

  \<^item> \<^verbatim>\<open>Load_Test\<close>: the load test run against the fork wrapper and the special link never reports a difference (C27).

  \<^item> \<^verbatim>\<open>Conf_Files\<close>: \<^verbatim>\<open>check_chos\<close> in its two copies, \<^verbatim>\<open>set_env\<close>, \<^verbatim>\<open>set_beh\<close>, compared with a specification on the
    lines of the file (C36, C38); \<^verbatim>\<open>set_env\<close> stays within its array on every file and terminates it (C37). Elements of an array from \<^verbatim>\<open>malloc\<close> are unwritten, and
    \<open>exec_args\<close> is what \<^verbatim>\<open>execve\<close> reads of such an array.

  \<^item> \<^verbatim>\<open>Chos_Util\<close>: \<^verbatim>\<open>main\<close>, \<^verbatim>\<open>set_multi\<close>, \<^verbatim>\<open>get_multi\<close>, \<^verbatim>\<open>is_chrooted\<close>, the arguments of the command and the texts it prints.

  \<^item> \<^verbatim>\<open>Job_Starter\<close>: \<^verbatim>\<open>main\<close> of both job starters: a job that names a tree goes through the command into it with exactly its
    arguments (C34), and with PAM a job runs exactly when the session is open.

  \<^item> \<^verbatim>\<open>Pam_Chos\<close>: \<^verbatim>\<open>pam_chos_util.c\<close>, \<^verbatim>\<open>pam_chos_helper.c\<close> and \<^verbatim>\<open>pam_sm_open_session\<close>: a session is never refused, whatever becomes of its child,
    and what is written to the kernel has been sanitized (C35); a session enters the tree that the user asked
    for.

  \<^item> This theory: what a session writes is what the kernel installs. From the start script through the command to the kernel,
    every tree that \<^verbatim>\<open>/etc/chos\<close> defines can be entered (C9); and from the start script through the session of a login and its fork to the special link,
    a user gets the tree that \<^verbatim>\<open>.chos\<close> names (C10).

  \<^bold>\<open>Interfaces.\<close> The locales \<open>data_refinement\<close> and \<open>invariant_machine\<close> of the prelude are interpreted on the table
  (\<open>sweep\<close>), on the kernel machine (\<open>kernel\<close>) and on the interleaved threads (\<open>locks\<close>); \<open>line_buffer\<close> of \<^verbatim>\<open>Conf_Files\<close> holds what the readers promise for a buffer of any size and
  is interpreted on the two sizes of the code, 80 and 81; \<open>list_primitives\<close> of \<^verbatim>\<open>Valid_List\<close> states what the kernel promises of \<^verbatim>\<open>list_add_tail\<close> and \<^verbatim>\<open>list_del\<close>, holds the lemmas on
  the functions that call them, and is interpreted on the usual updates of the pointers (\<open>pointers\<close>). Code outside the repository is a parameter: the task
  list and the lookup of pids (\<open>task_tree\<close>, \<open>finds\<close>), the allocator (\<open>fresh_alloc\<close>), which may fail for each allocation, the memory of the user (\<open>readable\<close>), copying from it (\<open>copies\<close>),
  \<^verbatim>\<open>sys_chroot\<close>, \<^verbatim>\<open>do_fork\<close>, the services that loading and unloading call (\<open>boot_ok\<close>, \<open>proc_law\<close>), the results of the system calls of the programs, the shell with
  \<^verbatim>\<open>echo\<close>, \<^verbatim>\<open>sort\<close> and \<^verbatim>\<open>uniq\<close> (\<open>shell_ok\<close>, \<open>shell_names\<close>), the answers of tests, the mount points in use and the status of commands in \<^verbatim>\<open>chos.init\<close> (\<open>umount_law\<close>, \<open>link_laws\<close>), and what \<^verbatim>\<open>objdump\<close> finds in a kernel image.

  \<^bold>\<open>Bounds.\<close> The invariant has \<^verbatim>\<open>pid_max\<close> below \<open>2 ^ 31\<close>, which holds for every pid of Linux and keeps
  the 32-bit reference counts from wrapping. \<^verbatim>\<open>lookup_link\<close> follows parent pointers and is a partial function; on every
  task tree it is shown to return. The walks through the linked list of valid paths are partial functions too, shown to return on
  every well-formed list. All other loops over arrays, lists and files are total. A run of
  interleaved calls that write slots has at most eight steps for each call; for lookups and forks \<open>read_steps\<close> bounds the steps, and C15 asks
  that it stays, with \<^verbatim>\<open>pid_max\<close>, below \<open>2 ^ 32\<close>, so that no count wraps. The trap needs at least the nine
  bytes that the stored jump overwrites (an opcode and eight bytes of displacement), and targets within the reach
  of a near jump. Pids are nonnegative.

  \<^bold>\<open>What is not modelled.\<close> In the kernel machine each handler is one step; overlapping is modelled for the operations of the slots,
  by their lock regions (writers with new links, and lookups with forks, are shown safe within the stated limits; lookups that overlap with writers are not safe, as
  schedules show), for the fork wrapper, which hands control to other processes in the middle,
  and for walks of the list of valid paths that a write interrupts, which the code does not lock, but not for whole handlers. In the load test a child runs
  when the wrapper has returned in its parent. Of the parts of \<^verbatim>\<open>chos_lkm.c\<close> that depend on the kernel
  version, other than the lookups of the root directories, the variant for EL6 is modelled; on the branch for \<^verbatim>\<open>/\<close> of \<^verbatim>\<open>write_setchos\<close>
  the variants differ only in where the root directory of a process is stored. One page table entry stands for all of the code that the trap patches. Log messages and messages to standard error, except
  those of \<^verbatim>\<open>pam_job_starter\<close>, the count of references on directories, functions with an empty body (\<^verbatim>\<open>listvalid\<close>,
  \<^verbatim>\<open>configure_chos\<close>) or a constant result (\<^verbatim>\<open>pam_sm_close_session\<close>), the progress messages of
  \<^verbatim>\<open>chos.init\<close>, the addresses of kernel functions that \<^verbatim>\<open>find_fork.sh\<close> writes, and the other shell scripts, which set up directories and packages, are left out.
\<close>

section \<open>From the login to the kernel\<close>

lemma session_text:
  assumes "length (buf1 x) = MAXLINE + 1" "length (buf2 x) = MAXLINE + 1"
    and "pam_sm_open_session x = Inr (PAM_SUCCESS, Some p, var)"
  shows "NL \<notin> set p" "NUL \<notin> set p"
proof -
  obtain pipe st where "pam_sm_open_session x = session_parent x pipe st"
    using open_session_cases [of x] assms(3) by auto
  with session_parent_ok [OF assms(1,2), of pipe st] assms(3) have "plain_text (Some p)" by auto
  then have "\<forall>c \<in> set p. 45 \<le> (of_char c :: nat)" by (simp add: plain_text_def)
  then show "NL \<notin> set p" "NUL \<notin> set p" by auto
qed

lemma requested_text:
  assumes "NL \<notin> set p" "NUL \<notin> set p" and "copies cp" "fst (cp p) = 0"
  shows "requested cp (umem p) (length p) = p"
  using assms umem_line [OF assms(1,2)] by (simp add: requested_def copies_def cstr_no_NUL)

lemma setchos_text:
  assumes "kernel_inv s" "task_tree (length (procs s)) ts" "finds ts find_task" "ts current = Some t" "1 < tpid t"
      "fresh_alloc kmt" "fresh_alloc km" "kmt (\<lambda>a. bufs s a \<noteq> None) \<noteq> None" "link_memory km s"
    and copy: "copies cp" "fst (cp p) = 0" and valid: "p = ''/'' \<or> p \<in> set (valid_strings s)" and p: "NL \<notin> set p" "NUL \<notin> set p"
  shows "\<exists>s'. write_setchos ts find_task current sc kmt km cp (umem p) (length p) s = Inr (int (length p), s') \<and>
    kernel_inv s' \<and> (\<forall>r. inherits ts (view s') (Some current) r \<longleftrightarrow> r = Some p)"
  using setchos_accepted [OF assms(1-9), of cp "umem p" "length p" sc] valid readable_umem unfolding requested_text [OF p copy] by blast

text \<open>
  What a session writes arrives at the kernel as it is, and a login enters its tree: when the text that \<^verbatim>\<open>pam_sm_open_session\<close> writes
  to \<^verbatim>\<open>setchos\<close> is a valid path, the handler accepts it and from then on the process that opened the session has exactly that
  path.
\<close>

theorem login_enters_tree:
  assumes session: "pam_sm_open_session x = Inr (PAM_SUCCESS, Some p, var)"
      "length (buf1 x) = MAXLINE + 1" "length (buf2 x) = MAXLINE + 1"
    and kernel: "kernel_inv s" "task_tree (length (procs s)) ts" "finds ts find_task" "ts current = Some t" "1 < tpid t"
      "fresh_alloc kmt" "fresh_alloc km" "kmt (\<lambda>a. bufs s a \<noteq> None) \<noteq> None" "link_memory km s"
    and copy: "copies cp" "fst (cp p) = 0" and valid: "p = ''/'' \<or> p \<in> set (valid_strings s)"
  shows "\<exists>s'. write_setchos ts find_task current sc kmt km cp (umem p) (length p) s = Inr (int (length p), s') \<and>
    kernel_inv s' \<and> (\<forall>r. inherits ts (view s') (Some current) r \<longleftrightarrow> r = Some p)"
  by (rule setchos_text [OF kernel copy valid session_text [OF session(2,3,1)]])

lemma demo_session_run: "pam_sm_open_session demo_session = Inr (PAM_SUCCESS, Some ''/os/sl6'', Some ''CHOS=sl6'')"
  by code_simp

theorem login_enters_tree_witness:
  "\<exists>s'. write_setchos demo_tasks demo_find 6 (\<lambda>_ _ _ r. (0, r)) (demo_alloc 40) (demo_alloc 50) demo_copy
       (umem ''/os/sl6'') (length ''/os/sl6'') demo_kernel = Inr (int (length ''/os/sl6''), s') \<and>
     kernel_inv s' \<and> (\<forall>r. inherits demo_tasks (view s') (Some 6) r \<longleftrightarrow> r = Some ''/os/sl6'')"
  by (rule login_enters_tree [OF demo_session_run _ _ demo_kernel_inv demo_kernel_tree demo_finds demo_at(2) _
        demo_alloc_fresh demo_alloc_fresh demo_kernel_mem demo_kernel_links demo_copies])
    (simp_all add: demo_session_def demo_copy_def demo_kernel_strings)

text \<open>
  A refusal goes unnoticed: when the text is no valid path, the handler refuses it and leaves the process with the path
  it had, but the session, which does not look at the result of writing, has returned success and set \<^verbatim>\<open>CHOS\<close>.
\<close>

theorem login_refused_unnoticed:
  assumes session: "pam_sm_open_session x = Inr (PAM_SUCCESS, Some p, Some var)"
      "length (buf1 x) = MAXLINE + 1" "length (buf2 x) = MAXLINE + 1"
    and kernel: "kernel_inv s" "task_tree (length (procs s)) ts" "finds ts find_task" "ts current = Some t"
      "fresh_alloc kmt" "fresh_alloc km" "kmt (\<lambda>a. bufs s a \<noteq> None) \<noteq> None"
    and copy: "copies cp" "fst (cp p) = 0" and invalid: "p \<noteq> ''/''" "p \<notin> set (valid_strings s)"
  shows "\<exists>s'. write_setchos ts find_task current sc kmt km cp (umem p) (length p) s = Inr (- ENOENT, s') \<and>
    view s' = view s"
proof -
  have req: "requested cp (umem p) (length p) = p"
    by (rule requested_text [OF session_text [OF session(2,3,1)] copy])
  show ?thesis
    using kernel(1,3,4) task_treeD(1) [OF kernel(2,4)] kernel(5,6) readable_umem
  proof (cases rule: write_setchos_cases [where sc = sc and cp = cp and buf = "umem p" and count = "length p"])
    case (invalid a)
    with new_buf [OF kernel(1) invalid(1)] show ?thesis by auto
  qed (use kernel(7) invalid req in auto)
qed

theorem login_refused_unnoticed_witness:
  "\<exists>s'. write_setchos demo_tasks demo_find 6 (\<lambda>_ _ _ r. (0, r)) (demo_alloc 40) (demo_alloc 50) demo_copy
       (umem ''/os/sl6'') (length ''/os/sl6'') (wkern demo_world) = Inr (- ENOENT, s') \<and> view s' = view (wkern demo_world)"
proof -
  note k = kinvD(1,2) [OF kinit_kinv [OF demo_world_init]]
  have ts: "wtasks demo_world = demo_tasks" by (simp add: demo_world_def)
  have none: "valid_strings (wkern demo_world) = []" "bufs (wkern demo_world) 40 = None"
    by (simp_all add: demo_world_def valid_strings_def)
  then have mem: "demo_alloc 40 (\<lambda>a. bufs (wkern demo_world) a \<noteq> None) \<noteq> None" by (simp add: demo_alloc_def)
  show ?thesis
    by (rule login_refused_unnoticed [OF demo_session_run _ _ k(1) k(2) [unfolded ts] demo_finds demo_at(2)
          demo_alloc_fresh demo_alloc_fresh mem demo_copies])
      (simp_all add: demo_session_def demo_copy_def none)
qed

section \<open>From the command to the kernel\<close>

lemma command_run:
  assumes ls: "\<forall>l \<in> set ls. line_fits MAXLINE l" and conf: "u_conf u = Some \<lparr>contents = unlines ls, st_uid = Some 0\<rparr>"
    and name: "u_getenv u ''CHOS'' = Some name" "conf_lookup ls name = Some path" "CHR ''%'' \<notin> set path" "length path < MAX_OS"
    and sys: "u_shell u = Some shell" "u_open u" "u_printed u" and argv: "2 \<le> length argv" "fst (chos_parse_args u argv)"
    and kernel: "kernel_inv s" "task_tree (length (procs s)) ts" "finds ts find_task" "ts current = Some t" "1 < tpid t"
    and link: "inherits ts (view s) (Some current) r" "cur = (case r of None \<Rightarrow> ''/'' | Some x \<Rightarrow> x)"
      "u_link u = Some cur" "cur \<noteq> []" "length cur < MAX_OS"
    and mem: "fresh_alloc kmt" "fresh_alloc km" "text_memory kmt s" "link_memory km s"
    and copy: "copies cp" "fst (cp path) = 0" and valid: "path = ''/'' \<or> path \<in> set (valid_strings s)"
  shows "\<exists>s1 out s2 s3. link_readlink ts current (\<lambda>y. y) s = Some (Inr (cur, s1)) \<and>
    chos_main argv u = Inr ([], out, Execvp (argv ! 1) (tl argv)) \<and>
    (case out of None \<Rightarrow> s2 = s1
     | Some x \<Rightarrow> write_setchos ts find_task current sc kmt km cp (umem x) (length x) s1 = Inr (int (length x), s2)) \<and>
    kernel_inv s2 \<and> link_readlink ts current (\<lambda>y. y) s2 = Some (Inr (path, s3))"
proof -
  obtain l where "l \<in> set ls" "set path \<subseteq> set l" by (rule conf_lookup_line [OF name(2)])
  with ls have chars: "NL \<notin> set path" "NUL \<notin> set path" by (auto simp: line_fits_def)
  have cur: "ts current \<noteq> None" using kernel(4) by simp
  obtain s1 where s1: "link_readlink ts current (\<lambda>y. y) s = Some (Inr (cur, s1))" "kernel_inv s1" "valid_strings s1 = valid_strings s"
      "task_tree (length (procs s1)) ts" "shrinks s s1" "\<And>u r. inherits ts (view s1) u r \<longleftrightarrow> inherits ts (view s) u r"
    by (rule readlink_walk [OF kernel(1,2) cur link(1), of "\<lambda>y. y"]) (simp add: link(2))
  have main: "chos_main argv u = Inr ([], if cur = path then None else Some path, Execvp (argv ! 1) (tl argv))"
    by (rule chos_enters [OF ls conf name(1-3) sys(1) link(3-5) name(4) sys(2,3) argv])
  show ?thesis
  proof (cases "cur = path")
    case True
    obtain s3 where "link_readlink ts current (\<lambda>y. y) s1 = Some (Inr (path, s3))"
      using readlink_walk [OF s1(2,4) cur, of r "\<lambda>y. y"] s1(6) link(1,2) True by metis
    with s1 main True show ?thesis by auto
  next
    case False
    have "path = ''/'' \<or> path \<in> set (valid_strings s1)" using valid s1(3) by simp
    then obtain s2 where s2: "write_setchos ts find_task current sc kmt km cp (umem path) (length path) s1 = Inr (int (length path), s2)"
        "kernel_inv s2" "\<And>r. inherits ts (view s2) (Some current) r \<longleftrightarrow> r = Some path"
      using setchos_text [OF s1(2,4) kernel(3-5) mem(1,2) memory_shrinks(1) [OF s1(5) mem(3)] memory_shrinks(2) [OF s1(5) mem(4)]
          copy _ chars] by blast
    have tree: "task_tree (length (procs s2)) ts"
      using setchos_keeps [OF s1(2,4) kernel(3) cur mem(1,2) readable_umem, of sc cp path "length path"] s2(1) s1(4) by (auto simp: keeps_def)
    have own: "inherits ts (view s2) (Some current) (Some path)" by (simp add: s2(3))
    obtain s3 where "link_readlink ts current (\<lambda>y. y) s2 = Some (Inr (path, s3))"
      by (rule readlink_walk [OF s2(2) tree cur own, of "\<lambda>y. y"]) simp
    with s1(1) s2 main False show ?thesis by auto
  qed
qed

text \<open>
  The command and the kernel together: \<^verbatim>\<open>chos\<close>, run by a process with a command and a name that \<^verbatim>\<open>/etc/chos\<close> defines as a valid path, reads the
  special link, writes to \<^verbatim>\<open>setchos\<close> if and only if the link leads elsewhere, and becomes the command; the kernel accepts what it
  writes, and from then on the special link leads the process to exactly the path of the name.
\<close>

theorem command_enters_tree:
  assumes ls: "\<forall>l \<in> set ls. line_fits MAXLINE l" and conf: "u_conf u = Some \<lparr>contents = unlines ls, st_uid = Some 0\<rparr>"
    and name: "u_getenv u ''CHOS'' = Some name" "conf_lookup ls name = Some path" "CHR ''%'' \<notin> set path" "length path < MAX_OS"
    and sys: "u_shell u = Some shell" "u_open u" "u_printed u" and argv: "2 \<le> length argv" "fst (chos_parse_args u argv)"
    and kernel: "kernel_inv s" "task_tree (length (procs s)) ts" "finds ts find_task" "ts current = Some t" "1 < tpid t"
    and link: "inherits ts (view s) (Some current) r" "cur = (case r of None \<Rightarrow> ''/'' | Some x \<Rightarrow> x)"
      "u_link u = Some cur" "cur \<noteq> []" "length cur < MAX_OS"
    and mem: "fresh_alloc kmt" "fresh_alloc km" "text_memory kmt s" "link_memory km s"
    and copy: "copies cp" "fst (cp path) = 0" and valid: "path = ''/'' \<or> path \<in> set (valid_strings s)"
  shows "\<exists>s1 out s2 s3. link_readlink ts current (\<lambda>y. y) s = Some (Inr (cur, s1)) \<and>
    chos_main argv u = Inr ([], out, Execvp (argv ! 1) (tl argv)) \<and>
    (case out of None \<Rightarrow> s2 = s1
     | Some x \<Rightarrow> write_setchos ts find_task current sc kmt km cp (umem x) (length x) s1 = Inr (int (length x), s2)) \<and>
    kernel_inv s2 \<and> link_readlink ts current (\<lambda>y. y) s2 = Some (Inr (path, s3))"
  by (rule command_run [OF assms])

theorem command_enters_tree_witness:
  "\<exists>s1 out s2 s3. link_readlink demo_tasks 5 (\<lambda>y. y) demo_idle = Some (Inr (''/'', s1)) \<and>
     chos_main [''chos'', ''ls''] demo_util = Inr ([], out, Execvp ''ls'' [''ls'']) \<and> out = Some ''/os/sl6'' \<and>
     write_setchos demo_tasks demo_find 5 (\<lambda>_ _ _ r. (0, r)) (demo_alloc 40) (demo_alloc 50) demo_copy
       (umem ''/os/sl6'') (length ''/os/sl6'') s1 = Inr (7, s2) \<and>
     link_readlink demo_tasks 5 (\<lambda>y. y) s2 = Some (Inr (''/os/sl6'', s3))"
proof -
  have "bufs demo_idle 40 = None" by (simp add: demo_idle_fields) (simp add: demo_kernel_def demo_bufs_def)
  then have mem: "text_memory (demo_alloc 40) demo_idle" "link_memory (demo_alloc 50) demo_idle"
    by (auto simp: text_memory_def link_memory_def demo_alloc_def demo_idle_fields(4))
  have tree: "task_tree (length (procs demo_idle)) demo_tasks" unfolding demo_idle_fields by (rule demo_kernel_tree)
  have main: "chos_main [''chos'', ''ls''] demo_util = Inr ([], Some ''/os/sl6'', Execvp ''ls'' [''ls''])" by code_simp
  have u: "u_conf demo_util = Some \<lparr>contents = unlines [''%SHELLS'', ''sl6:/os/sl6''], st_uid = Some 0\<rparr>"
      "u_getenv demo_util ''CHOS'' = Some ''sl6''" "u_shell demo_util = Some ''/bin/sh''" "u_open demo_util" "u_printed demo_util"
      "u_link demo_util = Some ''/''" "fst (chos_parse_args demo_util [''chos'', ''ls''])"
    by (simp_all add: demo_util_def chos_parse_args_def argmatch_def)
  have c: "conf_lookup [''%SHELLS'', ''sl6:/os/sl6''] ''sl6'' = Some ''/os/sl6''"
    by (simp add: conf_lookup_def comment_def map_filter_simps)
  show ?thesis
    using command_enters_tree [where u = demo_util and argv = "[''chos'', ''ls'']" and cur = "''/''" and r = None
        and sc = "\<lambda>_ _ _ r. (0, r)" and cp = demo_copy,
        OF _ u(1,2) c _ _ u(3-5) _ u(7) demo_idle_inv tree demo_finds demo_at(1) _ demo_idle_inherits _ u(6) _ _
        demo_alloc_fresh demo_alloc_fresh mem demo_copies] main
    by (auto simp: line_fits_def demo_copy_def demo_idle_fields(2) demo_kernel_strings)
qed

text \<open>
  What \<^verbatim>\<open>chos --version\<close> prints of the module is the line of \<^verbatim>\<open>/proc/chos/version\<close>, which fits its buffer, with its line feed; like \<^verbatim>\<open>--help\<close> it
  ends with the status 1.
\<close>

theorem version_reported:
  assumes "u_koversion u = Some (print_version s)" and "length argv = 2" "argmatch (argv ! 1) ''--version''"
  shows "chos_main argv u = Inr (''CHOS userland component version:'' @ [TAB] @ u_VERSION u @ [NL] @
    ''CHOS kernel component version:  '' @ [TAB] @ print_version s @ [NL], None, Return 1)"
proof -
  obtain l where l: "print_version s = l @ NL # []" "line_fits MAXLINE l"
    by (rule that [of "''chos 0.13.2 '' @ (if ch_fork_wrapped s \<noteq> 0 then ''Fork trapped'' else ''Fork not trapped'')"])
      (simp_all add: print_version_def line_fits_def)
  have "fgets MAXLINE (print_version s) = Some (l @ [NL], [])" unfolding l(1) by (rule util_buffer.fgets_fits [OF l(2)])
  moreover have "cstr (l @ [NL]) = l @ [NL]" using l(2) by (intro cstr_no_NUL) (simp add: line_fits_def)
  ultimately show ?thesis
    using assms by (simp add: chos_main_def chos_parse_args_def chos_print_version_def kernel_version_def l(1))
qed

section \<open>From the start of the system to a command\<close>




section \<open>From the start of the system to the shell of a login\<close>




end
